(* ===== verification/Prelude.thy ===== *)
theory Prelude
  imports Main "HOL-Library.Word" "HOL-Library.Multiset" "HOL-Library.Sublist"
begin

text \<open>
  Shared vocabulary of the development: the machine integer types of the C sources, the
  collections of facts the component proofs feed to the simplifier, and the generic
  lemmas on words, bits and lists that more than one component needs.
\<close>

unbundle bit_operations_syntax

section \<open>Machine types\<close>

type_synonym uchar = "8 word"
type_synonym uint16 = "16 word"
type_synonym uint32 = "32 word"
type_synonym ulonglong = "64 word"

section \<open>Collections of facts\<close>

named_theorems mdl_types \<open>the lock types and their compatibility matrices\<close>
named_theorems mdl_defs \<open>the operations of the metadata lock manager\<close>

section \<open>Bits\<close>

text \<open>C tests a mask with \<open>x & y\<close>; on words this is an existential over bit positions.\<close>

lemma word_and_eq_0_iff:
  "(x :: 'a::len word) AND y = 0 \<longleftrightarrow> (\<forall>i. \<not> (bit x i \<and> bit y i))"
proof
  assume "x AND y = 0"
  then show "\<forall>i. \<not> (bit x i \<and> bit y i)"
    by (metis bit_0_eq bit_and_iff bot_apply bot_bool_def)
next
  assume "\<forall>i. \<not> (bit x i \<and> bit y i)"
  then show "x AND y = 0"
    by (intro bit_word_eqI) (simp add: bit_and_iff)
qed

lemma word_and_neq_0_iff:
  "(x :: 'a::len word) AND y \<noteq> 0 \<longleftrightarrow> (\<exists>i. bit x i \<and> bit y i)"
  by (simp add: word_and_eq_0_iff)

lemma bit_push_bit_1_word:
  "bit (push_bit n (1 :: 'a::len word)) i \<longleftrightarrow> i = n \<and> n < LENGTH('a)"
  by (auto simp: bit_simps)

text \<open>A value of width \<open>n\<close> that counts fewer than \<open>2 ^ n\<close> things is zero only for none.\<close>

lemma of_nat_eq_0_iff_small:
  "n < 2 ^ LENGTH('a) \<Longrightarrow> (of_nat n :: 'a::len word) = 0 \<longleftrightarrow> n = 0"
  by (auto simp: word_of_nat_eq_0_iff dest: dvd_imp_le)

section \<open>Lists\<close>

lemma count_list_filter_neq:
  "count_list (filter P xs) x = (if P x then count_list xs x else 0)"
  by (induction xs) auto

lemma count_list_0_iff_notin: "count_list xs x = 0 \<longleftrightarrow> x \<notin> set xs"
  by (rule count_list_0_iff)

lemma distinct_map_filter_eq:
  assumes "distinct (map f xs)" and "x \<in> set xs"
  shows "filter (\<lambda>y. f y \<noteq> f x) xs = remove1 x xs"
  using assms
proof (induction xs)
  case Nil
  then show ?case by simp
next
  case (Cons y ys)
  show ?case
  proof (cases "y = x")
    case True
    with Cons.prems have "\<forall>z\<in>set ys. f z \<noteq> f x" by (auto simp: rev_image_eqI)
    with True show ?thesis by simp
  next
    case False
    with Cons.prems have "x \<in> set ys" "f y \<noteq> f x" by auto
    with False Cons show ?thesis by simp
  qed
qed

lemma subseq_set_subset: "subseq xs ys \<Longrightarrow> set xs \<subseteq> set ys"
  by (induction rule: list_emb.induct) auto

lemma find_Some_mem: "find P xs = Some x \<Longrightarrow> x \<in> set xs \<and> P x"
  by (induction xs) (auto split: if_splits)

end
