(* ===== verification/MDL_Types.thy ===== *)
theory MDL_Types
  imports Prelude
begin

text \<open>
  The vocabulary of the metadata lock manager (\<open>src/sql/mdl.h\<close>, \<open>src/sql/mdl.cc\<close>): lock
  types, durations, wait results, the three locking strategies and their compatibility
  matrices. A lock type is a number, as in the code, because the types of the
  \<open>BACKUP\<close> namespace reuse the values of the enum through casts
  (\<open>#define MDL_BACKUP_START enum_mdl_type(0)\<close>). A bitmap of types is a 16 bit word.
\<close>

section \<open>Lock types\<close>

type_synonym enum_mdl_type = nat
type_synonym mdl_bitmap = "16 word"

definition MDL_BIT :: "enum_mdl_type \<Rightarrow> mdl_bitmap" where
  "MDL_BIT A = push_bit A 1"

abbreviation (input) MDL_INTENTION_EXCLUSIVE :: enum_mdl_type where "MDL_INTENTION_EXCLUSIVE \<equiv> 0"
abbreviation (input) MDL_SHARED :: enum_mdl_type where "MDL_SHARED \<equiv> 1"
abbreviation (input) MDL_SHARED_HIGH_PRIO :: enum_mdl_type where "MDL_SHARED_HIGH_PRIO \<equiv> 2"
abbreviation (input) MDL_SHARED_READ :: enum_mdl_type where "MDL_SHARED_READ \<equiv> 3"
abbreviation (input) MDL_SHARED_WRITE :: enum_mdl_type where "MDL_SHARED_WRITE \<equiv> 4"
abbreviation (input) MDL_SHARED_UPGRADABLE :: enum_mdl_type where "MDL_SHARED_UPGRADABLE \<equiv> 5"
abbreviation (input) MDL_SHARED_READ_ONLY :: enum_mdl_type where "MDL_SHARED_READ_ONLY \<equiv> 6"
abbreviation (input) MDL_SHARED_NO_WRITE :: enum_mdl_type where "MDL_SHARED_NO_WRITE \<equiv> 7"
abbreviation (input) MDL_SHARED_NO_READ_WRITE :: enum_mdl_type where "MDL_SHARED_NO_READ_WRITE \<equiv> 8"
abbreviation (input) MDL_EXCLUSIVE :: enum_mdl_type where "MDL_EXCLUSIVE \<equiv> 9"
abbreviation (input) MDL_TYPE_END :: enum_mdl_type where "MDL_TYPE_END \<equiv> 10"

abbreviation (input) MDL_BACKUP_START :: enum_mdl_type where "MDL_BACKUP_START \<equiv> 0"
abbreviation (input) MDL_BACKUP_FLUSH :: enum_mdl_type where "MDL_BACKUP_FLUSH \<equiv> 1"
abbreviation (input) MDL_BACKUP_WAIT_FLUSH :: enum_mdl_type where "MDL_BACKUP_WAIT_FLUSH \<equiv> 2"
abbreviation (input) MDL_BACKUP_WAIT_DDL :: enum_mdl_type where "MDL_BACKUP_WAIT_DDL \<equiv> 3"
abbreviation (input) MDL_BACKUP_WAIT_COMMIT :: enum_mdl_type where "MDL_BACKUP_WAIT_COMMIT \<equiv> 4"
abbreviation (input) MDL_BACKUP_FTWRL1 :: enum_mdl_type where "MDL_BACKUP_FTWRL1 \<equiv> 5"
abbreviation (input) MDL_BACKUP_FTWRL2 :: enum_mdl_type where "MDL_BACKUP_FTWRL2 \<equiv> 6"
abbreviation (input) MDL_BACKUP_DML :: enum_mdl_type where "MDL_BACKUP_DML \<equiv> 7"
abbreviation (input) MDL_BACKUP_TRANS_DML :: enum_mdl_type where "MDL_BACKUP_TRANS_DML \<equiv> 8"
abbreviation (input) MDL_BACKUP_SYS_DML :: enum_mdl_type where "MDL_BACKUP_SYS_DML \<equiv> 9"
abbreviation (input) MDL_BACKUP_DDL :: enum_mdl_type where "MDL_BACKUP_DDL \<equiv> 10"
abbreviation (input) MDL_BACKUP_BLOCK_DDL :: enum_mdl_type where "MDL_BACKUP_BLOCK_DDL \<equiv> 11"
abbreviation (input) MDL_BACKUP_ALTER_COPY :: enum_mdl_type where "MDL_BACKUP_ALTER_COPY \<equiv> 12"
abbreviation (input) MDL_BACKUP_COMMIT :: enum_mdl_type where "MDL_BACKUP_COMMIT \<equiv> 13"
abbreviation (input) MDL_BACKUP_END :: enum_mdl_type where "MDL_BACKUP_END \<equiv> 14"

datatype enum_mdl_duration = MDL_STATEMENT | MDL_TRANSACTION | MDL_EXPLICIT

datatype enum_mdl_namespace = BACKUP | SCHEMA | TABLE | FUNCTION | PROCEDURE
  | PACKAGE_BODY | TRIGGER | EVENT | USER_LOCK

datatype enum_wait_status = EMPTY | GRANTED | VICTIM | TIMEOUT | KILLED

section \<open>Compatibility matrices\<close>

definition scoped_granted_incompatible :: "mdl_bitmap list" where
  "scoped_granted_incompatible =
   [MDL_BIT MDL_EXCLUSIVE OR MDL_BIT MDL_SHARED,
    MDL_BIT MDL_EXCLUSIVE OR MDL_BIT MDL_INTENTION_EXCLUSIVE,
    0, 0, 0, 0, 0, 0, 0,
    MDL_BIT MDL_EXCLUSIVE OR MDL_BIT MDL_SHARED OR MDL_BIT MDL_INTENTION_EXCLUSIVE]"

definition scoped_waiting_incompatible :: "mdl_bitmap list" where
  "scoped_waiting_incompatible =
   [MDL_BIT MDL_EXCLUSIVE OR MDL_BIT MDL_SHARED,
    MDL_BIT MDL_EXCLUSIVE, 0, 0, 0, 0, 0, 0, 0, 0]"

definition object_granted_incompatible :: "mdl_bitmap list" where
  "object_granted_incompatible =
   [0,
    MDL_BIT MDL_EXCLUSIVE,
    MDL_BIT MDL_EXCLUSIVE,
    MDL_BIT MDL_EXCLUSIVE OR MDL_BIT MDL_SHARED_NO_READ_WRITE,
    MDL_BIT MDL_EXCLUSIVE OR MDL_BIT MDL_SHARED_NO_READ_WRITE OR
      MDL_BIT MDL_SHARED_NO_WRITE OR MDL_BIT MDL_SHARED_READ_ONLY,
    MDL_BIT MDL_EXCLUSIVE OR MDL_BIT MDL_SHARED_NO_READ_WRITE OR
      MDL_BIT MDL_SHARED_NO_WRITE OR MDL_BIT MDL_SHARED_UPGRADABLE,
    MDL_BIT MDL_EXCLUSIVE OR MDL_BIT MDL_SHARED_NO_READ_WRITE OR
      MDL_BIT MDL_SHARED_WRITE,
    MDL_BIT MDL_EXCLUSIVE OR MDL_BIT MDL_SHARED_NO_READ_WRITE OR
      MDL_BIT MDL_SHARED_NO_WRITE OR MDL_BIT MDL_SHARED_UPGRADABLE OR
      MDL_BIT MDL_SHARED_WRITE,
    MDL_BIT MDL_EXCLUSIVE OR MDL_BIT MDL_SHARED_NO_READ_WRITE OR
      MDL_BIT MDL_SHARED_NO_WRITE OR MDL_BIT MDL_SHARED_READ_ONLY OR
      MDL_BIT MDL_SHARED_UPGRADABLE OR MDL_BIT MDL_SHARED_WRITE OR
      MDL_BIT MDL_SHARED_READ,
    MDL_BIT MDL_EXCLUSIVE OR MDL_BIT MDL_SHARED_NO_READ_WRITE OR
      MDL_BIT MDL_SHARED_NO_WRITE OR MDL_BIT MDL_SHARED_READ_ONLY OR
      MDL_BIT MDL_SHARED_UPGRADABLE OR MDL_BIT MDL_SHARED_WRITE OR
      MDL_BIT MDL_SHARED_READ OR MDL_BIT MDL_SHARED_HIGH_PRIO OR
      MDL_BIT MDL_SHARED]"

definition object_waiting_incompatible :: "mdl_bitmap list" where
  "object_waiting_incompatible =
   [0,
    MDL_BIT MDL_EXCLUSIVE,
    0,
    MDL_BIT MDL_EXCLUSIVE OR MDL_BIT MDL_SHARED_NO_READ_WRITE,
    MDL_BIT MDL_EXCLUSIVE OR MDL_BIT MDL_SHARED_NO_READ_WRITE OR
      MDL_BIT MDL_SHARED_NO_WRITE,
    MDL_BIT MDL_EXCLUSIVE,
    MDL_BIT MDL_EXCLUSIVE OR MDL_BIT MDL_SHARED_NO_READ_WRITE OR
      MDL_BIT MDL_SHARED_WRITE,
    MDL_BIT MDL_EXCLUSIVE,
    MDL_BIT MDL_EXCLUSIVE,
    0]"

definition backup_granted_incompatible :: "mdl_bitmap list" where
  "backup_granted_incompatible =
   [MDL_BIT MDL_BACKUP_START OR MDL_BIT MDL_BACKUP_FLUSH OR MDL_BIT MDL_BACKUP_WAIT_FLUSH OR
      MDL_BIT MDL_BACKUP_WAIT_DDL OR MDL_BIT MDL_BACKUP_WAIT_COMMIT OR
      MDL_BIT MDL_BACKUP_BLOCK_DDL,
    MDL_BIT MDL_BACKUP_START,
    MDL_BIT MDL_BACKUP_START OR MDL_BIT MDL_BACKUP_DML,
    MDL_BIT MDL_BACKUP_START OR MDL_BIT MDL_BACKUP_DML OR MDL_BIT MDL_BACKUP_DDL,
    MDL_BIT MDL_BACKUP_START OR MDL_BIT MDL_BACKUP_DML OR MDL_BIT MDL_BACKUP_SYS_DML OR
      MDL_BIT MDL_BACKUP_DDL OR MDL_BIT MDL_BACKUP_COMMIT,
    MDL_BIT MDL_BACKUP_DML OR MDL_BIT MDL_BACKUP_TRANS_DML OR MDL_BIT MDL_BACKUP_SYS_DML OR
      MDL_BIT MDL_BACKUP_DDL OR MDL_BIT MDL_BACKUP_ALTER_COPY,
    MDL_BIT MDL_BACKUP_DML OR MDL_BIT MDL_BACKUP_TRANS_DML OR MDL_BIT MDL_BACKUP_SYS_DML OR
      MDL_BIT MDL_BACKUP_DDL OR MDL_BIT MDL_BACKUP_ALTER_COPY OR MDL_BIT MDL_BACKUP_COMMIT,
    MDL_BIT MDL_BACKUP_FLUSH OR MDL_BIT MDL_BACKUP_WAIT_FLUSH OR MDL_BIT MDL_BACKUP_WAIT_DDL OR
      MDL_BIT MDL_BACKUP_WAIT_COMMIT OR MDL_BIT MDL_BACKUP_FTWRL1 OR MDL_BIT MDL_BACKUP_FTWRL2,
    MDL_BIT MDL_BACKUP_FTWRL1 OR MDL_BIT MDL_BACKUP_FTWRL2,
    MDL_BIT MDL_BACKUP_WAIT_COMMIT OR MDL_BIT MDL_BACKUP_FTWRL1 OR MDL_BIT MDL_BACKUP_FTWRL2,
    MDL_BIT MDL_BACKUP_WAIT_DDL OR MDL_BIT MDL_BACKUP_WAIT_COMMIT OR
      MDL_BIT MDL_BACKUP_FTWRL1 OR MDL_BIT MDL_BACKUP_FTWRL2 OR MDL_BIT MDL_BACKUP_BLOCK_DDL,
    MDL_BIT MDL_BACKUP_START OR MDL_BIT MDL_BACKUP_FLUSH OR MDL_BIT MDL_BACKUP_WAIT_FLUSH OR
      MDL_BIT MDL_BACKUP_WAIT_DDL OR MDL_BIT MDL_BACKUP_WAIT_COMMIT OR
      MDL_BIT MDL_BACKUP_BLOCK_DDL OR MDL_BIT MDL_BACKUP_DDL,
    MDL_BIT MDL_BACKUP_FTWRL1 OR MDL_BIT MDL_BACKUP_FTWRL2,
    MDL_BIT MDL_BACKUP_WAIT_COMMIT OR MDL_BIT MDL_BACKUP_FTWRL2]"

definition backup_waiting_incompatible :: "mdl_bitmap list" where
  "backup_waiting_incompatible =
   [MDL_BIT MDL_BACKUP_FLUSH OR MDL_BIT MDL_BACKUP_WAIT_FLUSH OR MDL_BIT MDL_BACKUP_WAIT_DDL OR
      MDL_BIT MDL_BACKUP_WAIT_COMMIT OR MDL_BIT MDL_BACKUP_BLOCK_DDL,
    0,
    0,
    0,
    0,
    0,
    0,
    MDL_BIT MDL_BACKUP_FLUSH OR MDL_BIT MDL_BACKUP_WAIT_FLUSH OR MDL_BIT MDL_BACKUP_WAIT_DDL OR
      MDL_BIT MDL_BACKUP_WAIT_COMMIT OR MDL_BIT MDL_BACKUP_FTWRL1 OR MDL_BIT MDL_BACKUP_FTWRL2,
    MDL_BIT MDL_BACKUP_FTWRL1 OR MDL_BIT MDL_BACKUP_FTWRL2,
    MDL_BIT MDL_BACKUP_WAIT_COMMIT OR MDL_BIT MDL_BACKUP_FTWRL1 OR MDL_BIT MDL_BACKUP_FTWRL2,
    MDL_BIT MDL_BACKUP_WAIT_DDL OR MDL_BIT MDL_BACKUP_WAIT_COMMIT OR
      MDL_BIT MDL_BACKUP_FTWRL1 OR MDL_BIT MDL_BACKUP_FTWRL2 OR MDL_BIT MDL_BACKUP_BLOCK_DDL,
    MDL_BIT MDL_BACKUP_START,
    MDL_BIT MDL_BACKUP_FTWRL1 OR MDL_BIT MDL_BACKUP_FTWRL2,
    MDL_BIT MDL_BACKUP_WAIT_COMMIT OR MDL_BIT MDL_BACKUP_FTWRL2]"

section \<open>Strategies\<close>

text \<open>The three subclasses of \<open>MDL_lock_strategy\<close>, and the virtual methods by cases.\<close>

datatype MDL_lock_strategy = MDL_scoped_lock | MDL_object_lock | MDL_backup_lock

fun incompatible_granted_types_bitmap :: "MDL_lock_strategy \<Rightarrow> mdl_bitmap list" where
  "incompatible_granted_types_bitmap MDL_scoped_lock = scoped_granted_incompatible"
| "incompatible_granted_types_bitmap MDL_object_lock = object_granted_incompatible"
| "incompatible_granted_types_bitmap MDL_backup_lock = backup_granted_incompatible"

fun incompatible_waiting_types_bitmap :: "MDL_lock_strategy \<Rightarrow> mdl_bitmap list" where
  "incompatible_waiting_types_bitmap MDL_scoped_lock = scoped_waiting_incompatible"
| "incompatible_waiting_types_bitmap MDL_object_lock = object_waiting_incompatible"
| "incompatible_waiting_types_bitmap MDL_backup_lock = backup_waiting_incompatible"

fun needs_notification :: "MDL_lock_strategy \<Rightarrow> enum_mdl_type \<Rightarrow> bool" where
  "needs_notification MDL_scoped_lock ty = (ty = MDL_SHARED)"
| "needs_notification MDL_object_lock ty =
     (MDL_BIT ty AND
       (MDL_BIT MDL_SHARED_NO_WRITE OR MDL_BIT MDL_SHARED_NO_READ_WRITE OR
        MDL_BIT MDL_EXCLUSIVE) \<noteq> 0)"
| "needs_notification MDL_backup_lock ty = (MDL_BIT ty AND MDL_BIT MDL_BACKUP_FTWRL1 \<noteq> 0)"

fun conflicting_locks :: "MDL_lock_strategy \<Rightarrow> enum_mdl_type \<Rightarrow> bool" where
  "conflicting_locks MDL_scoped_lock ty = (ty = MDL_INTENTION_EXCLUSIVE)"
| "conflicting_locks MDL_object_lock ty = (ty < MDL_SHARED_UPGRADABLE)"
| "conflicting_locks MDL_backup_lock ty =
     (MDL_BIT ty AND (MDL_BIT MDL_BACKUP_DML OR MDL_BIT MDL_BACKUP_TRANS_DML) \<noteq> 0)"

fun hog_lock_types_bitmap :: "MDL_lock_strategy \<Rightarrow> mdl_bitmap" where
  "hog_lock_types_bitmap MDL_scoped_lock = 0"
| "hog_lock_types_bitmap MDL_object_lock =
     MDL_BIT MDL_SHARED_NO_WRITE OR MDL_BIT MDL_SHARED_NO_READ_WRITE OR MDL_BIT MDL_EXCLUSIVE"
| "hog_lock_types_bitmap MDL_backup_lock = 0"

text \<open>The strategy \<open>lf_hash_initializer\<close> and the constructor of the backup lock install.\<close>

fun strategy_of_namespace :: "enum_mdl_namespace \<Rightarrow> MDL_lock_strategy" where
  "strategy_of_namespace BACKUP = MDL_backup_lock"
| "strategy_of_namespace SCHEMA = MDL_scoped_lock"
| "strategy_of_namespace _ = MDL_object_lock"

text \<open>
  The two matrices as relations on lock types: \<open>incompat_granted s req held\<close> holds when a
  request of type \<open>req\<close> cannot be granted beside a granted lock of type \<open>held\<close>.
\<close>

definition incompat_granted :: "MDL_lock_strategy \<Rightarrow> enum_mdl_type \<Rightarrow> enum_mdl_type \<Rightarrow> bool" where
  "incompat_granted s req held \<longleftrightarrow> MDL_BIT held AND incompatible_granted_types_bitmap s ! req \<noteq> 0"

definition incompat_waiting :: "MDL_lock_strategy \<Rightarrow> enum_mdl_type \<Rightarrow> enum_mdl_type \<Rightarrow> bool" where
  "incompat_waiting s req held \<longleftrightarrow> MDL_BIT held AND incompatible_waiting_types_bitmap s ! req \<noteq> 0"

definition has_stronger_or_equal_type :: "MDL_lock_strategy \<Rightarrow> enum_mdl_type \<Rightarrow> enum_mdl_type \<Rightarrow> bool" where
  "has_stronger_or_equal_type s m_type ty \<longleftrightarrow>
     incompatible_granted_types_bitmap s ! ty AND NOT (incompatible_granted_types_bitmap s ! m_type) = 0"

definition num_types :: "MDL_lock_strategy \<Rightarrow> nat" where
  "num_types s = length (incompatible_granted_types_bitmap s)"

section \<open>Facts about the matrices\<close>

lemma bit_MDL_BIT [simp]: "bit (MDL_BIT A) i \<longleftrightarrow> i = A \<and> A < 16"
  unfolding MDL_BIT_def bit_push_bit_1_word by simp

lemmas matrix_defs =
  scoped_granted_incompatible_def scoped_waiting_incompatible_def
  object_granted_incompatible_def object_waiting_incompatible_def
  backup_granted_incompatible_def backup_waiting_incompatible_def

lemma num_types_simps [simp]:
  "num_types MDL_scoped_lock = MDL_TYPE_END"
  "num_types MDL_object_lock = MDL_TYPE_END"
  "num_types MDL_backup_lock = MDL_BACKUP_END"
  by (simp_all add: num_types_def matrix_defs)

lemma num_types_le: "num_types s \<le> MDL_BACKUP_END"
  by (cases s) simp_all

lemma incompat_granted_bit:
  "held < 16 \<Longrightarrow> incompat_granted s req held \<longleftrightarrow> bit (incompatible_granted_types_bitmap s ! req) held"
  by (auto simp: incompat_granted_def word_and_eq_0_iff)

lemma incompat_waiting_bit:
  "held < 16 \<Longrightarrow> incompat_waiting s req held \<longleftrightarrow> bit (incompatible_waiting_types_bitmap s ! req) held"
  by (auto simp: incompat_waiting_def word_and_eq_0_iff)

lemma less_10_cases:
  "ty < (10 :: nat) \<Longrightarrow> ty = 0 \<or> ty = 1 \<or> ty = 2 \<or> ty = 3 \<or> ty = 4 \<or> ty = 5 \<or> ty = 6 \<or> ty = 7 \<or> ty = 8 \<or> ty = 9"
  by arith

lemma less_14_cases:
  "ty < (14 :: nat) \<Longrightarrow> ty = 0 \<or> ty = 1 \<or> ty = 2 \<or> ty = 3 \<or> ty = 4 \<or> ty = 5 \<or> ty = 6 \<or> ty = 7 \<or> ty = 8 \<or>
    ty = 9 \<or> ty = 10 \<or> ty = 11 \<or> ty = 12 \<or> ty = 13"
  by arith

text \<open>A pending lock outranks a request only where, once granted, it would also exclude it.\<close>

lemma scoped_waiting_within_granted:
  assumes "req < 10" and "bit (scoped_waiting_incompatible ! req) i"
  shows "bit (scoped_granted_incompatible ! req) i"
  using less_10_cases [OF assms(1)] assms(2)
  by (elim disjE) (auto simp: matrix_defs bit_or_iff)

lemma object_waiting_within_granted:
  assumes "req < 10" and "bit (object_waiting_incompatible ! req) i"
  shows "bit (object_granted_incompatible ! req) i"
  using less_10_cases [OF assms(1)] assms(2)
  by (elim disjE) (auto simp: matrix_defs bit_or_iff)

lemma backup_waiting_within_granted:
  assumes "req < 14" and "bit (backup_waiting_incompatible ! req) i"
  shows "bit (backup_granted_incompatible ! req) i"
  using less_14_cases [OF assms(1)] assms(2)
  by (elim disjE) (auto simp: matrix_defs bit_or_iff)

lemma scoped_granted_symmetric:
  assumes "a < 10" "b < 10" and "bit (scoped_granted_incompatible ! a) b"
  shows "bit (scoped_granted_incompatible ! b) a"
  using less_10_cases [OF assms(1)] assms(3)
  by (elim disjE) (auto simp: matrix_defs bit_or_iff)

lemma object_granted_symmetric:
  assumes "a < 10" "b < 10" and "bit (object_granted_incompatible ! a) b"
  shows "bit (object_granted_incompatible ! b) a"
  using less_10_cases [OF assms(1)] assms(3)
  by (elim disjE) (auto simp: matrix_defs bit_or_iff)

text \<open>No type outranks itself, so a request never waits for its own ticket.\<close>

lemma scoped_waiting_irreflexive: "req < 10 \<Longrightarrow> \<not> bit (scoped_waiting_incompatible ! req) req"
  by (drule less_10_cases, elim disjE) (auto simp: matrix_defs bit_or_iff)

lemma object_waiting_irreflexive: "req < 10 \<Longrightarrow> \<not> bit (object_waiting_incompatible ! req) req"
  by (drule less_10_cases, elim disjE) (auto simp: matrix_defs bit_or_iff)

lemma backup_waiting_irreflexive: "req < 14 \<Longrightarrow> \<not> bit (backup_waiting_incompatible ! req) req"
  by (drule less_14_cases, elim disjE) (auto simp: matrix_defs bit_or_iff)

lemmas waiting_irreflexive =
  scoped_waiting_irreflexive object_waiting_irreflexive backup_waiting_irreflexive

lemma incompat_granted_sym:
  assumes "s \<noteq> MDL_backup_lock" "a < num_types s" "b < num_types s"
  shows "incompat_granted s a b \<longleftrightarrow> incompat_granted s b a"
proof (cases s)
  case MDL_scoped_lock
  with assms show ?thesis
    using scoped_granted_symmetric [of a b] scoped_granted_symmetric [of b a]
    by (auto simp: incompat_granted_bit)
next
  case MDL_object_lock
  with assms show ?thesis
    using object_granted_symmetric [of a b] object_granted_symmetric [of b a]
    by (auto simp: incompat_granted_bit)
next
  case MDL_backup_lock
  with assms show ?thesis by simp
qed

end
