(* ===== verification/MDL_Lock.thy ===== *)
theory MDL_Lock
  imports MDL_Types "HOL-Library.Sublist"
begin

text \<open>
  One metadata lock (\<open>class MDL_lock\<close> of \<open>src/sql/mdl.cc\<close>): its queues of granted and
  waiting tickets with their type bitmaps, the test whether a request can be granted, the
  rescheduling of waiters and the removal of tickets. Each operation runs under the
  write lock \<open>m_rwlock\<close> of the lock, so it is one function from the old to the new
  state. A pointer to a ticket or a context is a number; \<open>tk_id\<close> is the ticket's address.
  The model is the server built without \<open>WITH_WSREP\<close>.
\<close>

section \<open>State\<close>

record MDL_ticket =
  tk_id :: nat
  m_type :: enum_mdl_type
  m_ctx :: nat

record Ticket_list =
  m_list :: "MDL_ticket list"
  m_bitmap :: mdl_bitmap
  m_type_counters :: "uint32 list"

record MDL_lock =
  m_strategy :: MDL_lock_strategy
  m_granted :: Ticket_list
  m_waiting :: Ticket_list
  m_hog_lock_count :: ulonglong

type_synonym wait_slots = "nat \<Rightarrow> enum_wait_status"

section \<open>Operations\<close>

definition empty_Ticket_list :: Ticket_list where
  "empty_Ticket_list =
     \<lparr>m_list = [], m_bitmap = 0, m_type_counters = replicate MDL_BACKUP_END 0\<rparr>"

definition new_MDL_lock :: "MDL_lock_strategy \<Rightarrow> MDL_lock" where
  "new_MDL_lock s =
     \<lparr>m_strategy = s, m_granted = empty_Ticket_list, m_waiting = empty_Ticket_list,
      m_hog_lock_count = 0\<rparr>"

definition add_ticket :: "MDL_ticket \<Rightarrow> Ticket_list \<Rightarrow> Ticket_list" where
  "add_ticket t q =
     q\<lparr>m_list := m_list q @ [t],
       m_bitmap := m_bitmap q OR MDL_BIT (m_type t),
       m_type_counters := (m_type_counters q)[m_type t := m_type_counters q ! m_type t + 1]\<rparr>"

definition remove_ticket :: "MDL_ticket \<Rightarrow> Ticket_list \<Rightarrow> Ticket_list" where
  "remove_ticket t q =
     (let c = m_type_counters q ! m_type t - 1
      in q\<lparr>m_list := filter (\<lambda>u. tk_id u \<noteq> tk_id t) (m_list q),
           m_type_counters := (m_type_counters q)[m_type t := c],
           m_bitmap := (if c = 0 then m_bitmap q AND NOT (MDL_BIT (m_type t)) else m_bitmap q)\<rparr>)"

definition is_empty :: "MDL_lock \<Rightarrow> bool" where
  "is_empty l \<longleftrightarrow> m_list (m_granted l) = [] \<and> m_list (m_waiting l) = []"

definition is_incompatible_when_granted :: "MDL_lock_strategy \<Rightarrow> MDL_ticket \<Rightarrow> enum_mdl_type \<Rightarrow> bool" where
  "is_incompatible_when_granted s t ty \<longleftrightarrow>
     MDL_BIT (m_type t) AND incompatible_granted_types_bitmap s ! ty \<noteq> 0"

definition is_incompatible_when_waiting :: "MDL_lock_strategy \<Rightarrow> MDL_ticket \<Rightarrow> enum_mdl_type \<Rightarrow> bool" where
  "is_incompatible_when_waiting s t ty \<longleftrightarrow>
     MDL_BIT (m_type t) AND incompatible_waiting_types_bitmap s ! ty \<noteq> 0"

definition can_grant_lock :: "MDL_lock \<Rightarrow> enum_mdl_type \<Rightarrow> nat \<Rightarrow> bool \<Rightarrow> bool" where
  "can_grant_lock l type_arg requestor_ctx ignore_lock_priority =
     (let waiting_incompat_map = incompatible_waiting_types_bitmap (m_strategy l) ! type_arg;
          granted_incompat_map = incompatible_granted_types_bitmap (m_strategy l) ! type_arg
      in if \<not> ignore_lock_priority \<and> m_bitmap (m_waiting l) AND waiting_incompat_map \<noteq> 0 then False
         else if m_bitmap (m_granted l) AND granted_incompat_map \<noteq> 0
         then \<not> list_ex (\<lambda>t. m_ctx t \<noteq> requestor_ctx \<and>
                            is_incompatible_when_granted (m_strategy l) t type_arg)
                        (m_list (m_granted l))
         else True)"

definition has_pending_conflicting_lock :: "MDL_lock \<Rightarrow> enum_mdl_type \<Rightarrow> bool" where
  "has_pending_conflicting_lock l ty \<longleftrightarrow>
     m_bitmap (m_waiting l) AND incompatible_granted_types_bitmap (m_strategy l) ! ty \<noteq> 0"

text \<open>\<open>MDL_wait::set_status\<close>: the result is whether the slot was occupied.\<close>

definition set_status :: "nat \<Rightarrow> enum_wait_status \<Rightarrow> wait_slots \<Rightarrow> bool \<times> wait_slots" where
  "set_status c status_arg ws =
     (if ws c = EMPTY then (False, ws(c := status_arg)) else (True, ws))"

definition reset_status :: "nat \<Rightarrow> wait_slots \<Rightarrow> wait_slots" where
  "reset_status c ws = ws(c := EMPTY)"

text \<open>
  The loop of \<open>reschedule_waiters\<close> walks the waiting list from its head and unlinks no
  ticket but the current one, so it visits the tickets of the list at its start in order.
\<close>

definition grant_waiting :: "mdl_bitmap \<Rightarrow> MDL_ticket \<Rightarrow> MDL_lock \<Rightarrow> MDL_lock" where
  "grant_waiting hog t l =
     l\<lparr>m_waiting := remove_ticket t (m_waiting l),
       m_granted := add_ticket t (m_granted l),
       m_hog_lock_count :=
         (if MDL_BIT (m_type t) AND hog \<noteq> 0 then m_hog_lock_count l + 1 else m_hog_lock_count l)\<rparr>"

fun reschedule_loop ::
  "mdl_bitmap \<Rightarrow> bool \<Rightarrow> MDL_ticket list \<Rightarrow> MDL_lock \<Rightarrow> wait_slots \<Rightarrow> MDL_lock \<times> wait_slots" where
  "reschedule_loop hog skip [] l ws = (l, ws)"
| "reschedule_loop hog skip (t # ts) l ws =
     (if skip \<and> MDL_BIT (m_type t) AND hog \<noteq> 0 then reschedule_loop hog skip ts l ws
      else if can_grant_lock l (m_type t) (m_ctx t) skip then
        (case set_status (m_ctx t) GRANTED ws of
           (True, ws') \<Rightarrow> reschedule_loop hog skip ts l ws'
         | (False, ws') \<Rightarrow> reschedule_loop hog skip ts (grant_waiting hog t l) ws')
      else reschedule_loop hog skip ts l ws)"

definition skip_high_priority :: "ulonglong \<Rightarrow> MDL_lock \<Rightarrow> bool" where
  "skip_high_priority max_write_lock_count l \<longleftrightarrow>
     m_hog_lock_count l \<ge> max_write_lock_count \<and>
     m_bitmap (m_waiting l) AND NOT (hog_lock_types_bitmap (m_strategy l)) \<noteq> 0"

definition reschedule_waiters :: "ulonglong \<Rightarrow> MDL_lock \<Rightarrow> wait_slots \<Rightarrow> MDL_lock \<times> wait_slots" where
  "reschedule_waiters max_write_lock_count l ws =
     (let hog = hog_lock_types_bitmap (m_strategy l);
          (l', ws') = reschedule_loop hog (skip_high_priority max_write_lock_count l)
                        (m_list (m_waiting l)) l ws
      in (if m_bitmap (m_waiting l') AND NOT hog = 0 then l'\<lparr>m_hog_lock_count := 0\<rparr> else l', ws'))"

text \<open>\<open>MDL_ticket::downgrade_lock\<close> for a ticket \<open>t\<close> of the granted list.\<close>

definition downgrade_lock ::
  "ulonglong \<Rightarrow> MDL_ticket \<Rightarrow> enum_mdl_type \<Rightarrow> MDL_lock \<Rightarrow> wait_slots \<Rightarrow> MDL_lock \<times> wait_slots" where
  "downgrade_lock max_write_lock_count t ty l ws =
     (if m_type t = ty \<or> \<not> has_stronger_or_equal_type (m_strategy l) (m_type t) ty then (l, ws)
      else reschedule_waiters max_write_lock_count
             (l\<lparr>m_granted := add_ticket (t\<lparr>m_type := ty\<rparr>) (remove_ticket t (m_granted l))\<rparr>) ws)"

section \<open>Well-formed queues\<close>

definition queue_ok :: "nat \<Rightarrow> Ticket_list \<Rightarrow> bool" where
  "queue_ok n q \<longleftrightarrow>
     n \<le> MDL_BACKUP_END \<and> length (m_type_counters q) = MDL_BACKUP_END \<and>
     length (m_list q) < 2 ^ 32 \<and> distinct (map tk_id (m_list q)) \<and>
     (\<forall>t\<in>set (m_list q). m_type t < n) \<and>
     (\<forall>ty<MDL_BACKUP_END. m_type_counters q ! ty = of_nat (count_list (map m_type (m_list q)) ty)) \<and>
     (\<forall>i. bit (m_bitmap q) i \<longleftrightarrow> (\<exists>t\<in>set (m_list q). m_type t = i))"

definition lock_ok :: "MDL_lock \<Rightarrow> bool" where
  "lock_ok l \<longleftrightarrow>
     queue_ok (num_types (m_strategy l)) (m_granted l) \<and>
     queue_ok (num_types (m_strategy l)) (m_waiting l) \<and>
     tk_id ` set (m_list (m_granted l)) \<inter> tk_id ` set (m_list (m_waiting l)) = {} \<and>
     length (m_list (m_granted l)) + length (m_list (m_waiting l)) < 2 ^ 32"

lemma queue_ok_empty [simp]: "n \<le> MDL_BACKUP_END \<Longrightarrow> queue_ok n empty_Ticket_list"
  by (simp add: queue_ok_def empty_Ticket_list_def)

lemma queue_ok_add:
  assumes q: "queue_ok n q" and t: "m_type t < n" "tk_id t \<notin> tk_id ` set (m_list q)"
    and small: "length (m_list q) + 1 < 2 ^ 32"
  shows "queue_ok n (add_ticket t q)"
  using assms
  by (auto simp: queue_ok_def add_ticket_def nth_list_update bit_or_iff)

lemma count_map_unlink:
  assumes "distinct (map tk_id ts)" "t \<in> set ts"
  shows "count_list (map m_type (filter (\<lambda>u. tk_id u \<noteq> tk_id t) ts)) ty =
         count_list (map m_type ts) ty - (if ty = m_type t then 1 else 0)"
  using assms
proof (induction ts)
  case Nil
  then show ?case by simp
next
  case (Cons u ts)
  show ?case
  proof (cases "u = t")
    case True
    with Cons.prems have "\<forall>v\<in>set ts. tk_id v \<noteq> tk_id t" by (auto simp: rev_image_eqI)
    then have "filter (\<lambda>v. tk_id v \<noteq> tk_id t) ts = ts" by simp
    with True show ?thesis by simp
  next
    case False
    with Cons.prems have t: "t \<in> set ts" "tk_id u \<noteq> tk_id t" by auto
    then have "count_list (map m_type ts) (m_type t) \<noteq> 0" by (auto simp: count_list_0_iff)
    with t Cons show ?thesis by auto
  qed
qed

lemma queue_ok_remove:
  assumes q: "queue_ok n q" and t: "t \<in> set (m_list q)"
  shows "queue_ok n (remove_ticket t q)"
proof -
  let ?c = "count_list (map m_type (m_list q))"
  let ?ts = "filter (\<lambda>u. tk_id u \<noteq> tk_id t) (m_list q)"
  have n: "m_type t < n" "m_type t < 14" and d: "distinct (map tk_id (m_list q))"
    and ctr: "m_type_counters q ! m_type t = of_nat (?c (m_type t))"
    using q t by (auto simp: queue_ok_def)
  have pos: "?c (m_type t) > 0" using t by (auto simp: count_list_0_iff simp flip: neq0_conv)
  have "?c (m_type t) \<le> length (m_list q)" by (metis count_le_length length_map)
  moreover have "length (m_list q) < 2 ^ 32" using q by (simp add: queue_ok_def)
  ultimately have small: "?c (m_type t) - 1 < 2 ^ LENGTH(32)" by simp
  have dec: "m_type_counters q ! m_type t - 1 = of_nat (?c (m_type t) - 1)"
    using ctr pos by (simp add: of_nat_diff)
  have left: "m_type_counters q ! m_type t - 1 = 0 \<longleftrightarrow> (\<forall>u\<in>set ?ts. m_type u \<noteq> m_type t)"
  proof -
    have "m_type_counters q ! m_type t - 1 = 0 \<longleftrightarrow> count_list (map m_type ?ts) (m_type t) = 0"
      using dec of_nat_eq_0_iff_small [OF small] count_map_unlink [OF d t, of "m_type t"] by simp
    then show ?thesis by (auto simp: count_list_0_iff image_iff)
  qed
  have bits: "bit (m_bitmap (remove_ticket t q)) i \<longleftrightarrow> (\<exists>u\<in>set ?ts. m_type u = i)" for i
  proof (cases "i = m_type t")
    case True
    have "bit (m_bitmap q) i" using q t True by (auto simp: queue_ok_def)
    with True left n show ?thesis
      by (auto simp: remove_ticket_def Let_def bit_and_iff bit_not_iff)
  next
    case False
    have "bit (m_bitmap (remove_ticket t q)) i \<longleftrightarrow> bit (m_bitmap q) i"
      using False bit_imp_le_length [of "m_bitmap q" i]
      by (auto simp: remove_ticket_def Let_def bit_and_iff bit_not_iff)
    also have "\<dots> \<longleftrightarrow> (\<exists>u\<in>set (m_list q). m_type u = i)" using q by (simp add: queue_ok_def)
    also have "\<dots> \<longleftrightarrow> (\<exists>u\<in>set ?ts. m_type u = i)"
    proof -
      have "tk_id u \<noteq> tk_id t" if "u \<in> set (m_list q)" "m_type u = i" for u
        using that False t d by (metis distinct_map inj_onD)
      then show ?thesis by auto
    qed
    finally show ?thesis .
  qed
  have ctrs: "m_type_counters (remove_ticket t q) ! ty = of_nat (count_list (map m_type ?ts) ty)"
    if "ty < 14" for ty
    using q that n dec count_map_unlink [OF d t, of ty]
    by (auto simp: remove_ticket_def Let_def nth_list_update queue_ok_def)
  have "length ?ts < 2 ^ 32" using q length_filter_le [of _ "m_list q"]
    by (meson le_less_trans queue_ok_def)
  moreover have "distinct (map tk_id ?ts)" using d by (simp add: distinct_map_filter)
  moreover have "m_list (remove_ticket t q) = ?ts" by (simp add: remove_ticket_def Let_def)
  ultimately show ?thesis using q bits ctrs
    by (auto simp: queue_ok_def remove_ticket_def Let_def)
qed

section \<open>The grant test\<close>

lemma queue_ok_bit: "queue_ok n q \<Longrightarrow> bit (m_bitmap q) i \<longleftrightarrow> (\<exists>t\<in>set (m_list q). m_type t = i)"
  by (simp add: queue_ok_def)

lemma queue_ok_type: "queue_ok n q \<Longrightarrow> t \<in> set (m_list q) \<Longrightarrow> m_type t < n \<and> m_type t < 16"
  by (auto simp: queue_ok_def)

lemma is_incompatible_simps:
  "is_incompatible_when_granted s t ty \<longleftrightarrow> incompat_granted s ty (m_type t)"
  "is_incompatible_when_waiting s t ty \<longleftrightarrow> incompat_waiting s ty (m_type t)"
  by (simp_all add: is_incompatible_when_granted_def is_incompatible_when_waiting_def
      incompat_granted_def incompat_waiting_def)

lemma queue_bitmap_granted:
  assumes "queue_ok n q"
  shows "m_bitmap q AND incompatible_granted_types_bitmap s ! ty \<noteq> 0 \<longleftrightarrow>
         (\<exists>t\<in>set (m_list q). incompat_granted s ty (m_type t))"
  using queue_ok_bit [OF assms] queue_ok_type [OF assms]
  by (auto simp: word_and_eq_0_iff incompat_granted_bit)

lemma queue_bitmap_waiting:
  assumes "queue_ok n q"
  shows "m_bitmap q AND incompatible_waiting_types_bitmap s ! ty \<noteq> 0 \<longleftrightarrow>
         (\<exists>t\<in>set (m_list q). incompat_waiting s ty (m_type t))"
  using queue_ok_bit [OF assms] queue_ok_type [OF assms]
  by (auto simp: word_and_eq_0_iff incompat_waiting_bit)

text \<open>What the grant test means, without bitmaps: the comment above the C function.\<close>

definition grantable :: "MDL_lock \<Rightarrow> enum_mdl_type \<Rightarrow> nat \<Rightarrow> bool \<Rightarrow> bool" where
  "grantable l ty c ignore_priority \<longleftrightarrow>
     (ignore_priority \<or> (\<forall>w\<in>set (m_list (m_waiting l)). \<not> incompat_waiting (m_strategy l) ty (m_type w))) \<and>
     (\<forall>g\<in>set (m_list (m_granted l)). m_ctx g = c \<or> \<not> incompat_granted (m_strategy l) ty (m_type g))"

lemma can_grant_lock_grantable:
  assumes "lock_ok l"
  shows "can_grant_lock l ty c ig = grantable l ty c ig"
proof -
  have g: "queue_ok (num_types (m_strategy l)) (m_granted l)"
    and w: "queue_ok (num_types (m_strategy l)) (m_waiting l)"
    using assms by (auto simp: lock_ok_def)
  show ?thesis
    unfolding can_grant_lock_def grantable_def Let_def
      queue_bitmap_granted [OF g] queue_bitmap_waiting [OF w]
    by (auto simp: list_ex_iff is_incompatible_simps)
qed

section \<open>Granting a waiting ticket\<close>

lemma grant_waiting_simps [simp]:
  "m_strategy (grant_waiting hog t l) = m_strategy l"
  "m_list (m_granted (grant_waiting hog t l)) = m_list (m_granted l) @ [t]"
  "m_list (m_waiting (grant_waiting hog t l)) = filter (\<lambda>u. tk_id u \<noteq> tk_id t) (m_list (m_waiting l))"
  by (simp_all add: grant_waiting_def add_ticket_def remove_ticket_def Let_def)

lemma length_unlink:
  assumes "distinct (map tk_id ts)" "t \<in> set ts"
  shows "Suc (length (filter (\<lambda>u. tk_id u \<noteq> tk_id t) ts)) = length ts"
  using distinct_map_filter_eq [OF assms] assms
  by (metis One_nat_def Suc_pred length_pos_if_in_set length_remove1)

lemma lock_ok_grant_waiting:
  assumes l: "lock_ok l" and t: "t \<in> set (m_list (m_waiting l))"
  shows "lock_ok (grant_waiting hog t l)"
proof -
  have d: "distinct (map tk_id (m_list (m_waiting l)))" using l by (simp add: lock_ok_def queue_ok_def)
  have "length (m_list (m_granted l)) + 1 < 2 ^ 32"
    using l length_pos_if_in_set [OF t] unfolding lock_ok_def by linarith
  then have "queue_ok (num_types (m_strategy l)) (add_ticket t (m_granted l))"
    using l t by (intro queue_ok_add) (auto simp: lock_ok_def queue_ok_def)
  moreover have "queue_ok (num_types (m_strategy l)) (remove_ticket t (m_waiting l))"
    using l t by (intro queue_ok_remove) (auto simp: lock_ok_def)
  ultimately show ?thesis
    using l t length_unlink [OF d t]
    by (auto simp: lock_ok_def grant_waiting_def add_ticket_def remove_ticket_def Let_def)
qed

text \<open>
  The effect of the loop, in one statement: it grants a subsequence \<open>gs\<close> of the tickets it
  visits, in their order, and each granted context had an empty wait slot.
\<close>

lemma reschedule_loop_effect:
  assumes "reschedule_loop hog skip ts l ws = (l', ws')"
    and "lock_ok l" "set ts \<subseteq> set (m_list (m_waiting l))" "distinct (map tk_id ts)"
    and "distinct (map m_ctx (m_list (m_waiting l)))"
  shows "\<exists>gs. subseq gs ts \<and> lock_ok l' \<and> m_strategy l' = m_strategy l \<and>
           m_list (m_granted l') = m_list (m_granted l) @ gs \<and>
           m_list (m_waiting l') = filter (\<lambda>u. tk_id u \<notin> tk_id ` set gs) (m_list (m_waiting l)) \<and>
           ws' = (\<lambda>c. if c \<in> m_ctx ` set gs then GRANTED else ws c) \<and>
           (\<forall>g\<in>set gs. ws (m_ctx g) = EMPTY)"
  using assms
proof (induction ts arbitrary: l ws)
  case Nil
  then show ?case by (intro exI [of _ "[]"]) (auto simp: filter_id_conv)
next
  case (Cons t ts)
  show ?case
  proof (cases "\<not> (skip \<and> MDL_BIT (m_type t) AND hog \<noteq> 0) \<and> can_grant_lock l (m_type t) (m_ctx t) skip
                \<and> ws (m_ctx t) = EMPTY")
    case True
    let ?l1 = "grant_waiting hog t l" and ?ws1 = "ws(m_ctx t := GRANTED)"
    have eq: "reschedule_loop hog skip ts ?l1 ?ws1 = (l', ws')"
      using True Cons.prems(1) by (simp add: set_status_def split: if_splits)
    have t: "t \<in> set (m_list (m_waiting l))" using Cons.prems by simp
    have ok: "lock_ok ?l1" using Cons.prems(2) t by (rule lock_ok_grant_waiting)
    have sub: "set ts \<subseteq> set (m_list (m_waiting ?l1))" using Cons.prems(3,4) by (auto simp: image_iff)
    have dc: "distinct (map m_ctx (m_list (m_waiting ?l1)))"
      using Cons.prems(5) by (simp add: distinct_map_filter)
    obtain gs where gs: "subseq gs ts" "lock_ok l'" "m_strategy l' = m_strategy l"
      "m_list (m_granted l') = m_list (m_granted l) @ t # gs"
      "m_list (m_waiting l') = filter (\<lambda>u. tk_id u \<notin> tk_id ` set gs)
         (filter (\<lambda>u. tk_id u \<noteq> tk_id t) (m_list (m_waiting l)))"
      "ws' = (\<lambda>c. if c \<in> m_ctx ` set gs then GRANTED else ?ws1 c)"
      "\<forall>g\<in>set gs. ?ws1 (m_ctx g) = EMPTY"
      using Cons.IH [OF eq ok sub _ dc] Cons.prems(4) by auto
    have "\<forall>g\<in>set gs. ws (m_ctx g) = EMPTY" using gs(7) by (auto split: if_splits)
    with gs True show ?thesis
      by (intro exI [of _ "t # gs"]) (auto simp: fun_eq_iff filter_filter intro!: filter_cong)
  next
    case False
    then have eq: "reschedule_loop hog skip ts l ws = (l', ws')"
      using Cons.prems(1) by (auto simp: set_status_def split: if_splits)
    from Cons.IH [OF eq] Cons.prems obtain gs where
      "subseq gs ts \<and> lock_ok l' \<and> m_strategy l' = m_strategy l \<and>
           m_list (m_granted l') = m_list (m_granted l) @ gs \<and>
           m_list (m_waiting l') = filter (\<lambda>u. tk_id u \<notin> tk_id ` set gs) (m_list (m_waiting l)) \<and>
           ws' = (\<lambda>c. if c \<in> m_ctx ` set gs then GRANTED else ws c) \<and>
           (\<forall>g\<in>set gs. ws (m_ctx g) = EMPTY)" by auto
    then show ?thesis by (intro exI [of _ gs]) auto
  qed
qed

section \<open>Priorities and conflicts\<close>

text \<open>
  What the scheduler needs of a pair of compatibility matrices: a pending lock only outranks
  requests that it would exclude once granted, and no type outranks itself. The comment in
  \<open>reschedule_waiters\<close> that one pass over the waiters is enough rests on the first law, and
  that a lone waiter can be granted at all on the second.
\<close>

locale mdl_strategy =
  fixes s :: MDL_lock_strategy
  assumes waiting_within_granted:
      "req < num_types s \<Longrightarrow> held < num_types s \<Longrightarrow> incompat_waiting s req held \<Longrightarrow> incompat_granted s req held"
    and waiting_irrefl: "req < num_types s \<Longrightarrow> \<not> incompat_waiting s req req"
begin

lemma stays_blocked_grant:
  assumes l: "lock_ok l" "m_strategy l = s" and c: "distinct (map m_ctx (m_list (m_waiting l)))"
    and t: "t \<in> set (m_list (m_waiting l))" and u: "u \<in> set (m_list (m_waiting l))" "tk_id u \<noteq> tk_id t"
    and b: "\<not> can_grant_lock l (m_type t) (m_ctx t) ig"
  shows "\<not> can_grant_lock (grant_waiting hog u l) (m_type t) (m_ctx t) ig"
proof -
  have ty: "m_type t < num_types s" "m_type u < num_types s"
    using l t u queue_ok_type by (auto simp: lock_ok_def)
  have cu: "m_ctx u \<noteq> m_ctx t" using c t u by (metis distinct_map inj_onD)
  from b l have "\<not> grantable l (m_type t) (m_ctx t) ig" by (simp add: can_grant_lock_grantable)
  then consider (granted) g where "g \<in> set (m_list (m_granted l))" "m_ctx g \<noteq> m_ctx t"
      "incompat_granted s (m_type t) (m_type g)"
    | (waiting) w where "\<not> ig" "w \<in> set (m_list (m_waiting l))" "incompat_waiting s (m_type t) (m_type w)"
    using l(2) by (auto simp: grantable_def)
  then have "\<not> grantable (grant_waiting hog u l) (m_type t) (m_ctx t) ig"
  proof cases
    case granted
    then show ?thesis using l(2) by (auto simp: grantable_def)
  next
    case waiting
    show ?thesis
    proof (cases "tk_id w = tk_id u")
      case True
      then have "w = u" using waiting u l by (auto simp: lock_ok_def queue_ok_def distinct_map dest: inj_onD)
      with waiting ty waiting_within_granted have "incompat_granted s (m_type t) (m_type u)" by blast
      with cu l(2) show ?thesis by (auto simp: grantable_def)
    next
      case False
      with waiting l(2) show ?thesis by (auto simp: grantable_def)
    qed
  qed
  with l u show ?thesis by (simp add: can_grant_lock_grantable lock_ok_grant_waiting)
qed

lemma stays_blocked:
  assumes "reschedule_loop hog skip ts l ws = (l', ws')"
    and "lock_ok l" "m_strategy l = s" "set ts \<subseteq> set (m_list (m_waiting l))" "distinct (map tk_id ts)"
    and "distinct (map m_ctx (m_list (m_waiting l)))"
    and "t \<in> set (m_list (m_waiting l))" "t \<in> set (m_list (m_waiting l'))"
    and "\<not> can_grant_lock l (m_type t) (m_ctx t) skip"
  shows "\<not> can_grant_lock l' (m_type t) (m_ctx t) skip"
  using assms
proof (induction ts arbitrary: l ws)
  case Nil
  then show ?case by simp
next
  case (Cons u ts)
  show ?case
  proof (cases "\<not> (skip \<and> MDL_BIT (m_type u) AND hog \<noteq> 0) \<and> can_grant_lock l (m_type u) (m_ctx u) skip
                \<and> ws (m_ctx u) = EMPTY")
    case False
    then have "reschedule_loop hog skip ts l ws = (l', ws')"
      using Cons.prems(1) by (auto simp: set_status_def split: if_splits)
    from Cons.IH [OF this] Cons.prems show ?thesis by simp
  next
    case True
    let ?l1 = "grant_waiting hog u l" and ?ws1 = "ws(m_ctx u := GRANTED)"
    have eq: "reschedule_loop hog skip ts ?l1 ?ws1 = (l', ws')"
      using True Cons.prems(1) by (simp add: set_status_def split: if_splits)
    have u: "u \<in> set (m_list (m_waiting l))" using Cons.prems by simp
    have ok: "lock_ok ?l1" using Cons.prems(2) u by (rule lock_ok_grant_waiting)
    have sub: "set ts \<subseteq> set (m_list (m_waiting ?l1))" using Cons.prems(4,5) by (auto simp: image_iff)
    have dc: "distinct (map m_ctx (m_list (m_waiting ?l1)))"
      using Cons.prems(6) by (simp add: distinct_map_filter)
    have dts: "distinct (map tk_id ts)" using Cons.prems(5) by simp
    have "t \<in> set (m_list (m_waiting ?l1))"
      using reschedule_loop_effect [OF eq ok sub dts dc] Cons.prems(8) by auto
    moreover from this have "tk_id u \<noteq> tk_id t" by auto
    moreover from this have "\<not> can_grant_lock ?l1 (m_type t) (m_ctx t) skip"
      using stays_blocked_grant Cons.prems u by simp
    ultimately show ?thesis
      using Cons.IH [OF eq ok _ sub dts dc] Cons.prems by simp
  qed
qed

lemma loop_leaves_only_blocked:
  assumes "reschedule_loop hog skip ts l ws = (l', ws')"
    and "lock_ok l" "m_strategy l = s" "set ts \<subseteq> set (m_list (m_waiting l))" "distinct (map tk_id ts)"
    and "distinct (map m_ctx (m_list (m_waiting l)))"
    and "t \<in> set ts" "t \<in> set (m_list (m_waiting l'))" "ws' (m_ctx t) = EMPTY"
    and "\<not> (skip \<and> MDL_BIT (m_type t) AND hog \<noteq> 0)"
  shows "\<not> can_grant_lock l' (m_type t) (m_ctx t) skip"
  using assms
proof (induction ts arbitrary: l ws)
  case Nil
  then show ?case by simp
next
  case (Cons u ts)
  have dts: "distinct (map tk_id ts)" using Cons.prems(5) by simp
  show ?case
  proof (cases "\<not> (skip \<and> MDL_BIT (m_type u) AND hog \<noteq> 0) \<and> can_grant_lock l (m_type u) (m_ctx u) skip
                \<and> ws (m_ctx u) = EMPTY")
    case False
    then have eq: "reschedule_loop hog skip ts l ws = (l', ws')"
      using Cons.prems(1) by (auto simp: set_status_def split: if_splits)
    have sub: "set ts \<subseteq> set (m_list (m_waiting l))" using Cons.prems(4) by simp
    show ?thesis
    proof (cases "t \<in> set ts")
      case True
      then show ?thesis using Cons.IH [OF eq Cons.prems(2,3) sub dts Cons.prems(6)] Cons.prems by simp
    next
      case False2: False
      with Cons.prems have tu: "t = u" by simp
      have "ws (m_ctx u) = EMPTY"
        using reschedule_loop_effect [OF eq Cons.prems(2) sub dts Cons.prems(6)] Cons.prems(9) tu
        by (auto split: if_splits)
      with False tu Cons.prems(10) have "\<not> can_grant_lock l (m_type t) (m_ctx t) skip" by auto
      then show ?thesis
        using stays_blocked [OF eq Cons.prems(2,3) sub dts Cons.prems(6)] Cons.prems(4,8) tu by simp
    qed
  next
    case True
    let ?l1 = "grant_waiting hog u l" and ?ws1 = "ws(m_ctx u := GRANTED)"
    have eq: "reschedule_loop hog skip ts ?l1 ?ws1 = (l', ws')"
      using True Cons.prems(1) by (simp add: set_status_def split: if_splits)
    have u: "u \<in> set (m_list (m_waiting l))" using Cons.prems by simp
    have ok: "lock_ok ?l1" using Cons.prems(2) u by (rule lock_ok_grant_waiting)
    have sub: "set ts \<subseteq> set (m_list (m_waiting ?l1))" using Cons.prems(4,5) by (auto simp: image_iff)
    have dc: "distinct (map m_ctx (m_list (m_waiting ?l1)))"
      using Cons.prems(6) by (simp add: distinct_map_filter)
    have "t \<noteq> u" using reschedule_loop_effect [OF eq ok sub dts dc] Cons.prems(8) by auto
    then show ?thesis
      using Cons.IH [OF eq ok _ sub dts dc] Cons.prems by simp
  qed
qed

end

interpretation scoped: mdl_strategy MDL_scoped_lock
  by unfold_locales
    (auto simp: incompat_granted_bit incompat_waiting_bit scoped_waiting_within_granted waiting_irreflexive)

interpretation object: mdl_strategy MDL_object_lock
  by unfold_locales
    (auto simp: incompat_granted_bit incompat_waiting_bit object_waiting_within_granted waiting_irreflexive)

interpretation backup: mdl_strategy MDL_backup_lock
  by unfold_locales
    (auto simp: incompat_granted_bit incompat_waiting_bit backup_waiting_within_granted waiting_irreflexive)

lemma mdl_strategy_all: "mdl_strategy s"
  by (cases s) (use scoped.mdl_strategy_axioms object.mdl_strategy_axioms
      backup.mdl_strategy_axioms in simp_all)

section \<open>The granted set\<close>

text \<open>
  Two granted tickets of different contexts never exclude each other both ways. For the
  symmetric matrices (every namespace but \<open>BACKUP\<close>) this is full compatibility.
\<close>

definition coexist :: "MDL_lock_strategy \<Rightarrow> enum_mdl_type \<Rightarrow> enum_mdl_type \<Rightarrow> bool" where
  "coexist s a b \<longleftrightarrow> \<not> incompat_granted s a b \<or> \<not> incompat_granted s b a"

definition granted_compatible :: "MDL_lock \<Rightarrow> bool" where
  "granted_compatible l \<longleftrightarrow>
     (\<forall>a\<in>set (m_list (m_granted l)). \<forall>b\<in>set (m_list (m_granted l)).
        m_ctx a \<noteq> m_ctx b \<longrightarrow> coexist (m_strategy l) (m_type a) (m_type b))"

lemma coexist_sym: "coexist s a b \<longleftrightarrow> coexist s b a"
  by (auto simp: coexist_def)

lemma coexist_iff:
  assumes "s \<noteq> MDL_backup_lock" "a < num_types s" "b < num_types s"
  shows "coexist s a b \<longleftrightarrow> \<not> incompat_granted s a b"
  using incompat_granted_sym [OF assms] by (auto simp: coexist_def)

lemma granted_compatible_add:
  assumes "granted_compatible l" and "grantable l (m_type t) (m_ctx t) ig"
    and "m_strategy l' = m_strategy l" "set (m_list (m_granted l')) = insert t (set (m_list (m_granted l)))"
  shows "granted_compatible l'"
  using assms by (auto simp: granted_compatible_def grantable_def coexist_def)

lemma granted_compatible_mono:
  assumes "granted_compatible l" "m_strategy l' = m_strategy l"
    "set (m_list (m_granted l')) \<subseteq> set (m_list (m_granted l))"
  shows "granted_compatible l'"
  using assms by (auto simp: granted_compatible_def)

lemma reschedule_loop_compatible:
  assumes "reschedule_loop hog skip ts l ws = (l', ws')"
    and "lock_ok l" "set ts \<subseteq> set (m_list (m_waiting l))" "distinct (map tk_id ts)"
    and "granted_compatible l"
  shows "granted_compatible l'"
  using assms
proof (induction ts arbitrary: l ws)
  case Nil
  then show ?case by simp
next
  case (Cons t ts)
  show ?case
  proof (cases "\<not> (skip \<and> MDL_BIT (m_type t) AND hog \<noteq> 0) \<and> can_grant_lock l (m_type t) (m_ctx t) skip
                \<and> ws (m_ctx t) = EMPTY")
    case False
    then have "reschedule_loop hog skip ts l ws = (l', ws')"
      using Cons.prems(1) by (auto simp: set_status_def split: if_splits)
    from Cons.IH [OF this] Cons.prems show ?thesis by simp
  next
    case True
    let ?l1 = "grant_waiting hog t l" and ?ws1 = "ws(m_ctx t := GRANTED)"
    have eq: "reschedule_loop hog skip ts ?l1 ?ws1 = (l', ws')"
      using True Cons.prems(1) by (simp add: set_status_def split: if_splits)
    have t: "t \<in> set (m_list (m_waiting l))" using Cons.prems by simp
    have ok: "lock_ok ?l1" using Cons.prems(2) t by (rule lock_ok_grant_waiting)
    have sub: "set ts \<subseteq> set (m_list (m_waiting ?l1))" using Cons.prems(3,4) by (auto simp: image_iff)
    have "granted_compatible ?l1"
      using Cons.prems(2,5) True by (auto simp: can_grant_lock_grantable intro: granted_compatible_add)
    with Cons.IH [OF eq ok sub] Cons.prems(4) show ?thesis by simp
  qed
qed

section \<open>Rescheduling\<close>

lemma reset_hog_simps [simp]:
  "m_strategy (l\<lparr>m_hog_lock_count := h\<rparr>) = m_strategy l"
  "lock_ok (l\<lparr>m_hog_lock_count := h\<rparr>) = lock_ok l"
  "granted_compatible (l\<lparr>m_hog_lock_count := h\<rparr>) = granted_compatible l"
  "can_grant_lock (l\<lparr>m_hog_lock_count := h\<rparr>) ty c ig = can_grant_lock l ty c ig"
  by (simp_all add: lock_ok_def granted_compatible_def can_grant_lock_def)

lemma reschedule_waiters_cases:
  assumes "reschedule_waiters mx l ws = (l', ws')"
  obtains l1 h where "reschedule_loop (hog_lock_types_bitmap (m_strategy l)) (skip_high_priority mx l)
      (m_list (m_waiting l)) l ws = (l1, ws')" "l' = l1\<lparr>m_hog_lock_count := h\<rparr>"
proof -
  let ?r = "reschedule_loop (hog_lock_types_bitmap (m_strategy l)) (skip_high_priority mx l)
      (m_list (m_waiting l)) l ws"
  obtain l1 ws1 where r: "?r = (l1, ws1)" by (cases ?r)
  then have "ws1 = ws'" "l' = l1\<lparr>m_hog_lock_count := 0\<rparr> \<or> l' = l1\<lparr>m_hog_lock_count := m_hog_lock_count l1\<rparr>"
    using assms by (simp_all add: reschedule_waiters_def split: if_splits)
  with r that show ?thesis by blast
qed

text \<open>The conditions every entry to \<open>reschedule_waiters\<close> meets.\<close>

definition lock_inv :: "MDL_lock \<Rightarrow> bool" where
  "lock_inv l \<longleftrightarrow> lock_ok l \<and> distinct (map m_ctx (m_list (m_waiting l)))"

lemma lock_inv_waiting: "lock_inv l \<Longrightarrow> distinct (map tk_id (m_list (m_waiting l)))"
  by (simp add: lock_inv_def lock_ok_def queue_ok_def)

lemma reschedule_waiters_effect:
  assumes "reschedule_waiters mx l ws = (l', ws')" "lock_inv l"
  shows "\<exists>gs. subseq gs (m_list (m_waiting l)) \<and> lock_inv l' \<and> m_strategy l' = m_strategy l \<and>
           m_list (m_granted l') = m_list (m_granted l) @ gs \<and>
           m_list (m_waiting l') = filter (\<lambda>u. tk_id u \<notin> tk_id ` set gs) (m_list (m_waiting l)) \<and>
           ws' = (\<lambda>c. if c \<in> m_ctx ` set gs then GRANTED else ws c) \<and>
           (\<forall>g\<in>set gs. ws (m_ctx g) = EMPTY)"
proof -
  obtain l1 h where eq: "reschedule_loop (hog_lock_types_bitmap (m_strategy l)) (skip_high_priority mx l)
      (m_list (m_waiting l)) l ws = (l1, ws')" and l': "l' = l1\<lparr>m_hog_lock_count := h\<rparr>"
    using assms(1) by (rule reschedule_waiters_cases)
  have ok: "lock_ok l" "distinct (map m_ctx (m_list (m_waiting l)))"
    using assms(2) by (simp_all add: lock_inv_def)
  from reschedule_loop_effect [OF eq ok(1) subset_refl lock_inv_waiting [OF assms(2)] ok(2)]
  obtain gs where gs: "subseq gs (m_list (m_waiting l))" "lock_ok l1"
    "m_strategy l1 = m_strategy l" "m_list (m_granted l1) = m_list (m_granted l) @ gs"
    "m_list (m_waiting l1) = filter (\<lambda>u. tk_id u \<notin> tk_id ` set gs) (m_list (m_waiting l))"
    "ws' = (\<lambda>c. if c \<in> m_ctx ` set gs then GRANTED else ws c)"
    "\<forall>g\<in>set gs. ws (m_ctx g) = EMPTY" by blast
  have "distinct (map m_ctx (m_list (m_waiting l1)))"
    unfolding gs(5) using ok(2) by (rule distinct_map_filter)
  with gs show ?thesis by (intro exI [of _ gs]) (simp add: lock_inv_def l')
qed

lemma reschedule_waiters_compatible:
  assumes "reschedule_waiters mx l ws = (l', ws')" "lock_inv l" "granted_compatible l"
  shows "granted_compatible l'"
proof -
  obtain l1 h where eq: "reschedule_loop (hog_lock_types_bitmap (m_strategy l)) (skip_high_priority mx l)
      (m_list (m_waiting l)) l ws = (l1, ws')" and l': "l' = l1\<lparr>m_hog_lock_count := h\<rparr>"
    using assms(1) by (rule reschedule_waiters_cases)
  have "lock_ok l" using assms(2) by (simp add: lock_inv_def)
  from reschedule_loop_compatible [OF eq this subset_refl lock_inv_waiting [OF assms(2)] assms(3)]
  show ?thesis by (simp add: l')
qed

lemma reschedule_waiters_blocked:
  assumes "reschedule_waiters mx l ws = (l', ws')" "lock_inv l"
    and "t \<in> set (m_list (m_waiting l'))" "ws' (m_ctx t) = EMPTY"
    and "\<not> (skip_high_priority mx l \<and> MDL_BIT (m_type t) AND hog_lock_types_bitmap (m_strategy l) \<noteq> 0)"
  shows "\<not> can_grant_lock l' (m_type t) (m_ctx t) (skip_high_priority mx l)"
proof -
  obtain l1 h where eq: "reschedule_loop (hog_lock_types_bitmap (m_strategy l)) (skip_high_priority mx l)
      (m_list (m_waiting l)) l ws = (l1, ws')" and l': "l' = l1\<lparr>m_hog_lock_count := h\<rparr>"
    using assms(1) by (rule reschedule_waiters_cases)
  have ok: "lock_ok l" "distinct (map m_ctx (m_list (m_waiting l)))"
    using assms(2) by (simp_all add: lock_inv_def)
  have "t \<in> set (m_list (m_waiting l))"
    using reschedule_waiters_effect [OF assms(1,2)] assms(3) by auto
  with mdl_strategy.loop_leaves_only_blocked [OF mdl_strategy_all eq ok(1) refl subset_refl
      lock_inv_waiting [OF assms(2)] ok(2)] assms(3-5)
  show ?thesis by (simp add: l')
qed

end
