(* ===== verification/MDL_Key.thy ===== *)
theory MDL_Key
  imports MDL_Types
begin

text \<open>
  Metadata lock keys (\<open>struct MDL_key\<close> of \<open>src/sql/mdl.h\<close>): the byte string
  \<open>namespace, database, NUL, name, NUL\<close> that identifies a lock, its construction, its
  accessors and the two comparisons. The buffer is modelled by its first \<open>m_length\<close> bytes.
  The cached hash value, which the hash container computes from the same bytes, is left out.
\<close>

record MDL_key =
  m_length :: uint16
  m_db_name_length :: uint16
  m_ptr :: string

abbreviation (input) NUL :: char where "NUL \<equiv> CHR 0x00"
abbreviation (input) NAME_LEN :: nat where "NAME_LEN \<equiv> 64 * 3"

text \<open>\<open>strmake\<close>: the bytes it stores before the terminating NUL; at most \<open>n\<close> of them.\<close>

fun strmake :: "string \<Rightarrow> nat \<Rightarrow> string" where
  "strmake (c # src) (Suc n) = (if c = NUL then [] else c # strmake src n)"
| "strmake _ _ = []"

fun namespace_byte :: "enum_mdl_namespace \<Rightarrow> char" where
  "namespace_byte BACKUP = CHR 0x00"
| "namespace_byte SCHEMA = CHR 0x01"
| "namespace_byte TABLE = CHR 0x02"
| "namespace_byte FUNCTION = CHR 0x03"
| "namespace_byte PROCEDURE = CHR 0x04"
| "namespace_byte PACKAGE_BODY = CHR 0x05"
| "namespace_byte TRIGGER = CHR 0x06"
| "namespace_byte EVENT = CHR 0x07"
| "namespace_byte USER_LOCK = CHR 0x08"

definition mdl_key_init :: "enum_mdl_namespace \<Rightarrow> string \<Rightarrow> string \<Rightarrow> MDL_key" where
  "mdl_key_init mdl_namespace_arg db name_arg =
     (let d = strmake db NAME_LEN; n = strmake name_arg NAME_LEN
      in \<lparr>m_length = of_nat (length d + 2 + length n + 1),
          m_db_name_length = of_nat (length d),
          m_ptr = namespace_byte mdl_namespace_arg # d @ NUL # n @ [NUL]\<rparr>)"

fun memcmp :: "string \<Rightarrow> string \<Rightarrow> nat \<Rightarrow> int" where
  "memcmp (x # xs) (y # ys) (Suc n) =
     (if x = y then memcmp xs ys n else if (of_char x :: nat) < of_char y then -1 else 1)"
| "memcmp _ _ _ = 0"

definition is_equal :: "MDL_key \<Rightarrow> MDL_key \<Rightarrow> bool" where
  "is_equal k rhs \<longleftrightarrow> m_length k = m_length rhs \<and> memcmp (m_ptr k) (m_ptr rhs) (unat (m_length k)) = 0"

definition key_cmp :: "MDL_key \<Rightarrow> MDL_key \<Rightarrow> int" where
  "key_cmp k rhs = memcmp (m_ptr k) (m_ptr rhs) (min (unat (m_length k)) (unat (m_length rhs)))"

definition db_name :: "MDL_key \<Rightarrow> string" where
  "db_name k = take (unat (m_db_name_length k)) (drop 1 (m_ptr k))"

definition key_name :: "MDL_key \<Rightarrow> string" where
  "key_name k = take (unat (m_length k - m_db_name_length k - 3))
                 (drop (unat (m_db_name_length k) + 2) (m_ptr k))"

definition mdl_namespace :: "string \<Rightarrow> enum_mdl_namespace" where
  "mdl_namespace ptr =
     (let b = of_char (hd ptr) :: nat
      in if b = 0 then BACKUP else if b = 1 then SCHEMA else if b = 2 then TABLE
         else if b = 3 then FUNCTION else if b = 4 then PROCEDURE else if b = 5 then PACKAGE_BODY
         else if b = 6 then TRIGGER else if b = 7 then EVENT else USER_LOCK)"

section \<open>Names survive the encoding\<close>

definition name_ok :: "string \<Rightarrow> bool" where
  "name_ok s \<longleftrightarrow> NUL \<notin> set s \<and> length s \<le> NAME_LEN"

lemma strmake_id: "NUL \<notin> set s \<Longrightarrow> length s \<le> n \<Longrightarrow> strmake s n = s"
  by (induction s n rule: strmake.induct) auto

lemma strmake_name_ok [simp]: "name_ok s \<Longrightarrow> strmake s 192 = s"
  by (auto simp: name_ok_def intro: strmake_id)

lemma strmake_bounds: "NUL \<notin> set (strmake s n)" "length (strmake s n) \<le> n"
  by (induction s n rule: strmake.induct) auto

lemma name_ok_strmake: "name_ok (strmake s 192)"
  using strmake_bounds [of s 192] by (simp add: name_ok_def)

lemma mdl_namespace_byte: "mdl_namespace (namespace_byte ns # s) = ns"
  by (cases ns) (simp_all add: mdl_namespace_def)

lemma mdl_namespace_init: "mdl_namespace (m_ptr (mdl_key_init ns db nm)) = ns"
  by (simp add: mdl_key_init_def Let_def mdl_namespace_byte)

lemma namespace_byte_inj [simp]: "namespace_byte a = namespace_byte b \<longleftrightarrow> a = b"
  by (metis mdl_namespace_byte)

lemma unat_small_16: "n < 2 ^ 16 \<Longrightarrow> unat (of_nat n :: uint16) = n"
  by (simp add: unat_of_nat)

lemma key_lengths:
  assumes "name_ok db" "name_ok nm"
  shows "unat (m_length (mdl_key_init ns db nm)) = length (m_ptr (mdl_key_init ns db nm))"
    and "unat (m_db_name_length (mdl_key_init ns db nm)) = length db"
    and "unat (m_length (mdl_key_init ns db nm) - m_db_name_length (mdl_key_init ns db nm) - 3) = length nm"
proof -
  have db: "length db \<le> 192" and nm: "length nm \<le> 192" using assms by (auto simp: name_ok_def)
  then show "unat (m_length (mdl_key_init ns db nm)) = length (m_ptr (mdl_key_init ns db nm))"
    using assms by (simp add: mdl_key_init_def Let_def unat_small_16 del: of_nat_add of_nat_Suc)
  show "unat (m_db_name_length (mdl_key_init ns db nm)) = length db"
    using assms db by (simp add: mdl_key_init_def Let_def unat_small_16)
  have "m_length (mdl_key_init ns db nm) - m_db_name_length (mdl_key_init ns db nm) - 3 =
        (of_nat (length nm) :: uint16)"
    using assms by (simp add: mdl_key_init_def Let_def)
  with nm show "unat (m_length (mdl_key_init ns db nm) - m_db_name_length (mdl_key_init ns db nm) - 3) =
        length nm" by (simp add: unat_small_16)
qed

lemma key_accessors:
  assumes "name_ok db" "name_ok nm"
  shows "db_name (mdl_key_init ns db nm) = db" "key_name (mdl_key_init ns db nm) = nm"
  using assms key_lengths [OF assms, of ns]
  by (simp_all add: db_name_def key_name_def) (simp_all add: mdl_key_init_def Let_def)

section \<open>Comparisons\<close>

lemma memcmp_eq_0_take:
  "n \<le> length xs \<Longrightarrow> n \<le> length ys \<Longrightarrow> memcmp xs ys n = 0 \<longleftrightarrow> take n xs = take n ys"
  by (induction xs ys n rule: memcmp.induct) auto

lemma append_nul_prefix_free:
  assumes "NUL \<notin> set a" "NUL \<notin> set b" "a @ NUL # x = b @ NUL # y"
  shows "a = b \<and> x = y"
  using assms by (induction a arbitrary: b) (auto simp: Cons_eq_append_conv append_eq_Cons_conv)

text \<open>No key is a proper prefix of another one: each key has exactly two NULs after its first byte.\<close>

lemma key_prefix_eq:
  assumes n: "name_ok d1" "name_ok n1" "name_ok d2" "name_ok n2"
    and eq: "d1 @ NUL # n1 @ [NUL] = d2 @ NUL # n2 @ NUL # z"
  shows "d1 = d2 \<and> n1 = n2 \<and> z = []"
proof -
  have d: "d1 = d2" "n1 @ NUL # [] = n2 @ NUL # z"
    using append_nul_prefix_free [OF _ _ eq] n by (auto simp: name_ok_def)
  from append_nul_prefix_free [OF _ _ d(2)] n d(1) show ?thesis by (auto simp: name_ok_def)
qed

lemma take_eq_prefix:
  "m = length xs \<Longrightarrow> take m xs = take m ys \<Longrightarrow> ys = xs @ drop m ys"
  by (metis append_take_drop_id order_refl take_all)

lemma take_key_eq:
  assumes n: "name_ok d1" "name_ok n1" "name_ok d2" "name_ok n2"
    and m: "m = length (d1 @ NUL # n1 @ [NUL])" "m \<le> length (d2 @ NUL # n2 @ [NUL])"
    and eq: "take m (d1 @ NUL # n1 @ [NUL]) = take m (d2 @ NUL # n2 @ [NUL])"
  shows "d1 = d2 \<and> n1 = n2"
proof -
  obtain z where "d2 @ NUL # n2 @ [NUL] = (d1 @ NUL # n1 @ [NUL]) @ z"
    using take_eq_prefix [OF m(1) eq] by metis
  then have e: "d2 @ NUL # n2 @ [NUL] = d1 @ NUL # n1 @ NUL # z" by simp
  from key_prefix_eq [OF n(3,4,1,2) e] show ?thesis by simp
qed

lemma key_cmp_init_eq_0:
  assumes n: "name_ok d1" "name_ok n1" "name_ok d2" "name_ok n2"
  shows "key_cmp (mdl_key_init ns1 d1 n1) (mdl_key_init ns2 d2 n2) = 0 \<longleftrightarrow> ns1 = ns2 \<and> d1 = d2 \<and> n1 = n2"
proof -
  let ?a = "d1 @ NUL # n1 @ [NUL]" and ?b = "d2 @ NUL # n2 @ [NUL]"
  let ?m = "min (length ?a) (length ?b)"
  have "key_cmp (mdl_key_init ns1 d1 n1) (mdl_key_init ns2 d2 n2) = 0 \<longleftrightarrow>
        ns1 = ns2 \<and> take ?m ?a = take ?m ?b"
    using n key_lengths(1) [OF n(1,2), of ns1] key_lengths(1) [OF n(3,4), of ns2]
    by (simp add: key_cmp_def memcmp_eq_0_take) (simp add: mdl_key_init_def Let_def)
  also have "take ?m ?a = take ?m ?b \<longleftrightarrow> d1 = d2 \<and> n1 = n2"
  proof (cases "length ?a \<le> length ?b")
    case True
    then show ?thesis using take_key_eq [OF n, of ?m] by (auto simp del: append.simps)
  next
    case False
    then show ?thesis using take_key_eq [OF n(3,4,1,2), of ?m] by (auto simp del: append.simps)
  qed
  finally show ?thesis .
qed

lemma is_equal_init:
  assumes n: "name_ok d1" "name_ok n1" "name_ok d2" "name_ok n2"
  shows "is_equal (mdl_key_init ns1 d1 n1) (mdl_key_init ns2 d2 n2) \<longleftrightarrow> ns1 = ns2 \<and> d1 = d2 \<and> n1 = n2"
proof
  assume e: "is_equal (mdl_key_init ns1 d1 n1) (mdl_key_init ns2 d2 n2)"
  then have "key_cmp (mdl_key_init ns1 d1 n1) (mdl_key_init ns2 d2 n2) = 0"
    by (auto simp: is_equal_def key_cmp_def)
  then show "ns1 = ns2 \<and> d1 = d2 \<and> n1 = n2" using key_cmp_init_eq_0 [OF n] by simp
next
  assume "ns1 = ns2 \<and> d1 = d2 \<and> n1 = n2"
  then show "is_equal (mdl_key_init ns1 d1 n1) (mdl_key_init ns2 d2 n2)"
    using key_lengths(1) [OF n(1,2), of ns1] by (simp add: is_equal_def memcmp_eq_0_take)
qed

end
