(* ===== verification/MDL_System.thy ===== *)
theory MDL_System
  imports MDL_Lock MDL_Key
begin

text \<open>
  The metadata lock manager as a whole (\<open>class MDL_context\<close> and \<open>class MDL_map\<close> of
  \<open>src/sql/mdl.cc\<close>): the container of locks, the contexts with their ticket lists by
  duration, and the operations of a context. A ticket is referred to by its address and
  the key bytes of its lock. The call \<open>acquire_lock\<close> of a context that has to wait runs in
  several critical sections: its local variables between them are the field \<open>pending\<close>.
\<close>

section \<open>State\<close>

type_synonym ticket_ref = "nat \<times> string"

record MDL_request =
  rq_type :: enum_mdl_type
  rq_duration :: enum_mdl_duration
  rq_key :: MDL_key

record MDL_context =
  m_tickets :: "enum_mdl_duration \<Rightarrow> ticket_ref list"
  m_waiting_for :: "ticket_ref option"
  m_deadlock_overweight :: uint32
  pending :: "(ticket_ref \<times> enum_mdl_duration) option"

record mdl_state =
  mdl_locks :: "string \<Rightarrow> MDL_lock option"
  contexts :: "nat \<Rightarrow> MDL_context"
  m_wait :: wait_slots
  next_ticket :: nat

definition new_MDL_context :: MDL_context where
  "new_MDL_context =
     \<lparr>m_tickets = (\<lambda>_. []), m_waiting_for = None, m_deadlock_overweight = 0, pending = None\<rparr>"

definition backup_key :: string where
  "backup_key = m_ptr (mdl_key_init BACKUP [] [])"

definition mdl_init :: mdl_state where
  "mdl_init =
     \<lparr>mdl_locks = [backup_key \<mapsto> new_MDL_lock MDL_backup_lock], contexts = (\<lambda>_. new_MDL_context),
      m_wait = (\<lambda>_. EMPTY), next_ticket = 0\<rparr>"

section \<open>The container of locks\<close>

definition find_or_insert :: "mdl_state \<Rightarrow> string \<Rightarrow> MDL_lock" where
  "find_or_insert st p =
     (case mdl_locks st p of Some l \<Rightarrow> l | None \<Rightarrow> new_MDL_lock (strategy_of_namespace (mdl_namespace p)))"

definition put_lock :: "string \<Rightarrow> MDL_lock \<Rightarrow> mdl_state \<Rightarrow> mdl_state" where
  "put_lock p l st = st\<lparr>mdl_locks := (mdl_locks st)(p \<mapsto> l)\<rparr>"

text \<open>\<open>MDL_map::remove\<close> deletes an empty lock, except the preallocated one of \<open>BACKUP\<close>.\<close>

definition map_remove :: "string \<Rightarrow> MDL_lock \<Rightarrow> mdl_state \<Rightarrow> mdl_state" where
  "map_remove p l st =
     (if mdl_namespace p = BACKUP then put_lock p l st
      else st\<lparr>mdl_locks := (mdl_locks st)(p := None)\<rparr>)"

definition reschedule :: "ulonglong \<Rightarrow> string \<Rightarrow> MDL_lock \<Rightarrow> mdl_state \<Rightarrow> mdl_state" where
  "reschedule max_write_lock_count p l st =
     (case reschedule_waiters max_write_lock_count l (m_wait st) of
        (l', ws') \<Rightarrow> (put_lock p l' st)\<lparr>m_wait := ws'\<rparr>)"

text \<open>\<open>MDL_lock::remove_ticket\<close>, with the list to remove from selected by \<open>granted_list\<close>.\<close>

definition lock_remove_ticket ::
  "ulonglong \<Rightarrow> bool \<Rightarrow> MDL_ticket \<Rightarrow> string \<Rightarrow> MDL_lock \<Rightarrow> mdl_state \<Rightarrow> mdl_state" where
  "lock_remove_ticket max_write_lock_count granted_list t p l st =
     (let l1 = (if granted_list then l\<lparr>m_granted := remove_ticket t (m_granted l)\<rparr>
                else l\<lparr>m_waiting := remove_ticket t (m_waiting l)\<rparr>)
      in if is_empty l1 then map_remove p l1 st else reschedule max_write_lock_count p l1 st)"

definition lookup_ticket :: "mdl_state \<Rightarrow> ticket_ref \<Rightarrow> MDL_ticket option" where
  "lookup_ticket st r =
     (case mdl_locks st (snd r) of
        None \<Rightarrow> None
      | Some l \<Rightarrow> find (\<lambda>t. tk_id t = fst r) (m_list (m_granted l)))"

definition upd_ctx :: "nat \<Rightarrow> (MDL_context \<Rightarrow> MDL_context) \<Rightarrow> mdl_state \<Rightarrow> mdl_state" where
  "upd_ctx c f st = st\<lparr>contexts := (contexts st)(c := f (contexts st c))\<rparr>"

definition push_front :: "enum_mdl_duration \<Rightarrow> ticket_ref \<Rightarrow> MDL_context \<Rightarrow> MDL_context" where
  "push_front d r x = x\<lparr>m_tickets := (m_tickets x)(d := r # m_tickets x d)\<rparr>"

definition unlink_ticket :: "enum_mdl_duration \<Rightarrow> ticket_ref \<Rightarrow> MDL_context \<Rightarrow> MDL_context" where
  "unlink_ticket d r x = x\<lparr>m_tickets := (m_tickets x)(d := remove1 r (m_tickets x d))\<rparr>"

section \<open>Acquiring\<close>

text \<open>The order in which \<open>find_ticket\<close> looks at the durations: \<open>(duration + i) % 3\<close>.\<close>

fun durations_from :: "enum_mdl_duration \<Rightarrow> enum_mdl_duration list" where
  "durations_from MDL_STATEMENT = [MDL_STATEMENT, MDL_TRANSACTION, MDL_EXPLICIT]"
| "durations_from MDL_TRANSACTION = [MDL_TRANSACTION, MDL_EXPLICIT, MDL_STATEMENT]"
| "durations_from MDL_EXPLICIT = [MDL_EXPLICIT, MDL_STATEMENT, MDL_TRANSACTION]"

definition ticket_serves :: "mdl_state \<Rightarrow> MDL_request \<Rightarrow> ticket_ref \<Rightarrow> bool" where
  "ticket_serves st req r \<longleftrightarrow>
     m_ptr (rq_key req) = snd r \<and>
     (case lookup_ticket st r of
        None \<Rightarrow> False
      | Some t \<Rightarrow> has_stronger_or_equal_type (m_strategy (find_or_insert st (snd r))) (m_type t) (rq_type req))"

definition find_ticket :: "mdl_state \<Rightarrow> nat \<Rightarrow> MDL_request \<Rightarrow> (enum_mdl_duration \<times> ticket_ref) option" where
  "find_ticket st c req =
     find (\<lambda>(d, r). ticket_serves st req r)
       (concat (map (\<lambda>d. map (Pair d) (m_tickets (contexts st c) d)) (durations_from (rq_duration req))))"

definition clone_ticket :: "nat \<Rightarrow> MDL_request \<Rightarrow> ticket_ref \<Rightarrow> bool \<Rightarrow> mdl_state \<Rightarrow> (ticket_ref \<times> mdl_state) option" where
  "clone_ticket c req r alloc st =
     (if \<not> alloc then None
      else
        let t = \<lparr>tk_id = next_ticket st, m_type = rq_type req, m_ctx = c\<rparr>;
            p = snd r; l = find_or_insert st p; r' = (next_ticket st, p);
            st0 = st\<lparr>next_ticket := Suc (next_ticket st)\<rparr>
        in Some (r', upd_ctx c (push_front (rq_duration req) r')
                       (put_lock p (l\<lparr>m_granted := add_ticket t (m_granted l)\<rparr>) st0)))"

datatype acquire_result = Acquire_error | Acquired ticket_ref | Conflict MDL_ticket

text \<open>\<open>alloc\<close> says whether the allocations of the call (pins, ticket, lock) succeed.\<close>

definition try_acquire_lock_impl ::
  "nat \<Rightarrow> MDL_request \<Rightarrow> bool \<Rightarrow> mdl_state \<Rightarrow> acquire_result \<times> mdl_state" where
  "try_acquire_lock_impl c req alloc st =
     (case find_ticket st c req of
        Some (found_duration, r) \<Rightarrow>
          if found_duration \<noteq> rq_duration req \<or> rq_duration req = MDL_EXPLICIT then
            (case clone_ticket c req r alloc st of
               None \<Rightarrow> (Acquire_error, st)
             | Some (r', st') \<Rightarrow> (Acquired r', st'))
          else (Acquired r, st)
      | None \<Rightarrow>
          if \<not> alloc then (Acquire_error, st)
          else
            let p = m_ptr (rq_key req); l = find_or_insert st p;
                t = \<lparr>tk_id = next_ticket st, m_type = rq_type req, m_ctx = c\<rparr>;
                r = (next_ticket st, p);
                st0 = st\<lparr>next_ticket := Suc (next_ticket st)\<rparr>
            in if can_grant_lock l (rq_type req) c False
               then (Acquired r, upd_ctx c (push_front (rq_duration req) r)
                       (put_lock p (l\<lparr>m_granted := add_ticket t (m_granted l)\<rparr>) st0))
               else (Conflict t, put_lock p l st0))"

definition try_acquire_lock ::
  "nat \<Rightarrow> MDL_request \<Rightarrow> bool \<Rightarrow> mdl_state \<Rightarrow> acquire_result \<times> mdl_state" where
  "try_acquire_lock c req alloc st = try_acquire_lock_impl c req alloc st"

text \<open>
  \<open>acquire_lock\<close> up to the release of \<open>m_rwlock\<close>. With a zero timeout a conflict is an error
  (\<open>ER_LOCK_WAIT_TIMEOUT\<close>); otherwise the ticket joins the waiting queue and the wait slot is
  emptied. The contexts that \<open>notify_conflicting_locks\<close> asks to give way are a separate function.
\<close>

definition notified_contexts :: "MDL_lock \<Rightarrow> MDL_ticket \<Rightarrow> nat list" where
  "notified_contexts l t =
     (if needs_notification (m_strategy l) (m_type t)
      then map m_ctx (filter (\<lambda>u. m_ctx u \<noteq> m_ctx t \<and> conflicting_locks (m_strategy l) (m_type u))
                       (m_list (m_granted l)))
      else [])"

definition acquire_lock_begin ::
  "nat \<Rightarrow> MDL_request \<Rightarrow> bool \<Rightarrow> bool \<Rightarrow> mdl_state \<Rightarrow> acquire_result \<times> mdl_state" where
  "acquire_lock_begin c req no_wait alloc st =
     (case try_acquire_lock_impl c req alloc st of
        (Conflict t, st1) \<Rightarrow>
          if no_wait then (Acquire_error, st1)
          else
            let p = m_ptr (rq_key req); l = find_or_insert st1 p;
                st2 = put_lock p (l\<lparr>m_waiting := add_ticket t (m_waiting l)\<rparr>) st1
            in (Conflict t,
                (upd_ctx c (\<lambda>x. x\<lparr>pending := Some ((tk_id t, p), rq_duration req)\<rparr>) st2)
                  \<lparr>m_wait := reset_status c (m_wait st2)\<rparr>)
      | (res, st1) \<Rightarrow> (res, st1))"

definition will_wait_for :: "nat \<Rightarrow> ticket_ref \<Rightarrow> mdl_state \<Rightarrow> mdl_state" where
  "will_wait_for c r = upd_ctx c (\<lambda>x. x\<lparr>m_waiting_for := Some r\<rparr>)"

definition done_waiting_for :: "nat \<Rightarrow> mdl_state \<Rightarrow> mdl_state" where
  "done_waiting_for c = upd_ctx c (\<lambda>x. x\<lparr>m_waiting_for := None\<rparr>)"

text \<open>The end of \<open>timed_wait\<close>: an empty slot is closed with \<open>KILLED\<close> or \<open>TIMEOUT\<close>.\<close>

definition timed_wait_end :: "nat \<Rightarrow> bool \<Rightarrow> bool \<Rightarrow> mdl_state \<Rightarrow> mdl_state" where
  "timed_wait_end c is_killed set_status_on_timeout st =
     (if m_wait st c = EMPTY then
        (if is_killed then st\<lparr>m_wait := (m_wait st)(c := KILLED)\<rparr>
         else if set_status_on_timeout then st\<lparr>m_wait := (m_wait st)(c := TIMEOUT)\<rparr>
         else st)
      else st)"

text \<open>The rest of \<open>acquire_lock\<close>, once the wait is over with a status other than \<open>EMPTY\<close>.\<close>

definition acquire_lock_end :: "ulonglong \<Rightarrow> nat \<Rightarrow> mdl_state \<Rightarrow> bool \<times> mdl_state" where
  "acquire_lock_end mx c st =
     (case pending (contexts st c) of
        None \<Rightarrow> (True, st)
      | Some (r, d) \<Rightarrow>
          let st1 = upd_ctx c (\<lambda>x. x\<lparr>pending := None\<rparr>) (done_waiting_for c st)
          in if m_wait st c = GRANTED then (False, upd_ctx c (push_front d r) st1)
             else (case mdl_locks st (snd r) of
                     None \<Rightarrow> (True, st1)
                   | Some l \<Rightarrow>
                       (case find (\<lambda>t. tk_id t = fst r) (m_list (m_waiting l)) of
                          None \<Rightarrow> (True, st1)
                        | Some t \<Rightarrow> (True, lock_remove_ticket mx False t (snd r) l st1))))"

text \<open>
  The branch of the waiting loop for a client that has gone away: the local \<open>wait_status\<close> is
  set to \<open>TIMEOUT\<close> but the wait slot stays \<open>EMPTY\<close>, so the ticket may be granted before the
  thread takes \<open>m_rwlock\<close> in \<open>remove_ticket\<close>. \<open>ilist::remove\<close> unlinks it from whichever list
  it is in, while the bitmap and the counters that are updated are those of \<open>m_waiting\<close>.
\<close>

definition disconnected_remove ::
  "ulonglong \<Rightarrow> MDL_ticket \<Rightarrow> MDL_lock \<Rightarrow> wait_slots \<Rightarrow> MDL_lock \<times> wait_slots" where
  "disconnected_remove mx t l ws =
     (let l1 = l\<lparr>m_waiting := remove_ticket t (m_waiting l),
                m_granted := (m_granted l)\<lparr>m_list := filter (\<lambda>u. tk_id u \<noteq> tk_id t) (m_list (m_granted l))\<rparr>\<rparr>
      in if is_empty l1 then (l1, ws) else reschedule_waiters mx l1 ws)"

section \<open>Releasing\<close>

definition release_lock :: "ulonglong \<Rightarrow> nat \<Rightarrow> enum_mdl_duration \<Rightarrow> ticket_ref \<Rightarrow> mdl_state \<Rightarrow> mdl_state" where
  "release_lock mx c d r st =
     (case mdl_locks st (snd r) of
        None \<Rightarrow> st
      | Some l \<Rightarrow>
          (case find (\<lambda>t. tk_id t = fst r) (m_list (m_granted l)) of
             None \<Rightarrow> st
           | Some t \<Rightarrow> upd_ctx c (unlink_ticket d r) (lock_remove_ticket mx True t (snd r) l st)))"

text \<open>The iterator runs from the front of the list to the sentinel and releases what it passes.\<close>

definition release_locks_stored_before ::
  "ulonglong \<Rightarrow> nat \<Rightarrow> enum_mdl_duration \<Rightarrow> ticket_ref option \<Rightarrow> mdl_state \<Rightarrow> mdl_state" where
  "release_locks_stored_before mx c d sentinel st =
     fold (release_lock mx c d) (takeWhile (\<lambda>r. Some r \<noteq> sentinel) (m_tickets (contexts st c) d)) st"

record MDL_savepoint =
  m_stmt_ticket :: "ticket_ref option"
  m_trans_ticket :: "ticket_ref option"

definition front :: "'a list \<Rightarrow> 'a option" where
  "front xs = (case xs of [] \<Rightarrow> None | x # _ \<Rightarrow> Some x)"

definition mdl_savepoint :: "nat \<Rightarrow> mdl_state \<Rightarrow> MDL_savepoint" where
  "mdl_savepoint c st =
     \<lparr>m_stmt_ticket = front (m_tickets (contexts st c) MDL_STATEMENT),
      m_trans_ticket = front (m_tickets (contexts st c) MDL_TRANSACTION)\<rparr>"

definition rollback_to_savepoint :: "ulonglong \<Rightarrow> nat \<Rightarrow> MDL_savepoint \<Rightarrow> mdl_state \<Rightarrow> mdl_state" where
  "rollback_to_savepoint mx c svp st =
     release_locks_stored_before mx c MDL_TRANSACTION (m_trans_ticket svp)
       (release_locks_stored_before mx c MDL_STATEMENT (m_stmt_ticket svp) st)"

definition release_transactional_locks :: "ulonglong \<Rightarrow> nat \<Rightarrow> mdl_state \<Rightarrow> mdl_state" where
  "release_transactional_locks mx c st =
     release_locks_stored_before mx c MDL_TRANSACTION None
       (release_locks_stored_before mx c MDL_STATEMENT None st)"

definition release_statement_locks :: "ulonglong \<Rightarrow> nat \<Rightarrow> mdl_state \<Rightarrow> mdl_state" where
  "release_statement_locks mx c st = release_locks_stored_before mx c MDL_STATEMENT None st"

definition release_explicit_locks :: "ulonglong \<Rightarrow> nat \<Rightarrow> mdl_state \<Rightarrow> mdl_state" where
  "release_explicit_locks mx c st = release_locks_stored_before mx c MDL_EXPLICIT None st"

definition release_all_locks_for_name :: "ulonglong \<Rightarrow> nat \<Rightarrow> ticket_ref \<Rightarrow> mdl_state \<Rightarrow> mdl_state" where
  "release_all_locks_for_name mx c r st =
     fold (release_lock mx c MDL_EXPLICIT)
       (filter (\<lambda>q. snd q = snd r) (m_tickets (contexts st c) MDL_EXPLICIT)) st"

section \<open>Changing type and duration\<close>

definition downgrade_ticket :: "ulonglong \<Rightarrow> ticket_ref \<Rightarrow> enum_mdl_type \<Rightarrow> mdl_state \<Rightarrow> mdl_state" where
  "downgrade_ticket mx r ty st =
     (case mdl_locks st (snd r) of
        None \<Rightarrow> st
      | Some l \<Rightarrow>
          (case find (\<lambda>t. tk_id t = fst r) (m_list (m_granted l)) of
             None \<Rightarrow> st
           | Some t \<Rightarrow> (case downgrade_lock mx t ty l (m_wait st) of
                          (l', ws') \<Rightarrow> (put_lock (snd r) l' st)\<lparr>m_wait := ws'\<rparr>)))"

definition has_lock :: "nat \<Rightarrow> MDL_savepoint \<Rightarrow> ticket_ref \<Rightarrow> mdl_state \<Rightarrow> bool" where
  "has_lock c svp r st \<longleftrightarrow>
     r \<notin> set (takeWhile (\<lambda>q. Some q \<noteq> m_stmt_ticket svp) (m_tickets (contexts st c) MDL_STATEMENT)) \<and>
     r \<notin> set (takeWhile (\<lambda>q. Some q \<noteq> m_trans_ticket svp) (m_tickets (contexts st c) MDL_TRANSACTION))"

text \<open>
  \<open>upgrade_shared_lock\<close> up to the point where \<open>acquire_lock\<close> returns or waits. The key of the
  request is a copy of the key of the lock.
\<close>

definition upgrade_shared_lock_begin ::
  "nat \<Rightarrow> ticket_ref \<Rightarrow> MDL_key \<Rightarrow> enum_mdl_type \<Rightarrow> bool \<Rightarrow> bool \<Rightarrow> mdl_state \<Rightarrow> acquire_result \<times> mdl_state" where
  "upgrade_shared_lock_begin c r k new_type no_wait alloc st =
     (case lookup_ticket st r of
        None \<Rightarrow> (Acquire_error, st)
      | Some t \<Rightarrow>
          if has_stronger_or_equal_type (m_strategy (find_or_insert st (snd r))) (m_type t) new_type \<and>
             mdl_namespace (snd r) \<noteq> BACKUP
          then (Acquired r, st)
          else acquire_lock_begin c \<lparr>rq_type = new_type, rq_duration = MDL_TRANSACTION, rq_key = k\<rparr>
                 no_wait alloc st)"

text \<open>
  The rest of it, once ticket \<open>x\<close> satisfies the request: ticket \<open>r\<close> takes over the new type,
  and \<open>x\<close> goes away if it was acquired after the savepoint \<open>svp\<close> taken at the start.
\<close>

definition upgrade_merge ::
  "nat \<Rightarrow> MDL_savepoint \<Rightarrow> ticket_ref \<Rightarrow> ticket_ref \<Rightarrow> enum_mdl_type \<Rightarrow> mdl_state \<Rightarrow> mdl_state" where
  "upgrade_merge c svp r x new_type st =
     (let is_new_ticket = (\<not> has_lock c svp x st)
      in case (mdl_locks st (snd r), lookup_ticket st r, lookup_ticket st x) of
           (Some l, Some t, Some xt) \<Rightarrow>
             let g1 = (if is_new_ticket then remove_ticket xt (m_granted l) else m_granted l);
                 g2 = add_ticket (t\<lparr>m_type := new_type\<rparr>) (remove_ticket t g1);
                 st1 = put_lock (snd r) (l\<lparr>m_granted := g2\<rparr>) st
             in if is_new_ticket then upd_ctx c (unlink_ticket MDL_TRANSACTION x) st1 else st1
         | _ \<Rightarrow> st)"

definition set_lock_duration :: "nat \<Rightarrow> ticket_ref \<Rightarrow> enum_mdl_duration \<Rightarrow> mdl_state \<Rightarrow> mdl_state" where
  "set_lock_duration c r d = upd_ctx c (\<lambda>x. push_front d r (unlink_ticket MDL_TRANSACTION r x))"

text \<open>Moving every ticket of one list, from its front, to the front of another reverses them.\<close>

definition set_explicit_duration_for_all_locks :: "nat \<Rightarrow> mdl_state \<Rightarrow> mdl_state" where
  "set_explicit_duration_for_all_locks c =
     upd_ctx c (\<lambda>x. x\<lparr>m_tickets := (\<lambda>d. case d of
        MDL_EXPLICIT \<Rightarrow> rev (m_tickets x MDL_EXPLICIT) @ rev (m_tickets x MDL_STATEMENT) @
                        m_tickets x MDL_TRANSACTION
      | _ \<Rightarrow> [])\<rparr>)"

definition set_transaction_duration_for_all_locks :: "nat \<Rightarrow> mdl_state \<Rightarrow> mdl_state" where
  "set_transaction_duration_for_all_locks c =
     upd_ctx c (\<lambda>x. x\<lparr>m_tickets := (\<lambda>d. case d of
        MDL_TRANSACTION \<Rightarrow> rev (m_tickets x MDL_TRANSACTION) @ m_tickets x MDL_EXPLICIT
      | MDL_EXPLICIT \<Rightarrow> []
      | MDL_STATEMENT \<Rightarrow> m_tickets x MDL_STATEMENT)\<rparr>)"

definition is_lock_owner ::
  "nat \<Rightarrow> enum_mdl_namespace \<Rightarrow> string \<Rightarrow> string \<Rightarrow> enum_mdl_type \<Rightarrow> mdl_state \<Rightarrow> bool" where
  "is_lock_owner c ns db nm ty st \<longleftrightarrow>
     find_ticket st c \<lparr>rq_type = ty, rq_duration = MDL_TRANSACTION, rq_key = mdl_key_init ns db nm\<rparr> \<noteq> None"

section \<open>Queries\<close>

text \<open>\<open>MDL_lock::get_lock_owner\<close>: the context of the first granted ticket, if there is one.\<close>

definition lock_get_lock_owner :: "MDL_lock \<Rightarrow> nat option" where
  "lock_get_lock_owner l = (case m_list (m_granted l) of [] \<Rightarrow> None | t # _ \<Rightarrow> Some (m_ctx t))"

definition get_lock_owner :: "MDL_key \<Rightarrow> mdl_state \<Rightarrow> nat option" where
  "get_lock_owner k st =
     (case mdl_locks st (m_ptr k) of None \<Rightarrow> None | Some l \<Rightarrow> lock_get_lock_owner l)"

definition has_explicit_locks :: "nat \<Rightarrow> mdl_state \<Rightarrow> bool" where
  "has_explicit_locks c st \<longleftrightarrow> m_tickets (contexts st c) MDL_EXPLICIT \<noteq> []"

text \<open>\<open>std::any_of\<close> with a callback: the elements it is called on, and the result.\<close>

fun any_of :: "('a \<Rightarrow> bool) \<Rightarrow> 'a list \<Rightarrow> 'a list \<times> bool" where
  "any_of f [] = ([], False)"
| "any_of f (x # xs) = (if f x then ([x], True) else case any_of f xs of (vs, b) \<Rightarrow> (x # vs, b))"

definition mdl_iterate_lock :: "(MDL_ticket \<Rightarrow> bool \<Rightarrow> bool) \<Rightarrow> MDL_lock \<Rightarrow> MDL_ticket list \<times> bool" where
  "mdl_iterate_lock callback l =
     (let (vs1, res) = any_of (\<lambda>t. callback t True) (m_list (m_granted l));
          (vs2, res) = any_of (\<lambda>t. callback t False) (m_list (m_waiting l))
      in (vs1 @ vs2, res))"

end
