(* ===== verification/MDL_Steps.thy ===== *)
theory MDL_Steps
  imports MDL_System
begin

text \<open>
  Executions of the lock manager: one step is one critical section of one context, and any
  context may take the next one. The invariant relates the queues of every lock to the
  ticket lists of the contexts; its consequences are mutual exclusion, that no granted
  ticket is lost or leaked, and that no waiter of a weak type misses a wake-up.
\<close>

section \<open>Steps\<close>

abbreviation lock_at :: "mdl_state \<Rightarrow> string \<Rightarrow> MDL_lock" where
  "lock_at \<equiv> find_or_insert"

abbreviation granted :: "mdl_state \<Rightarrow> string \<Rightarrow> MDL_ticket list" where
  "granted st p \<equiv> m_list (m_granted (lock_at st p))"

abbreviation waiting :: "mdl_state \<Rightarrow> string \<Rightarrow> MDL_ticket list" where
  "waiting st p \<equiv> m_list (m_waiting (lock_at st p))"

text \<open>
  A request is for a type of its namespace, has a key built by \<open>mdl_key_init\<close> (the one key of
  \<open>BACKUP\<close> has empty names), and the process has room for one more ticket of the lock.
\<close>

definition request_ok :: "mdl_state \<Rightarrow> MDL_request \<Rightarrow> bool" where
  "request_ok st req \<longleftrightarrow>
     rq_type req < num_types (strategy_of_namespace (mdl_namespace (m_ptr (rq_key req)))) \<and>
     (mdl_namespace (m_ptr (rq_key req)) = BACKUP \<longrightarrow> m_ptr (rq_key req) = backup_key) \<and>
     length (granted st (m_ptr (rq_key req))) + length (waiting st (m_ptr (rq_key req))) + 1 < 2 ^ 32"

definition mark_victim :: "nat \<Rightarrow> mdl_state \<Rightarrow> mdl_state" where
  "mark_victim v st =
     upd_ctx v (\<lambda>x. x\<lparr>m_deadlock_overweight := m_deadlock_overweight x + 1\<rparr>)
       (st\<lparr>m_wait := snd (set_status v VICTIM (m_wait st))\<rparr>)"

definition reset_overweight :: "nat \<Rightarrow> mdl_state \<Rightarrow> mdl_state" where
  "reset_overweight c = upd_ctx c (\<lambda>x. x\<lparr>m_deadlock_overweight := 0\<rparr>)"

definition idle :: "mdl_state \<Rightarrow> nat \<Rightarrow> bool" where
  "idle st c \<longleftrightarrow> pending (contexts st c) = None"

text \<open>
  The upgrade of a ticket outside \<open>BACKUP\<close> is to a type that is at least as strong: to
  \<open>MDL_EXCLUSIVE\<close> from an upgradable one, or from \<open>MDL_SHARED_UPGRADABLE\<close> to
  \<open>MDL_SHARED_NO_WRITE\<close>.
\<close>

definition upgrade_ok :: "mdl_state \<Rightarrow> nat \<Rightarrow> MDL_savepoint \<Rightarrow> ticket_ref \<Rightarrow> ticket_ref \<Rightarrow> enum_mdl_type \<Rightarrow> bool" where
  "upgrade_ok st c svp r x ty \<longleftrightarrow>
     snd x = snd r \<and> x \<in> set (m_tickets (contexts st c) MDL_TRANSACTION) \<and>
     ty < num_types (m_strategy (lock_at st (snd r))) \<and>
     (case (lookup_ticket st r, lookup_ticket st x) of
        (Some t, Some xt) \<Rightarrow>
          (if has_lock c svp x st
           then has_stronger_or_equal_type (m_strategy (lock_at st (snd r))) (m_type xt) ty
           else x \<noteq> r \<and> m_type xt = ty) \<and>
          (mdl_namespace (snd r) \<noteq> BACKUP \<longrightarrow>
             has_stronger_or_equal_type (m_strategy (lock_at st (snd r))) ty (m_type t))
      | _ \<Rightarrow> False)"

inductive mdl_step :: "ulonglong \<Rightarrow> mdl_state \<Rightarrow> mdl_state \<Rightarrow> bool" for mx where
  try_lock: "idle st c \<Longrightarrow> request_ok st req \<Longrightarrow> try_acquire_lock c req alloc st = (res, st') \<Longrightarrow> mdl_step mx st st'"
| acquire: "idle st c \<Longrightarrow> request_ok st req \<Longrightarrow> acquire_lock_begin c req no_wait alloc st = (res, st') \<Longrightarrow>
    mdl_step mx st st'"
| will_wait: "pending (contexts st c) = Some (r, d) \<Longrightarrow> mdl_step mx st (will_wait_for c r st)"
| victim: "mdl_step mx st (mark_victim v st)"
| timeout: "\<not> idle st c \<Longrightarrow> mdl_step mx st (timed_wait_end c is_killed set_status_on_timeout st)"
| acquired: "\<not> idle st c \<Longrightarrow> m_wait st c \<noteq> EMPTY \<Longrightarrow> acquire_lock_end mx c st = (err, st') \<Longrightarrow> mdl_step mx st st'"
| release: "idle st c \<Longrightarrow> r \<in> set (m_tickets (contexts st c) d) \<Longrightarrow> mdl_step mx st (release_lock mx c d r st)"
| downgrade: "idle st c \<Longrightarrow> r \<in> set (m_tickets (contexts st c) d) \<Longrightarrow>
    ty < num_types (m_strategy (lock_at st (snd r))) \<Longrightarrow> mdl_step mx st (downgrade_ticket mx r ty st)"
| upgrade: "idle st c \<Longrightarrow> r \<in> set (m_tickets (contexts st c) d) \<Longrightarrow>
    request_ok st \<lparr>rq_type = ty, rq_duration = MDL_TRANSACTION, rq_key = k\<rparr> \<Longrightarrow> m_ptr k = snd r \<Longrightarrow>
    upgrade_shared_lock_begin c r k ty no_wait alloc st = (res, st') \<Longrightarrow> mdl_step mx st st'"
| merge: "idle st c \<Longrightarrow> r \<in> set (m_tickets (contexts st c) d) \<Longrightarrow> upgrade_ok st c svp r x ty \<Longrightarrow>
    mdl_step mx st (upgrade_merge c svp r x ty st)"
| duration: "idle st c \<Longrightarrow> r \<in> set (m_tickets (contexts st c) MDL_TRANSACTION) \<Longrightarrow>
    mdl_step mx st (set_lock_duration c r d st)"
| explicit_all: "idle st c \<Longrightarrow> mdl_step mx st (set_explicit_duration_for_all_locks c st)"
| transaction_all: "idle st c \<Longrightarrow> mdl_step mx st (set_transaction_duration_for_all_locks c st)"
| reset: "mdl_step mx st (reset_overweight c st)"

inductive reachable :: "ulonglong \<Rightarrow> mdl_state \<Rightarrow> bool" for mx where
  init: "reachable mx mdl_init"
| step: "reachable mx st \<Longrightarrow> mdl_step mx st st' \<Longrightarrow> reachable mx st'"

section \<open>The invariant\<close>

definition granted_refs :: "mdl_state \<Rightarrow> nat \<Rightarrow> ticket_ref set" where
  "granted_refs st c = {(tk_id t, p) | t p. t \<in> set (granted st p) \<and> m_ctx t = c}"

definition waiting_refs :: "mdl_state \<Rightarrow> nat \<Rightarrow> ticket_ref set" where
  "waiting_refs st c = {(tk_id t, p) | t p. t \<in> set (waiting st p) \<and> m_ctx t = c}"

definition all_tickets :: "MDL_context \<Rightarrow> ticket_ref list" where
  "all_tickets x = m_tickets x MDL_STATEMENT @ m_tickets x MDL_TRANSACTION @ m_tickets x MDL_EXPLICIT"

definition pending_ref :: "MDL_context \<Rightarrow> ticket_ref set" where
  "pending_ref x = (case pending x of None \<Rightarrow> {} | Some (r, d) \<Rightarrow> {r})"

definition compatible :: "MDL_lock \<Rightarrow> bool" where
  "compatible l \<longleftrightarrow>
     (\<forall>a\<in>set (m_list (m_granted l)). \<forall>b\<in>set (m_list (m_granted l)).
        m_ctx a \<noteq> m_ctx b \<longrightarrow> \<not> incompat_granted (m_strategy l) (m_type a) (m_type b))"

definition lock_at_inv :: "nat \<Rightarrow> string \<Rightarrow> MDL_lock \<Rightarrow> bool" where
  "lock_at_inv n p l \<longleftrightarrow>
     lock_inv l \<and> m_strategy l = strategy_of_namespace (mdl_namespace p) \<and>
     (\<forall>t\<in>set (m_list (m_granted l)). tk_id t < n) \<and> (\<forall>t\<in>set (m_list (m_waiting l)). tk_id t < n) \<and>
     (mdl_namespace p \<noteq> BACKUP \<longrightarrow> compatible l)"

definition context_inv :: "mdl_state \<Rightarrow> nat \<Rightarrow> bool" where
  "context_inv st c \<longleftrightarrow>
     distinct (all_tickets (contexts st c)) \<and>
     pending_ref (contexts st c) \<inter> set (all_tickets (contexts st c)) = {} \<and>
     granted_refs st c = set (all_tickets (contexts st c)) \<union>
       (if m_wait st c = GRANTED then pending_ref (contexts st c) else {}) \<and>
     waiting_refs st c = (if m_wait st c = GRANTED then {} else pending_ref (contexts st c))"

definition weak_type :: "MDL_lock_strategy \<Rightarrow> enum_mdl_type \<Rightarrow> bool" where
  "weak_type s ty \<longleftrightarrow> MDL_BIT ty AND hog_lock_types_bitmap s = 0"

definition weak_blocked :: "wait_slots \<Rightarrow> string \<Rightarrow> MDL_lock \<Rightarrow> bool" where
  "weak_blocked ws p l \<longleftrightarrow>
     (mdl_namespace p \<noteq> BACKUP \<longrightarrow>
       (\<forall>t\<in>set (m_list (m_waiting l)). ws (m_ctx t) = EMPTY \<and> weak_type (m_strategy l) (m_type t) \<longrightarrow>
          \<not> grantable l (m_type t) (m_ctx t) False))"

definition core_inv :: "mdl_state \<Rightarrow> bool" where
  "core_inv st \<longleftrightarrow>
     (\<forall>p. lock_at_inv (next_ticket st) p (lock_at st p)) \<and> (\<forall>c. context_inv st c)"

definition mdl_inv :: "mdl_state \<Rightarrow> bool" where
  "mdl_inv st \<longleftrightarrow> core_inv st \<and> (\<forall>p. weak_blocked (m_wait st) p (lock_at st p))"

section \<open>Framing\<close>

lemma put_lock_simps [simp]:
  "lock_at (put_lock p l st) q = (if q = p then l else lock_at st q)"
  "contexts (put_lock p l st) = contexts st"
  "m_wait (put_lock p l st) = m_wait st"
  "next_ticket (put_lock p l st) = next_ticket st"
  by (simp_all add: put_lock_def find_or_insert_def)

lemma upd_ctx_simps [simp]:
  "mdl_locks (upd_ctx c f st) = mdl_locks st"
  "lock_at (upd_ctx c f st) = lock_at st"
  "contexts (upd_ctx c f st) = (contexts st)(c := f (contexts st c))"
  "m_wait (upd_ctx c f st) = m_wait st"
  "next_ticket (upd_ctx c f st) = next_ticket st"
  by (simp_all add: upd_ctx_def find_or_insert_def fun_eq_iff)

lemma lock_at_simps [simp]:
  "lock_at (st\<lparr>m_wait := ws\<rparr>) = lock_at st"
  "lock_at (st\<lparr>next_ticket := n\<rparr>) = lock_at st"
  "lock_at (st\<lparr>contexts := cs\<rparr>) = lock_at st"
  by (simp_all add: find_or_insert_def fun_eq_iff)

lemma refs_frame [simp]:
  "granted_refs (upd_ctx c f st) = granted_refs st"
  "waiting_refs (upd_ctx c f st) = waiting_refs st"
  "granted_refs (st\<lparr>m_wait := ws\<rparr>) = granted_refs st"
  "waiting_refs (st\<lparr>m_wait := ws\<rparr>) = waiting_refs st"
  "granted_refs (st\<lparr>next_ticket := n\<rparr>) = granted_refs st"
  "waiting_refs (st\<lparr>next_ticket := n\<rparr>) = waiting_refs st"
  by (simp_all add: granted_refs_def waiting_refs_def fun_eq_iff)

lemma refs_iff:
  "(i, p) \<in> granted_refs st c \<longleftrightarrow> (\<exists>t\<in>set (granted st p). tk_id t = i \<and> m_ctx t = c)"
  "(i, p) \<in> waiting_refs st c \<longleftrightarrow> (\<exists>t\<in>set (waiting st p). tk_id t = i \<and> m_ctx t = c)"
  by (auto simp: granted_refs_def waiting_refs_def)

lemma refs_put:
  "(i, q) \<in> granted_refs (put_lock p l st) c \<longleftrightarrow>
     (if q = p then \<exists>t\<in>set (m_list (m_granted l)). tk_id t = i \<and> m_ctx t = c else (i, q) \<in> granted_refs st c)"
  "(i, q) \<in> waiting_refs (put_lock p l st) c \<longleftrightarrow>
     (if q = p then \<exists>t\<in>set (m_list (m_waiting l)). tk_id t = i \<and> m_ctx t = c else (i, q) \<in> waiting_refs st c)"
  by (simp_all add: refs_iff)

lemma set_pair_eqI: "(\<And>i p. (i, p) \<in> A \<longleftrightarrow> (i, p) \<in> B) \<Longrightarrow> A = B"
  by auto

lemma push_front_simps [simp]:
  "pending (push_front d r x) = pending x"
  "pending_ref (push_front d r x) = pending_ref x"
  "set (all_tickets (push_front d r x)) = insert r (set (all_tickets x))"
  "distinct (all_tickets (push_front d r x)) \<longleftrightarrow> r \<notin> set (all_tickets x) \<and> distinct (all_tickets x)"
  by (cases d; auto simp: push_front_def all_tickets_def pending_ref_def)+

lemma unlink_ticket_simps [simp]:
  "pending (unlink_ticket d r x) = pending x"
  "pending_ref (unlink_ticket d r x) = pending_ref x"
  by (simp_all add: unlink_ticket_def pending_ref_def)

lemma all_tickets_mem: "r \<in> set (m_tickets x d) \<Longrightarrow> r \<in> set (all_tickets x)"
  by (cases d) (auto simp: all_tickets_def)

lemma all_tickets_unlink:
  assumes "distinct (all_tickets x)" "r \<in> set (m_tickets x d)"
  shows "distinct (all_tickets (unlink_ticket d r x)) \<and>
         set (all_tickets (unlink_ticket d r x)) = set (all_tickets x) - {r}"
  using assms by (cases d) (auto simp: all_tickets_def unlink_ticket_def)

lemma pending_ref_simps [simp]:
  "pending_ref (x\<lparr>m_waiting_for := w\<rparr>) = pending_ref x"
  "pending_ref (x\<lparr>m_deadlock_overweight := n\<rparr>) = pending_ref x"
  "pending_ref (x\<lparr>m_tickets := ts\<rparr>) = pending_ref x"
  "pending_ref (x\<lparr>pending := None\<rparr>) = {}"
  "pending_ref (x\<lparr>pending := Some (r, d)\<rparr>) = {r}"
  by (simp_all add: pending_ref_def)

lemma all_tickets_simps [simp]:
  "all_tickets (x\<lparr>m_waiting_for := w\<rparr>) = all_tickets x"
  "all_tickets (x\<lparr>m_deadlock_overweight := n\<rparr>) = all_tickets x"
  "all_tickets (x\<lparr>pending := q\<rparr>) = all_tickets x"
  by (simp_all add: all_tickets_def)

lemma idle_pending_ref: "idle st c \<Longrightarrow> pending_ref (contexts st c) = {}"
  by (simp add: idle_def pending_ref_def)

lemma mdl_inv_locks: "mdl_inv st \<Longrightarrow> lock_at_inv (next_ticket st) p (lock_at st p)"
  by (simp add: mdl_inv_def core_inv_def)

lemma mdl_inv_context: "mdl_inv st \<Longrightarrow> context_inv st c"
  by (simp add: mdl_inv_def core_inv_def)

lemma mdl_inv_blocked: "mdl_inv st \<Longrightarrow> weak_blocked (m_wait st) p (lock_at st p)"
  by (simp add: mdl_inv_def core_inv_def)

lemma has_strongerD:
  assumes "has_stronger_or_equal_type s a b" "h < 16" "\<not> incompat_granted s a h"
  shows "\<not> incompat_granted s b h"
  using assms
  by (auto simp: has_stronger_or_equal_type_def incompat_granted_bit word_and_eq_0_iff bit_not_iff)

lemma strategy_backup_iff: "strategy_of_namespace ns = MDL_backup_lock \<longleftrightarrow> ns = BACKUP"
  by (cases ns) simp_all

text \<open>An idle context waits nowhere, and a ticket in its lists is granted to it.\<close>

lemma idle_not_waiting:
  assumes "mdl_inv st" "idle st c" "t \<in> set (waiting st p)"
  shows "m_ctx t \<noteq> c"
proof
  assume "m_ctx t = c"
  with assms(3) have "(tk_id t, p) \<in> waiting_refs st c" by (auto simp: waiting_refs_def)
  with mdl_inv_context [OF assms(1), of c] idle_pending_ref [OF assms(2)]
  show False by (auto simp: context_inv_def split: if_splits)
qed

lemma find_by_id:
  assumes "distinct (map tk_id ts)" "t \<in> set ts"
  shows "find (\<lambda>u. tk_id u = tk_id t) ts = Some t"
  using assms
proof (induction ts)
  case (Cons u ts)
  then show ?case by (auto simp: rev_image_eqI)
qed simp

lemma held_ticket:
  assumes "mdl_inv st" "r \<in> set (m_tickets (contexts st c) d)"
  obtains l t where "mdl_locks st (snd r) = Some l" "lock_at st (snd r) = l"
    "t \<in> set (m_list (m_granted l))" "tk_id t = fst r" "m_ctx t = c"
    "find (\<lambda>u. tk_id u = fst r) (m_list (m_granted l)) = Some t"
proof -
  from assms have "r \<in> granted_refs st c"
    using mdl_inv_context [OF assms(1), of c] all_tickets_mem [OF assms(2)]
    by (simp add: context_inv_def)
  then obtain t where t: "t \<in> set (granted st (snd r))" "tk_id t = fst r" "m_ctx t = c"
    by (auto simp: granted_refs_def)
  moreover from this obtain l where "mdl_locks st (snd r) = Some l"
    by (cases "mdl_locks st (snd r)")
      (auto simp: find_or_insert_def new_MDL_lock_def empty_Ticket_list_def)
  moreover have "distinct (map tk_id (granted st (snd r)))"
    using mdl_inv_locks [OF assms(1), of "snd r"]
    by (simp add: lock_at_inv_def lock_inv_def lock_ok_def queue_ok_def)
  ultimately show ?thesis using that find_by_id [OF _ t(1)] by (simp add: find_or_insert_def)
qed

section \<open>Adding a ticket\<close>

lemma add_ticket_list [simp]: "m_list (add_ticket t q) = m_list q @ [t]"
  by (simp add: add_ticket_def)

lemma remove_ticket_list [simp]:
  "m_list (remove_ticket t q) = filter (\<lambda>u. tk_id u \<noteq> tk_id t) (m_list q)"
  by (simp add: remove_ticket_def Let_def)

lemma lock_at_inv_Suc: "lock_at_inv n p l \<Longrightarrow> lock_at_inv (Suc n) p l"
  unfolding lock_at_inv_def using less_SucI by blast

lemma lock_ok_add_granted:
  assumes "lock_ok l" "m_type t < num_types (m_strategy l)"
    and "\<forall>u\<in>set (m_list (m_granted l)). tk_id u < tk_id t" "\<forall>u\<in>set (m_list (m_waiting l)). tk_id u < tk_id t"
    and "length (m_list (m_granted l)) + length (m_list (m_waiting l)) + 1 < 2 ^ 32"
  shows "lock_ok (l\<lparr>m_granted := add_ticket t (m_granted l)\<rparr>)"
  using assms by (auto simp: lock_ok_def intro!: queue_ok_add)

lemma lock_ok_add_waiting:
  assumes "lock_ok l" "m_type t < num_types (m_strategy l)"
    and "\<forall>u\<in>set (m_list (m_granted l)). tk_id u < tk_id t" "\<forall>u\<in>set (m_list (m_waiting l)). tk_id u < tk_id t"
    and "length (m_list (m_granted l)) + length (m_list (m_waiting l)) + 1 < 2 ^ 32"
  shows "lock_ok (l\<lparr>m_waiting := add_ticket t (m_waiting l)\<rparr>)"
  using assms by (auto simp: lock_ok_def intro!: queue_ok_add)

lemma lock_at_inv_queues:
  assumes "lock_at_inv n p l"
  shows "queue_ok (num_types (m_strategy l)) (m_granted l)" "queue_ok (num_types (m_strategy l)) (m_waiting l)"
  using assms unfolding lock_at_inv_def lock_inv_def lock_ok_def by blast+

lemma incompat_granted_sym_ns:
  assumes "mdl_namespace p \<noteq> BACKUP" "lock_at_inv n p l" "t \<in> set (m_list (m_granted l))" "ty < num_types (m_strategy l)"
  shows "incompat_granted (m_strategy l) (m_type t) ty \<longleftrightarrow> incompat_granted (m_strategy l) ty (m_type t)"
proof (rule incompat_granted_sym)
  show "m_strategy l \<noteq> MDL_backup_lock" using assms(1,2) by (simp add: lock_at_inv_def strategy_backup_iff)
  show "m_type t < num_types (m_strategy l)"
    using lock_at_inv_queues(1) [OF assms(2)] assms(3) by (simp add: queue_ok_type)
qed fact

lemma lock_at_inv_add_granted:
  assumes l: "lock_at_inv n p l" and t: "tk_id t = n" "m_type t < num_types (m_strategy l)"
    and room: "length (m_list (m_granted l)) + length (m_list (m_waiting l)) + 1 < 2 ^ 32"
    and comp: "mdl_namespace p \<noteq> BACKUP \<Longrightarrow>
      \<forall>g\<in>set (m_list (m_granted l)). m_ctx g \<noteq> m_ctx t \<longrightarrow> \<not> incompat_granted (m_strategy l) (m_type t) (m_type g)"
  shows "lock_at_inv (Suc n) p (l\<lparr>m_granted := add_ticket t (m_granted l)\<rparr>)" (is "lock_at_inv _ _ ?l")
proof -
  have "lock_ok ?l"
    using l t room by (intro lock_ok_add_granted) (auto simp: lock_at_inv_def lock_inv_def)
  moreover have "compatible ?l" if ns: "mdl_namespace p \<noteq> BACKUP"
    using comp [OF ns] l ns incompat_granted_sym_ns [OF ns l _ t(2)]
    by (auto simp: compatible_def lock_at_inv_def)
  ultimately show ?thesis using l t by (auto simp: lock_at_inv_def lock_inv_def less_SucI)
qed

lemma grantable_add_granted:
  "grantable (l\<lparr>m_granted := add_ticket t (m_granted l)\<rparr>) ty c ig \<Longrightarrow> grantable l ty c ig"
  by (auto simp: grantable_def)

lemma weak_blocked_mono:
  assumes "weak_blocked ws p l" "m_waiting l' = m_waiting l" "m_strategy l' = m_strategy l"
    and "\<And>t. t \<in> set (m_list (m_waiting l)) \<Longrightarrow> grantable l' (m_type t) (m_ctx t) False \<Longrightarrow>
           grantable l (m_type t) (m_ctx t) False"
  shows "weak_blocked ws p l'"
  using assms by (auto simp: weak_blocked_def)

lemma weak_blocked_add_granted:
  "weak_blocked ws p l \<Longrightarrow> weak_blocked ws p (l\<lparr>m_granted := add_ticket t (m_granted l)\<rparr>)"
  by (erule weak_blocked_mono) (simp_all add: grantable_add_granted)

lemma mdl_inv_add_granted:
  fixes st c p d ty
  defines "t \<equiv> \<lparr>tk_id = next_ticket st, m_type = ty, m_ctx = c\<rparr>"
  assumes inv: "mdl_inv st" and ty: "ty < num_types (m_strategy (lock_at st p))"
    and room: "length (granted st p) + length (waiting st p) + 1 < 2 ^ 32"
    and comp: "mdl_namespace p \<noteq> BACKUP \<Longrightarrow>
      \<forall>g\<in>set (granted st p). m_ctx g \<noteq> c \<longrightarrow> \<not> incompat_granted (m_strategy (lock_at st p)) ty (m_type g)"
    and idle: "idle st c"
  shows "mdl_inv (upd_ctx c (push_front d (next_ticket st, p))
    (put_lock p ((lock_at st p)\<lparr>m_granted := add_ticket t (m_granted (lock_at st p))\<rparr>)
      (st\<lparr>next_ticket := Suc (next_ticket st)\<rparr>)))" (is "mdl_inv (upd_ctx c _ ?st1)")
proof -
  let ?st = "upd_ctx c (push_front d (next_ticket st, p)) ?st1"
  note inv_p = mdl_inv_locks [OF inv, of p]
  have A: "lock_at_inv (next_ticket ?st) q (lock_at ?st q)" for q
  proof (cases "q = p")
    case True
    have "lock_at_inv (Suc (next_ticket st)) p ((lock_at st p)\<lparr>m_granted := add_ticket t (m_granted (lock_at st p))\<rparr>)"
      by (rule lock_at_inv_add_granted [OF inv_p _ _ room]) (simp_all add: t_def ty comp)
    with True show ?thesis by simp
  next
    case False
    with mdl_inv_locks [OF inv, of q] show ?thesis by (simp add: lock_at_inv_Suc)
  qed
  have B: "context_inv ?st c'" for c'
  proof -
    have new: "(next_ticket st, p) \<notin> granted_refs st c"
      using inv_p by (auto simp: refs_iff lock_at_inv_def)
    have g: "granted_refs ?st c' = granted_refs st c' \<union> (if c' = c then {(next_ticket st, p)} else {})"
      by (rule set_pair_eqI) (auto simp: refs_put refs_iff t_def)
    have w: "waiting_refs ?st c' = waiting_refs st c'"
      by (rule set_pair_eqI) (auto simp: refs_put refs_iff)
    show ?thesis using mdl_inv_context [OF inv, of c'] new idle_pending_ref [OF idle]
      unfolding context_inv_def g w by (auto split: if_splits)
  qed
  have C: "weak_blocked (m_wait ?st) q (lock_at ?st q)" for q
    using mdl_inv_blocked [OF inv, of q] weak_blocked_add_granted by (cases "q = p") simp_all
  show ?thesis unfolding mdl_inv_def core_inv_def by (intro conjI allI A B C)
qed

lemma lock_at_inv_le: "lock_at_inv n p l \<Longrightarrow> n \<le> m \<Longrightarrow> lock_at_inv m p l"
  unfolding lock_at_inv_def using less_le_trans by blast

lemma refs_cong:
  assumes "lock_at st' = lock_at st"
  shows "granted_refs st' = granted_refs st" "waiting_refs st' = waiting_refs st"
  using assms by (simp_all add: granted_refs_def waiting_refs_def fun_eq_iff)

text \<open>Steps that leave the queues alone and only close wait slots.\<close>

lemma mdl_inv_frame:
  assumes inv: "mdl_inv st" and "lock_at st' = lock_at st" "next_ticket st \<le> next_ticket st'"
    and ctx: "\<And>c. pending_ref (contexts st' c) = pending_ref (contexts st c)"
      "\<And>c. set (all_tickets (contexts st' c)) = set (all_tickets (contexts st c))"
      "\<And>c. distinct (all_tickets (contexts st' c)) = distinct (all_tickets (contexts st c))"
    and slot: "\<And>c. m_wait st' c = GRANTED \<longleftrightarrow> m_wait st c = GRANTED"
      "\<And>c. m_wait st' c = EMPTY \<Longrightarrow> m_wait st c = EMPTY"
  shows "mdl_inv st'"
proof -
  have A: "lock_at_inv (next_ticket st') p (lock_at st' p)" for p
    using mdl_inv_locks [OF inv, of p] assms(2,3) by (simp add: lock_at_inv_le)
  have B: "context_inv st' c" for c
    using mdl_inv_context [OF inv, of c] ctx [of c] slot(1) [of c] refs_cong [OF assms(2)]
    by (simp add: context_inv_def)
  have C: "weak_blocked (m_wait st') p (lock_at st' p)" for p
    using mdl_inv_blocked [OF inv, of p] slot(2) assms(2) by (auto simp: weak_blocked_def)
  show ?thesis unfolding mdl_inv_def core_inv_def by (intro conjI allI A B C)
qed

lemma grantable_add_waiting:
  "grantable (l\<lparr>m_waiting := add_ticket t (m_waiting l)\<rparr>) ty c ig \<Longrightarrow> grantable l ty c ig"
  by (auto simp: grantable_def)

lemma mdl_inv_add_waiting:
  fixes st c p d ty
  defines "t \<equiv> \<lparr>tk_id = next_ticket st, m_type = ty, m_ctx = c\<rparr>"
  defines "l \<equiv> (lock_at st p)\<lparr>m_waiting := add_ticket t (m_waiting (lock_at st p))\<rparr>"
  assumes inv: "mdl_inv st" and ty: "ty < num_types (m_strategy (lock_at st p))"
    and room: "length (granted st p) + length (waiting st p) + 1 < 2 ^ 32"
    and blocked: "\<not> grantable (lock_at st p) ty c False" and idle: "idle st c"
    and st': "lock_at st' = (lock_at st)(p := l)" "next_ticket st' = Suc (next_ticket st)"
      "m_wait st' = (m_wait st)(c := EMPTY)"
      "contexts st' = (contexts st)(c := (contexts st c)\<lparr>pending := Some ((next_ticket st, p), d)\<rparr>)"
  shows "mdl_inv st'"
proof -
  note inv_p = mdl_inv_locks [OF inv, of p]
  have new: "\<forall>u\<in>set (waiting st q). m_ctx u \<noteq> c" for q using idle_not_waiting [OF inv idle] by auto
  have fresh: "(next_ticket st, p) \<notin> granted_refs st c"
    using inv_p by (auto simp: refs_iff lock_at_inv_def)
  have ok: "lock_ok l"
    unfolding l_def using inv_p ty room
    by (intro lock_ok_add_waiting) (auto simp: lock_at_inv_def lock_inv_def t_def)
  have A: "lock_at_inv (next_ticket st') q (lock_at st' q)" for q
  proof (cases "q = p")
    case True
    have "compatible l \<longleftrightarrow> compatible (lock_at st p)" by (simp add: compatible_def l_def)
    with True ok inv_p new [of p] show ?thesis
      by (auto simp: st' lock_at_inv_def lock_inv_def l_def t_def less_SucI)
  next
    case False
    with mdl_inv_locks [OF inv, of q] show ?thesis by (simp add: lock_at_inv_Suc st')
  qed
  have B: "context_inv st' c'" for c'
  proof -
    have g: "granted_refs st' c' = granted_refs st c'"
      by (rule set_pair_eqI) (auto simp: refs_iff st' l_def)
    have w: "waiting_refs st' c' = waiting_refs st c' \<union> (if c' = c then {(next_ticket st, p)} else {})"
      by (rule set_pair_eqI) (auto simp: refs_iff st' l_def t_def)
    show ?thesis using mdl_inv_context [OF inv, of c'] fresh idle_pending_ref [OF idle]
      unfolding context_inv_def g w by (auto simp: st' split: if_splits)
  qed
  have C: "weak_blocked (m_wait st') q (lock_at st' q)" for q
  proof (cases "q = p")
    case True
    have "\<not> grantable l ty c False" using blocked grantable_add_waiting unfolding l_def by blast
    moreover have "\<not> grantable l ty' c' False" if "\<not> grantable (lock_at st p) ty' c' False" for ty' c'
      using that grantable_add_waiting unfolding l_def by blast
    ultimately show ?thesis using True mdl_inv_blocked [OF inv, of p] new [of p]
      by (auto simp: st' weak_blocked_def l_def t_def)
  next
    case False
    with mdl_inv_blocked [OF inv, of q] new [of q] show ?thesis by (auto simp: st' weak_blocked_def)
  qed
  show ?thesis unfolding mdl_inv_def core_inv_def by (intro conjI allI A B C)
qed

section \<open>Rescheduling inside the system\<close>

lemma compatible_iff:
  assumes "lock_ok l" "m_strategy l \<noteq> MDL_backup_lock"
  shows "compatible l \<longleftrightarrow> granted_compatible l"
proof -
  have "m_type t < num_types (m_strategy l)" if "t \<in> set (m_list (m_granted l))" for t
    using assms(1) that queue_ok_type by (auto simp: lock_ok_def)
  then show ?thesis
    by (simp add: compatible_def granted_compatible_def coexist_iff [OF assms(2)])
qed

lemma lock_at_inv_reschedule:
  assumes "lock_at_inv n p l" "reschedule_waiters mx l ws = (l', ws')"
  shows "lock_at_inv n p l'"
proof -
  have inv: "lock_inv l" and ok: "lock_ok l" using assms(1) by (auto simp: lock_at_inv_def lock_inv_def)
  from reschedule_waiters_effect [OF assms(2) inv] obtain gs where
    gs: "subseq gs (m_list (m_waiting l))" "lock_inv l'" "m_strategy l' = m_strategy l"
      "m_list (m_granted l') = m_list (m_granted l) @ gs"
      "m_list (m_waiting l') = filter (\<lambda>u. tk_id u \<notin> tk_id ` set gs) (m_list (m_waiting l))" by blast
  have sub: "set gs \<subseteq> set (m_list (m_waiting l))" using gs(1) by (rule subseq_set_subset)
  have ok': "lock_ok l'" using gs(2) by (simp add: lock_inv_def)
  have "compatible l'" if "mdl_namespace p \<noteq> BACKUP"
  proof -
    have s: "m_strategy l \<noteq> MDL_backup_lock" using that assms(1) by (simp add: lock_at_inv_def strategy_backup_iff)
    then have "granted_compatible l" using that assms(1) compatible_iff [OF ok] by (simp add: lock_at_inv_def)
    then have "granted_compatible l'" by (rule reschedule_waiters_compatible [OF assms(2) inv])
    then show ?thesis using compatible_iff [OF ok'] s gs(3) by simp
  qed
  then show ?thesis using gs sub assms(1) unfolding lock_at_inv_def by auto
qed

lemma weak_blocked_reschedule:
  assumes "lock_inv l" "reschedule_waiters mx l ws = (l', ws')"
  shows "weak_blocked ws' p l'"
proof -
  from reschedule_waiters_effect [OF assms(2,1)] have l': "lock_ok l'" "m_strategy l' = m_strategy l"
    by (auto simp: lock_inv_def)
  have "\<not> grantable l' (m_type t) (m_ctx t) False"
    if "t \<in> set (m_list (m_waiting l'))" "ws' (m_ctx t) = EMPTY" "weak_type (m_strategy l') (m_type t)" for t
  proof -
    have "\<not> can_grant_lock l' (m_type t) (m_ctx t) (skip_high_priority mx l)"
      using reschedule_waiters_blocked [OF assms(2,1) that(1,2)] that(3) l'(2) by (simp add: weak_type_def)
    then show ?thesis using can_grant_lock_grantable [OF l'(1)] by (auto simp: grantable_def)
  qed
  then show ?thesis by (simp add: weak_blocked_def)
qed

lemma context_inv_reschedule:
  assumes ctx: "context_inv st c" and inv: "lock_inv (lock_at st p)"
    and eq: "reschedule_waiters mx (lock_at st p) (m_wait st) = (l', ws')"
  shows "context_inv ((put_lock p l' st)\<lparr>m_wait := ws'\<rparr>) c" (is "context_inv ?st c")
proof -
  from reschedule_waiters_effect [OF eq inv] obtain gs where
    gs: "subseq gs (waiting st p)" "m_list (m_granted l') = granted st p @ gs"
      "m_list (m_waiting l') = filter (\<lambda>u. tk_id u \<notin> tk_id ` set gs) (waiting st p)"
      "ws' = (\<lambda>c. if c \<in> m_ctx ` set gs then GRANTED else m_wait st c)"
      "\<forall>g\<in>set gs. m_wait st (m_ctx g) = EMPTY" by blast
  have sub: "set gs \<subseteq> set (waiting st p)" using gs(1) by (rule subseq_set_subset)
  let ?new = "{(tk_id g, p) | g. g \<in> set gs \<and> m_ctx g = c}"
  have g: "granted_refs ?st c = granted_refs st c \<union> ?new"
    by (rule set_pair_eqI) (auto simp: refs_put refs_iff gs(2))
  have inj: "u = g" if "u \<in> set (waiting st p)" "g \<in> set gs" "tk_id u = tk_id g" for u g
    using lock_inv_waiting [OF inv] that sub by (metis distinct_map inj_onD subsetD)
  have w: "waiting_refs ?st c = waiting_refs st c - ?new"
  proof (rule set_pair_eqI)
    fix i q
    show "(i, q) \<in> waiting_refs ?st c \<longleftrightarrow> (i, q) \<in> waiting_refs st c - ?new"
      using inj by (auto simp: refs_put refs_iff gs(3))
  qed
  show ?thesis
  proof (cases "c \<in> m_ctx ` set gs")
    case False
    then have e: "?new = {}" "ws' c = m_wait st c" by (auto simp: gs(4))
    show ?thesis using ctx e(2) unfolding context_inv_def g w e(1) by simp
  next
    case True
    then obtain g0 where g0: "g0 \<in> set gs" "m_ctx g0 = c" by auto
    then have "m_wait st c = EMPTY" using gs(5) by auto
    then have e: "m_wait st c \<noteq> GRANTED" by simp
    have "?new \<subseteq> waiting_refs st c" using sub by (fastforce simp: refs_iff)
    moreover have "(tk_id g0, p) \<in> ?new" using g0 by blast
    moreover have "waiting_refs st c = pending_ref (contexts st c)" using ctx e by (simp add: context_inv_def)
    moreover have "ws' c = GRANTED" using True gs(4) by simp
    ultimately have "?new = pending_ref (contexts st c)" "ws' c = GRANTED"
      by (auto simp: pending_ref_def split: option.splits)
    then show ?thesis using ctx e unfolding context_inv_def g w by auto
  qed
qed

lemma mdl_inv_reschedule:
  assumes core: "core_inv st" and others: "\<And>q. q \<noteq> p \<Longrightarrow> weak_blocked (m_wait st) q (lock_at st q)"
  shows "mdl_inv (reschedule mx p (lock_at st p) st)"
proof -
  obtain l' ws' where eq: "reschedule_waiters mx (lock_at st p) (m_wait st) = (l', ws')" by fastforce
  have inv_p: "lock_at_inv (next_ticket st) p (lock_at st p)" using core by (simp add: core_inv_def)
  then have inv: "lock_inv (lock_at st p)" by (simp add: lock_at_inv_def)
  let ?st = "(put_lock p l' st)\<lparr>m_wait := ws'\<rparr>"
  have A: "lock_at_inv (next_ticket ?st) q (lock_at ?st q)" for q
    using core lock_at_inv_reschedule [OF inv_p eq] by (simp add: core_inv_def)
  have B: "context_inv ?st c" for c
    using core by (intro context_inv_reschedule [OF _ inv eq]) (simp add: core_inv_def)
  have C: "weak_blocked (m_wait ?st) q (lock_at ?st q)" for q
  proof (cases "q = p")
    case True
    then show ?thesis using weak_blocked_reschedule [OF inv eq] by simp
  next
    case False
    have "ws' c = EMPTY \<Longrightarrow> m_wait st c = EMPTY" for c
      using reschedule_waiters_effect [OF eq inv] by (auto split: if_splits)
    then show ?thesis using others [OF False] False by (auto simp: weak_blocked_def)
  qed
  have "mdl_inv ?st" unfolding mdl_inv_def core_inv_def by (intro conjI allI A B C)
  then show ?thesis by (simp add: reschedule_def eq)
qed

lemma reschedule_put: "reschedule mx p l (put_lock p l' st) = reschedule mx p l st"
  by (simp add: reschedule_def put_lock_def split: prod.splits)

section \<open>Removing a ticket\<close>

lemma lock_at_map_remove:
  "lock_at (map_remove p l st) = (lock_at st)
     (p := if mdl_namespace p = BACKUP then l else new_MDL_lock (strategy_of_namespace (mdl_namespace p)))"
  by (simp add: map_remove_def put_lock_def find_or_insert_def fun_eq_iff)

lemma map_remove_simps [simp]:
  "contexts (map_remove p l st) = contexts st"
  "m_wait (map_remove p l st) = m_wait st"
  "next_ticket (map_remove p l st) = next_ticket st"
  by (simp_all add: map_remove_def)

lemma new_MDL_lock_simps [simp]:
  "m_strategy (new_MDL_lock s) = s"
  "m_granted (new_MDL_lock s) = empty_Ticket_list"
  "m_waiting (new_MDL_lock s) = empty_Ticket_list"
  "m_list empty_Ticket_list = []"
  by (simp_all add: new_MDL_lock_def empty_Ticket_list_def)

lemma lock_at_inv_new: "lock_at_inv n p (new_MDL_lock (strategy_of_namespace (mdl_namespace p)))"
  by (simp add: lock_at_inv_def lock_inv_def lock_ok_def compatible_def num_types_le)

lemma mdl_inv_map_remove:
  assumes core: "core_inv st" and e: "is_empty (lock_at st p)"
    and others: "\<And>q. q \<noteq> p \<Longrightarrow> weak_blocked (m_wait st) q (lock_at st q)"
  shows "mdl_inv (map_remove p (lock_at st p) st)" (is "mdl_inv ?st")
proof -
  have e': "granted st p = []" "waiting st p = []" using e by (auto simp: is_empty_def)
  have A: "lock_at_inv (next_ticket ?st) q (lock_at ?st q)" for q
    using core lock_at_inv_new by (simp add: core_inv_def lock_at_map_remove)
  have B: "context_inv ?st c" for c
  proof -
    have "granted_refs ?st c = granted_refs st c" "waiting_refs ?st c = waiting_refs st c"
      by (rule set_pair_eqI, auto simp: refs_iff lock_at_map_remove e' split: if_splits)+
    then show ?thesis using core by (simp add: core_inv_def context_inv_def)
  qed
  have C: "weak_blocked (m_wait ?st) q (lock_at ?st q)" for q
    using others [of q] by (cases "q = p") (auto simp: lock_at_map_remove e' weak_blocked_def)
  show ?thesis unfolding mdl_inv_def core_inv_def by (intro conjI allI A B C)
qed

lemma mdl_inv_lock_removed:
  assumes core: "core_inv (put_lock p l st)"
    and others: "\<And>q. q \<noteq> p \<Longrightarrow> weak_blocked (m_wait st) q (lock_at st q)"
  shows "mdl_inv (if is_empty l then map_remove p l st else reschedule mx p l st)"
proof -
  have "map_remove p l (put_lock p l st) = map_remove p l st"
    by (simp add: map_remove_def put_lock_def)
  moreover have "is_empty l \<Longrightarrow> mdl_inv (map_remove p l (put_lock p l st))"
    using mdl_inv_map_remove [OF core, of p] others by simp
  moreover have "mdl_inv (reschedule mx p l (put_lock p l st))"
    using mdl_inv_reschedule [OF core, of p] others by simp
  ultimately show ?thesis by (simp add: reschedule_put)
qed

lemma put_lock_put: "put_lock p l (put_lock p l' st) = put_lock p l st"
  by (simp add: put_lock_def)

lemma upd_ctx_commute:
  "upd_ctx c f (put_lock p l st) = put_lock p l (upd_ctx c f st)"
  "upd_ctx c f (map_remove p l st) = map_remove p l (upd_ctx c f st)"
  "upd_ctx c f (reschedule mx p l st) = reschedule mx p l (upd_ctx c f st)"
  by (simp_all add: upd_ctx_def put_lock_def map_remove_def reschedule_def split: prod.splits)

lemma lock_at_inv_remove_granted:
  assumes "lock_at_inv n p l" "t \<in> set (m_list (m_granted l))"
  shows "lock_at_inv n p (l\<lparr>m_granted := remove_ticket t (m_granted l)\<rparr>)"
proof -
  have "length (filter (\<lambda>u. tk_id u \<noteq> tk_id t) (m_list (m_granted l))) \<le> length (m_list (m_granted l))" by simp
  moreover have "length (m_list (m_granted l)) + length (m_list (m_waiting l)) < 2 ^ 32"
    using assms(1) unfolding lock_at_inv_def lock_inv_def lock_ok_def by blast
  ultimately have "length (filter (\<lambda>u. tk_id u \<noteq> tk_id t) (m_list (m_granted l))) + length (m_list (m_waiting l)) < 2 ^ 32"
    by linarith
  moreover have "queue_ok (num_types (m_strategy l)) (remove_ticket t (m_granted l))"
    using lock_at_inv_queues(1) [OF assms(1)] assms(2) by (rule queue_ok_remove)
  ultimately have "lock_ok (l\<lparr>m_granted := remove_ticket t (m_granted l)\<rparr>)"
    using assms(1) by (auto simp: lock_at_inv_def lock_inv_def lock_ok_def)
  then show ?thesis using assms(1) by (auto simp: lock_at_inv_def lock_inv_def compatible_def)
qed

lemma lock_at_inv_remove_waiting:
  assumes "lock_at_inv n p l" "t \<in> set (m_list (m_waiting l))"
  shows "lock_at_inv n p (l\<lparr>m_waiting := remove_ticket t (m_waiting l)\<rparr>)"
proof -
  have "length (filter (\<lambda>u. tk_id u \<noteq> tk_id t) (m_list (m_waiting l))) \<le> length (m_list (m_waiting l))" by simp
  moreover have "length (m_list (m_granted l)) + length (m_list (m_waiting l)) < 2 ^ 32"
    using assms(1) unfolding lock_at_inv_def lock_inv_def lock_ok_def by blast
  ultimately have "length (m_list (m_granted l)) + length (filter (\<lambda>u. tk_id u \<noteq> tk_id t) (m_list (m_waiting l))) < 2 ^ 32"
    by linarith
  moreover have "queue_ok (num_types (m_strategy l)) (remove_ticket t (m_waiting l))"
    using lock_at_inv_queues(2) [OF assms(1)] assms(2) by (rule queue_ok_remove)
  ultimately have "lock_ok (l\<lparr>m_waiting := remove_ticket t (m_waiting l)\<rparr>)"
    using assms(1) by (auto simp: lock_at_inv_def lock_inv_def lock_ok_def)
  then show ?thesis using assms(1) by (auto simp: lock_at_inv_def lock_inv_def compatible_def distinct_map_filter)
qed

lemma same_id:
  assumes "lock_at_inv n p l" "t \<in> set (m_list (m_granted l))" "u \<in> set (m_list (m_granted l))" "tk_id u = tk_id t"
  shows "u = t"
  using lock_at_inv_queues(1) [OF assms(1)] assms(2-4) by (metis distinct_map inj_onD queue_ok_def)

lemma core_inv_unlink_granted:
  assumes inv: "mdl_inv st" and r: "r \<in> set (m_tickets (contexts st c) d)"
    and t: "t \<in> set (granted st (snd r))" "tk_id t = fst r" "m_ctx t = c"
  shows "core_inv (put_lock (snd r) ((lock_at st (snd r))\<lparr>m_granted := remove_ticket t (m_granted (lock_at st (snd r)))\<rparr>)
           (upd_ctx c (unlink_ticket d r) st))" (is "core_inv ?st")
proof -
  note inv_p = mdl_inv_locks [OF inv, of "snd r"]
  have A: "lock_at_inv (next_ticket ?st) q (lock_at ?st q)" for q
    using lock_at_inv_remove_granted [OF inv_p t(1)] mdl_inv_locks [OF inv, of q] by simp
  have B: "context_inv ?st c'" for c'
  proof -
    have r': "r \<in> set (all_tickets (contexts st c))" using r by (rule all_tickets_mem)
    have same: "tk_id u = fst r \<longleftrightarrow> u = t" if "u \<in> set (granted st (snd r))" for u
      using same_id [OF inv_p t(1) that] t(2) by auto
    have g: "granted_refs ?st c' = granted_refs st c' - (if c' = c then {r} else {})"
      using t same by (cases r, intro set_pair_eqI) (auto simp: refs_put refs_iff)
    have w: "waiting_refs ?st c' = waiting_refs st c'"
      by (rule set_pair_eqI) (auto simp: refs_put refs_iff)
    have ctx: "context_inv st c'" using inv by (rule mdl_inv_context)
    then have "all_tickets (contexts ?st c') = all_tickets (contexts st c')" if "c' \<noteq> c" using that by simp
    moreover have "distinct (all_tickets (contexts ?st c)) \<and>
        set (all_tickets (contexts ?st c)) = set (all_tickets (contexts st c)) - {r}"
      using all_tickets_unlink [OF _ r] mdl_inv_context [OF inv, of c] by (simp add: context_inv_def)
    ultimately show ?thesis using ctx r' unfolding context_inv_def g w
      by (cases "c' = c") (auto split: if_splits)
  qed
  show ?thesis unfolding core_inv_def by (intro conjI allI A B)
qed

lemma mdl_inv_release_lock:
  assumes inv: "mdl_inv st" and r: "r \<in> set (m_tickets (contexts st c) d)"
  shows "mdl_inv (release_lock mx c d r st)"
proof -
  obtain l t where t: "mdl_locks st (snd r) = Some l" "lock_at st (snd r) = l"
    "t \<in> set (m_list (m_granted l))" "tk_id t = fst r" "m_ctx t = c"
    "find (\<lambda>u. tk_id u = fst r) (m_list (m_granted l)) = Some t"
    using held_ticket [OF inv r] by metis
  let ?l = "l\<lparr>m_granted := remove_ticket t (m_granted l)\<rparr>" and ?st = "upd_ctx c (unlink_ticket d r) st"
  have "release_lock mx c d r st =
      (if is_empty ?l then map_remove (snd r) ?l ?st else reschedule mx (snd r) ?l ?st)"
    using t by (simp add: release_lock_def lock_remove_ticket_def upd_ctx_commute)
  moreover have "core_inv (put_lock (snd r) ?l ?st)"
    using core_inv_unlink_granted [OF inv r] t by simp
  ultimately show ?thesis
    using mdl_inv_lock_removed [of "snd r" ?l ?st mx] mdl_inv_blocked [OF inv] by simp
qed

lemma core_inv_unlink_waiting:
  assumes inv: "mdl_inv st" and p: "pending (contexts st c) = Some (r, d)" and e: "m_wait st c \<noteq> GRANTED"
    and t: "t \<in> set (waiting st (snd r))" "tk_id t = fst r" "m_ctx t = c"
  shows "core_inv (put_lock (snd r) ((lock_at st (snd r))\<lparr>m_waiting := remove_ticket t (m_waiting (lock_at st (snd r)))\<rparr>)
           (upd_ctx c (\<lambda>x. x\<lparr>pending := None\<rparr>) (done_waiting_for c st)))" (is "core_inv ?st")
proof -
  note inv_p = mdl_inv_locks [OF inv, of "snd r"]
  have same: "tk_id u = fst r \<longleftrightarrow> u = t" if "u \<in> set (waiting st (snd r))" for u
    using lock_at_inv_queues(2) [OF inv_p] that t(1,2) by (metis distinct_map inj_onD queue_ok_def)
  have A: "lock_at_inv (next_ticket ?st) q (lock_at ?st q)" for q
    using lock_at_inv_remove_waiting [OF inv_p t(1)] mdl_inv_locks [OF inv, of q]
    by (simp add: done_waiting_for_def)
  have B: "context_inv ?st c'" for c'
  proof -
    have g: "granted_refs ?st c' = granted_refs st c'"
      by (rule set_pair_eqI) (auto simp: refs_put refs_iff done_waiting_for_def)
    have w: "waiting_refs ?st c' = waiting_refs st c' - (if c' = c then {r} else {})"
      using t same by (cases r, intro set_pair_eqI) (auto simp: refs_put refs_iff done_waiting_for_def)
    have "pending_ref (contexts st c) = {r}" using p by (simp add: pending_ref_def)
    then show ?thesis using mdl_inv_context [OF inv, of c'] e unfolding context_inv_def g w
      by (cases "c' = c") (auto simp: done_waiting_for_def split: if_splits)
  qed
  show ?thesis unfolding core_inv_def by (intro conjI allI A B)
qed

lemma mdl_inv_acquire_lock_end:
  assumes inv: "mdl_inv st" and p: "pending (contexts st c) = Some (r, d)" "m_wait st c \<noteq> EMPTY"
    and eq: "acquire_lock_end mx c st = (err, st')"
  shows "mdl_inv st'"
proof (cases "m_wait st c = GRANTED")
  case True
  let ?st = "upd_ctx c (push_front d r) (upd_ctx c (\<lambda>x. x\<lparr>pending := None\<rparr>) (done_waiting_for c st))"
  have A: "lock_at_inv (next_ticket ?st) q (lock_at ?st q)" for q
    using mdl_inv_locks [OF inv, of q] by (simp add: done_waiting_for_def)
  have B: "context_inv ?st c'" for c'
    using mdl_inv_context [OF inv, of c'] p(1) True
    by (cases "c' = c") (auto simp: context_inv_def done_waiting_for_def pending_ref_def)
  have C: "weak_blocked (m_wait ?st) q (lock_at ?st q)" for q
    using mdl_inv_blocked [OF inv, of q] by (simp add: done_waiting_for_def)
  have st': "st' = ?st" using eq p(1) True by (simp add: acquire_lock_end_def)
  show ?thesis unfolding st' mdl_inv_def core_inv_def by (intro conjI allI A B C)
next
  case False
  then have "r \<in> waiting_refs st c"
    using mdl_inv_context [OF inv, of c] p(1) by (simp add: context_inv_def pending_ref_def)
  then obtain t where t: "t \<in> set (waiting st (snd r))" "tk_id t = fst r" "m_ctx t = c"
    by (auto simp: waiting_refs_def)
  then obtain l where l: "mdl_locks st (snd r) = Some l" "lock_at st (snd r) = l"
    by (cases "mdl_locks st (snd r)") (auto simp: find_or_insert_def)
  have "distinct (map tk_id (m_list (m_waiting l)))"
    using lock_at_inv_queues(2) [OF mdl_inv_locks [OF inv, of "snd r"]] l by (simp add: queue_ok_def)
  then have f: "find (\<lambda>u. tk_id u = fst r) (m_list (m_waiting l)) = Some t"
    using find_by_id [of _ t] t l by simp
  let ?l = "l\<lparr>m_waiting := remove_ticket t (m_waiting l)\<rparr>"
    and ?st = "upd_ctx c (\<lambda>x. x\<lparr>pending := None\<rparr>) (done_waiting_for c st)"
  have "st' = (if is_empty ?l then map_remove (snd r) ?l ?st else reschedule mx (snd r) ?l ?st)"
    using eq False p(1) l(1) f by (simp add: acquire_lock_end_def lock_remove_ticket_def Let_def)
  moreover have "core_inv (put_lock (snd r) ?l ?st)"
    using core_inv_unlink_waiting [OF inv p(1) False t] l by simp
  ultimately show ?thesis
    using mdl_inv_lock_removed [of "snd r" ?l ?st mx] mdl_inv_blocked [OF inv]
    by (simp add: done_waiting_for_def)
qed

section \<open>Acquiring\<close>

lemma find_ticket_Some:
  assumes "find_ticket st c req = Some (d, r)"
  shows "r \<in> set (m_tickets (contexts st c) d)" "ticket_serves st req r"
proof -
  have "find (\<lambda>(d, r). ticket_serves st req r)
     (concat (map (\<lambda>d. map (Pair d) (m_tickets (contexts st c) d)) (durations_from (rq_duration req)))) = Some (d, r)"
    using assms by (simp add: find_ticket_def)
  then show "r \<in> set (m_tickets (contexts st c) d)" "ticket_serves st req r"
    by (auto simp: find_Some_iff dest!: nth_mem)
qed

lemma compatible_weaker:
  assumes "lock_at_inv n p l" "mdl_namespace p \<noteq> BACKUP" "t \<in> set (m_list (m_granted l))"
    and "has_stronger_or_equal_type (m_strategy l) (m_type t) ty"
    and "g \<in> set (m_list (m_granted l))" "m_ctx g \<noteq> m_ctx t"
  shows "\<not> incompat_granted (m_strategy l) ty (m_type g)"
proof -
  have "m_type g < 16" using lock_at_inv_queues(1) [OF assms(1)] assms(5) by (simp add: queue_ok_type)
  moreover have "\<not> incompat_granted (m_strategy l) (m_type t) (m_type g)"
    using assms(1-3,5,6) by (auto simp: lock_at_inv_def compatible_def)
  ultimately show ?thesis using has_strongerD assms(4) by blast
qed

lemma mdl_inv_clone:
  assumes inv: "mdl_inv st" and idle: "idle st c" and ok: "request_ok st req"
    and f: "find_ticket st c req = Some (d, r)" and cl: "clone_ticket c req r alloc st = Some (r', st')"
  shows "mdl_inv st'"
proof -
  have r: "r \<in> set (m_tickets (contexts st c) d)" and s: "ticket_serves st req r"
    using find_ticket_Some [OF f] by auto
  obtain l t where t: "mdl_locks st (snd r) = Some l" "lock_at st (snd r) = l"
    "t \<in> set (m_list (m_granted l))" "tk_id t = fst r" "m_ctx t = c"
    "find (\<lambda>u. tk_id u = fst r) (m_list (m_granted l)) = Some t"
    using held_ticket [OF inv r] by metis
  note inv_p = mdl_inv_locks [OF inv, of "snd r"]
  have p: "m_ptr (rq_key req) = snd r" and st: "has_stronger_or_equal_type (m_strategy l) (m_type t) (rq_type req)"
    using s t by (auto simp: ticket_serves_def lookup_ticket_def)
  have ty: "rq_type req < num_types (m_strategy (lock_at st (snd r)))"
    using ok inv_p p by (simp add: request_ok_def lock_at_inv_def)
  have room: "length (granted st (snd r)) + length (waiting st (snd r)) + 1 < 2 ^ 32"
    using ok p by (simp add: request_ok_def)
  have comp: "\<forall>g\<in>set (granted st (snd r)). m_ctx g \<noteq> c \<longrightarrow>
      \<not> incompat_granted (m_strategy (lock_at st (snd r))) (rq_type req) (m_type g)"
    if "mdl_namespace (snd r) \<noteq> BACKUP"
    using compatible_weaker [OF inv_p that] t st by auto
  show ?thesis
    using mdl_inv_add_granted [OF inv ty room comp idle, of "rq_duration req"] cl
    by (auto simp: clone_ticket_def Let_def split: if_splits)
qed

lemma mdl_inv_next_ticket: "mdl_inv st \<Longrightarrow> mdl_inv (st\<lparr>next_ticket := Suc (next_ticket st)\<rparr>)"
  by (erule mdl_inv_frame) simp_all

lemma put_lock_same: "lock_at (put_lock p (lock_at st p) st0) = lock_at st0" if "lock_at st0 p = lock_at st p"
  using that by (auto simp: fun_eq_iff)

lemma mdl_inv_try_acquire:
  assumes inv: "mdl_inv st" and idle: "idle st c" and ok: "request_ok st req"
    and eq: "try_acquire_lock_impl c req alloc st = (res, st')"
  shows "mdl_inv st'"
proof (cases "find_ticket st c req")
  case (Some dr)
  obtain d r where dr: "dr = (d, r)" by (cases dr)
  with Some eq mdl_inv_clone [OF inv idle ok, of d r alloc] inv show ?thesis
    by (auto simp: try_acquire_lock_impl_def split: if_splits option.splits)
next
  case None
  let ?p = "m_ptr (rq_key req)"
  have ty: "rq_type req < num_types (m_strategy (lock_at st ?p))"
    using ok mdl_inv_locks [OF inv, of ?p] by (simp add: request_ok_def lock_at_inv_def)
  have room: "length (granted st ?p) + length (waiting st ?p) + 1 < 2 ^ 32"
    using ok by (simp add: request_ok_def)
  have lok: "lock_ok (lock_at st ?p)" using mdl_inv_locks [OF inv, of ?p] by (simp add: lock_at_inv_def lock_inv_def)
  show ?thesis
  proof (cases "can_grant_lock (lock_at st ?p) (rq_type req) c False")
    case True
    then have "\<forall>g\<in>set (granted st ?p). m_ctx g \<noteq> c \<longrightarrow>
        \<not> incompat_granted (m_strategy (lock_at st ?p)) (rq_type req) (m_type g)"
      using can_grant_lock_grantable [OF lok] by (auto simp: grantable_def)
    from mdl_inv_add_granted [OF inv ty room this idle, of "rq_duration req"] True None eq inv
    show ?thesis by (auto simp: try_acquire_lock_impl_def Let_def split: if_splits)
  next
    case False
    have "mdl_inv (put_lock ?p (lock_at st ?p) (st\<lparr>next_ticket := Suc (next_ticket st)\<rparr>))"
      by (rule mdl_inv_frame [OF inv]) (simp_all add: fun_eq_iff)
    with False None eq inv show ?thesis
      by (auto simp: try_acquire_lock_impl_def Let_def split: if_splits)
  qed
qed

lemma try_acquire_conflict:
  assumes "mdl_inv st" "try_acquire_lock_impl c req alloc st = (Conflict t, st1)"
  shows "t = \<lparr>tk_id = next_ticket st, m_type = rq_type req, m_ctx = c\<rparr>"
    "st1 = put_lock (m_ptr (rq_key req)) (lock_at st (m_ptr (rq_key req))) (st\<lparr>next_ticket := Suc (next_ticket st)\<rparr>)"
    "\<not> grantable (lock_at st (m_ptr (rq_key req))) (rq_type req) c False"
proof -
  have "lock_ok (lock_at st (m_ptr (rq_key req)))"
    using mdl_inv_locks [OF assms(1)] by (simp add: lock_at_inv_def lock_inv_def)
  note g = can_grant_lock_grantable [OF this]
  from assms(2) show "t = \<lparr>tk_id = next_ticket st, m_type = rq_type req, m_ctx = c\<rparr>"
    "st1 = put_lock (m_ptr (rq_key req)) (lock_at st (m_ptr (rq_key req))) (st\<lparr>next_ticket := Suc (next_ticket st)\<rparr>)"
    "\<not> grantable (lock_at st (m_ptr (rq_key req))) (rq_type req) c False"
    by (auto simp: try_acquire_lock_impl_def Let_def g split: option.splits if_splits)
qed

lemma mdl_inv_acquire_begin:
  assumes inv: "mdl_inv st" and idle: "idle st c" and ok: "request_ok st req"
    and eq: "acquire_lock_begin c req no_wait alloc st = (res, st')"
  shows "mdl_inv st'"
proof -
  obtain res1 st1 where t: "try_acquire_lock_impl c req alloc st = (res1, st1)" by fastforce
  have inv1: "mdl_inv st1" by (rule mdl_inv_try_acquire [OF inv idle ok t])
  show ?thesis
  proof (cases "\<exists>t. res1 = Conflict t \<and> \<not> no_wait")
    case False
    then have "st' = st1" using eq t by (auto simp: acquire_lock_begin_def split: acquire_result.splits)
    with inv1 show ?thesis by simp
  next
    case True
    let ?p = "m_ptr (rq_key req)"
    from True obtain tk where tk: "res1 = Conflict tk" "\<not> no_wait" by blast
    note cf = try_acquire_conflict [OF inv t [unfolded tk(1)]]
    have ty: "rq_type req < num_types (m_strategy (lock_at st ?p))"
      using ok mdl_inv_locks [OF inv, of ?p] by (simp add: request_ok_def lock_at_inv_def)
    have room: "length (granted st ?p) + length (waiting st ?p) + 1 < 2 ^ 32"
      using ok by (simp add: request_ok_def)
    show ?thesis
      by (rule mdl_inv_add_waiting [OF inv ty room cf(3) idle, where d = "rq_duration req"])
        (use eq t tk cf(1,2) in \<open>auto simp: acquire_lock_begin_def Let_def reset_status_def fun_eq_iff\<close>)
  qed
qed

section \<open>Changing the type of a granted ticket\<close>

definition retype :: "MDL_ticket \<Rightarrow> enum_mdl_type \<Rightarrow> MDL_lock \<Rightarrow> MDL_lock" where
  "retype t ty l = l\<lparr>m_granted := add_ticket (t\<lparr>m_type := ty\<rparr>) (remove_ticket t (m_granted l))\<rparr>"

lemma retype_simps [simp]:
  "m_strategy (retype t ty l) = m_strategy l" "m_waiting (retype t ty l) = m_waiting l"
  "m_list (m_granted (retype t ty l)) = filter (\<lambda>u. tk_id u \<noteq> tk_id t) (m_list (m_granted l)) @ [t\<lparr>m_type := ty\<rparr>]"
  by (simp_all add: retype_def)

lemma lock_at_inv_retype:
  assumes l: "lock_at_inv n p l" and t: "t \<in> set (m_list (m_granted l))" and ty: "ty < num_types (m_strategy l)"
    and comp: "mdl_namespace p \<noteq> BACKUP \<Longrightarrow>
      \<forall>g\<in>set (m_list (m_granted l)). m_ctx g \<noteq> m_ctx t \<longrightarrow> \<not> incompat_granted (m_strategy l) ty (m_type g)"
  shows "lock_at_inv n p (retype t ty l)"
proof -
  let ?r = "remove_ticket t (m_granted l)" and ?t = "t\<lparr>m_type := ty\<rparr>"
  have q: "queue_ok (num_types (m_strategy l)) ?r"
    using lock_at_inv_queues(1) [OF l] t by (rule queue_ok_remove)
  have d: "distinct (map tk_id (m_list (m_granted l)))"
    using lock_at_inv_queues(1) [OF l] by (simp add: queue_ok_def)
  have len: "Suc (length (m_list ?r)) = length (m_list (m_granted l))"
    using length_unlink [OF d t] by simp
  have sum: "length (m_list (m_granted l)) + length (m_list (m_waiting l)) < 2 ^ 32"
    using l unfolding lock_at_inv_def lock_inv_def lock_ok_def by blast
  have "queue_ok (num_types (m_strategy l)) (add_ticket ?t ?r)"
    by (rule queue_ok_add [OF q]) (use ty len sum in auto)
  moreover have "tk_id t \<notin> tk_id ` set (m_list (m_waiting l))"
    using l t unfolding lock_at_inv_def lock_inv_def lock_ok_def by blast
  ultimately have "lock_ok (retype t ty l)"
    using l len sum by (auto simp: lock_at_inv_def lock_inv_def lock_ok_def retype_def)
  moreover have "compatible (retype t ty l)" if ns: "mdl_namespace p \<noteq> BACKUP"
    using comp [OF ns] l ns incompat_granted_sym_ns [OF ns l _ ty]
    by (auto simp: compatible_def lock_at_inv_def)
  ultimately show ?thesis using l t by (auto simp: lock_at_inv_def lock_inv_def)
qed

lemma core_inv_retype:
  assumes core: "core_inv st" and t: "t \<in> set (granted st p)" and ty: "ty < num_types (m_strategy (lock_at st p))"
    and comp: "mdl_namespace p \<noteq> BACKUP \<Longrightarrow>
      \<forall>g\<in>set (granted st p). m_ctx g \<noteq> m_ctx t \<longrightarrow> \<not> incompat_granted (m_strategy (lock_at st p)) ty (m_type g)"
  shows "core_inv (put_lock p (retype t ty (lock_at st p)) st)" (is "core_inv ?st")
proof -
  have inv_p: "lock_at_inv (next_ticket st) p (lock_at st p)" using core by (simp add: core_inv_def)
  have A: "lock_at_inv (next_ticket ?st) q (lock_at ?st q)" for q
    using core lock_at_inv_retype [OF inv_p t ty comp] by (simp add: core_inv_def)
  have B: "context_inv ?st c" for c
  proof -
    have same: "tk_id u = tk_id t \<longleftrightarrow> u = t" if "u \<in> set (granted st p)" for u
      using same_id [OF inv_p t that] by auto
    have "granted_refs ?st c = granted_refs st c"
      using t same by (intro set_pair_eqI) (auto simp: refs_put refs_iff)
    moreover have "waiting_refs ?st c = waiting_refs st c"
      by (intro set_pair_eqI) (auto simp: refs_put refs_iff)
    ultimately show ?thesis using core by (simp add: core_inv_def context_inv_def)
  qed
  show ?thesis unfolding core_inv_def by (intro conjI allI A B)
qed

lemma mdl_inv_downgrade:
  assumes inv: "mdl_inv st" and r: "r \<in> set (m_tickets (contexts st c) d)"
    and ty: "ty < num_types (m_strategy (lock_at st (snd r)))"
  shows "mdl_inv (downgrade_ticket mx r ty st)"
proof -
  obtain l t where t: "mdl_locks st (snd r) = Some l" "lock_at st (snd r) = l"
    "t \<in> set (m_list (m_granted l))" "tk_id t = fst r" "m_ctx t = c"
    "find (\<lambda>u. tk_id u = fst r) (m_list (m_granted l)) = Some t"
    using held_ticket [OF inv r] by metis
  let ?p = "snd r"
  show ?thesis
  proof (cases "m_type t = ty \<or> \<not> has_stronger_or_equal_type (m_strategy l) (m_type t) ty")
    case True
    have "mdl_inv ((put_lock ?p l st)\<lparr>m_wait := m_wait st\<rparr>)"
      by (rule mdl_inv_frame [OF inv]) (use t in \<open>auto simp: fun_eq_iff\<close>)
    with True t show ?thesis by (auto simp: downgrade_ticket_def downgrade_lock_def)
  next
    case False
    have core: "core_inv st" using inv by (simp add: mdl_inv_def)
    have "core_inv (put_lock ?p (retype t ty (lock_at st ?p)) st)"
      using t ty False compatible_weaker [OF mdl_inv_locks [OF inv, of ?p]]
      by (intro core_inv_retype [OF core]) auto
    from mdl_inv_reschedule [OF this, of ?p mx] mdl_inv_blocked [OF inv]
    have "mdl_inv (reschedule mx ?p (retype t ty (lock_at st ?p)) st)" by (simp add: reschedule_put)
    then show ?thesis using False t
      by (simp add: downgrade_ticket_def downgrade_lock_def reschedule_def retype_def)
  qed
qed

text \<open>A change of the granted list that keeps, for every ticket, one at least as strong.\<close>

lemma has_stronger_refl [simp]: "has_stronger_or_equal_type s a a"
  by (simp add: has_stronger_or_equal_type_def)

lemma weak_blocked_stronger:
  assumes l: "lock_at_inv n p l" and l': "lock_at_inv m p l'" and b: "weak_blocked ws p l"
    and w: "m_waiting l' = m_waiting l"
    and up: "mdl_namespace p \<noteq> BACKUP \<Longrightarrow> \<forall>g\<in>set (m_list (m_granted l)). \<exists>g'\<in>set (m_list (m_granted l')).
      m_ctx g' = m_ctx g \<and> has_stronger_or_equal_type (m_strategy l) (m_type g') (m_type g)"
  shows "weak_blocked ws p l'"
proof (cases "mdl_namespace p = BACKUP")
  case True
  then show ?thesis by (simp add: weak_blocked_def)
next
  case ns: False
  have s: "m_strategy l' = m_strategy l" using l l' by (simp add: lock_at_inv_def)
  have "grantable l (m_type t) (m_ctx t) False"
    if t: "t \<in> set (m_list (m_waiting l))" and g: "grantable l' (m_type t) (m_ctx t) False" for t
  proof -
    have ty: "m_type t < num_types (m_strategy l)" "m_type t < 16"
      using lock_at_inv_queues(2) [OF l] t by (simp_all add: queue_ok_type)
    have "\<not> incompat_granted (m_strategy l) (m_type t) (m_type h)"
      if h: "h \<in> set (m_list (m_granted l))" "m_ctx h \<noteq> m_ctx t" for h
    proof -
      from up [OF ns] h(1) obtain h' where h': "h' \<in> set (m_list (m_granted l'))" "m_ctx h' = m_ctx h"
        "has_stronger_or_equal_type (m_strategy l) (m_type h') (m_type h)" by blast
      with g h(2) have "\<not> incompat_granted (m_strategy l) (m_type t) (m_type h')"
        by (auto simp: grantable_def s)
      then have "\<not> incompat_granted (m_strategy l) (m_type h') (m_type t)"
        using incompat_granted_sym_ns [OF ns l' h'(1)] ty(1) s by simp
      from has_strongerD [OF h'(3) ty(2) this] show ?thesis
        using incompat_granted_sym_ns [OF ns l h(1) ty(1)] by simp
    qed
    with g show ?thesis by (auto simp: grantable_def w s)
  qed
  then show ?thesis by (rule weak_blocked_mono [OF b w s])
qed

lemma mdl_inv_merge:
  assumes inv: "mdl_inv st" and idle: "idle st c" and r: "r \<in> set (m_tickets (contexts st c) d)"
    and ok: "upgrade_ok st c svp r x ty"
  shows "mdl_inv (upgrade_merge c svp r x ty st)"
proof -
  let ?p = "snd r"
  have x: "x \<in> set (m_tickets (contexts st c) MDL_TRANSACTION)" and p: "snd x = ?p"
    using ok by (auto simp: upgrade_ok_def)
  obtain l t where t: "mdl_locks st ?p = Some l" "lock_at st ?p = l"
    "t \<in> set (m_list (m_granted l))" "tk_id t = fst r" "m_ctx t = c"
    "find (\<lambda>u. tk_id u = fst r) (m_list (m_granted l)) = Some t"
    using held_ticket [OF inv r] by metis
  obtain xt where xt: "xt \<in> set (m_list (m_granted l))" "tk_id xt = fst x" "m_ctx xt = c"
    "find (\<lambda>u. tk_id u = fst x) (m_list (m_granted l)) = Some xt"
    using held_ticket [OF inv x] t(1) p by (metis option.inject)
  have look: "lookup_ticket st r = Some t" "lookup_ticket st x = Some xt"
    using t xt p by (simp_all add: lookup_ticket_def)
  have ty: "ty < num_types (m_strategy l)" using ok t(2) by (simp add: upgrade_ok_def)
  have up: "mdl_namespace ?p \<noteq> BACKUP \<Longrightarrow> has_stronger_or_equal_type (m_strategy l) ty (m_type t)"
    using ok look t(2) by (simp add: upgrade_ok_def)
  have inv_p: "lock_at_inv (next_ticket st) ?p l" using mdl_inv_locks [OF inv, of ?p] t(2) by simp
  have comp: "\<not> incompat_granted (m_strategy l) ty (m_type g)"
    if "mdl_namespace ?p \<noteq> BACKUP" "g \<in> set (m_list (m_granted l))" "m_ctx g \<noteq> c" for g
  proof -
    have "has_stronger_or_equal_type (m_strategy l) (m_type xt) ty"
      using ok look t(2) by (auto simp: upgrade_ok_def split: if_splits)
    with compatible_weaker [OF inv_p that(1) xt(1) _ that(2)] xt(3) that(3) show ?thesis by simp
  qed
  define st1 where "st1 = (if has_lock c svp x st then st
    else put_lock ?p (l\<lparr>m_granted := remove_ticket xt (m_granted l)\<rparr>) (upd_ctx c (unlink_ticket MDL_TRANSACTION x) st))"
  have core1: "core_inv st1"
    using core_inv_unlink_granted [OF inv x, of xt] inv xt t(2) p by (simp add: st1_def mdl_inv_def)
  have l1: "lock_at st1 ?p = (if has_lock c svp x st then l else l\<lparr>m_granted := remove_ticket xt (m_granted l)\<rparr>)"
    using t(2) by (simp add: st1_def)
  have ids: "tk_id xt \<noteq> tk_id t" if "\<not> has_lock c svp x st"
    using that ok look t(4) xt(2) p by (auto simp: upgrade_ok_def prod_eq_iff)
  have t1: "t \<in> set (granted st1 ?p)" using t(3) ids by (auto simp: l1)
  let ?l = "retype t ty (lock_at st1 ?p)"
  have core2: "core_inv (put_lock ?p ?l st1)"
    by (rule core_inv_retype [OF core1 t1]) (use ty comp t(5) in \<open>auto simp: l1 split: if_splits\<close>)
  have "upgrade_merge c svp r x ty st = put_lock ?p ?l st1"
    unfolding l1 unfolding st1_def
    using t(1) look by (simp add: upgrade_merge_def retype_def put_lock_put upd_ctx_commute)
  moreover have blk: "weak_blocked (m_wait (put_lock ?p ?l st1)) q (lock_at (put_lock ?p ?l st1) q)" for q
  proof (cases "q = ?p")
    case False
    then show ?thesis using mdl_inv_blocked [OF inv, of q] by (simp add: st1_def)
  next
    case True
    have inv2: "lock_at_inv (next_ticket st1) ?p ?l" using core2 by (simp add: core_inv_def split: if_splits)
    have same: "tk_id u = tk_id t \<longleftrightarrow> u = t" "tk_id u = tk_id xt \<longleftrightarrow> u = xt" if "u \<in> set (m_list (m_granted l))" for u
      using same_id [OF inv_p t(3) that] same_id [OF inv_p xt(1) that] by auto
    have "weak_blocked (m_wait st) ?p ?l"
    proof (rule weak_blocked_stronger [OF inv_p inv2])
      show "weak_blocked (m_wait st) ?p l" using mdl_inv_blocked [OF inv, of ?p] t(2) by simp
      show "m_waiting ?l = m_waiting l" by (simp add: l1)
      show "\<forall>g\<in>set (m_list (m_granted l)). \<exists>g'\<in>set (m_list (m_granted ?l)).
          m_ctx g' = m_ctx g \<and> has_stronger_or_equal_type (m_strategy l) (m_type g') (m_type g)"
        if "mdl_namespace ?p \<noteq> BACKUP"
        using up [OF that] xt(3) t(5) same ok look t(2) by (auto simp: l1 upgrade_ok_def)
    qed
    moreover have "m_wait st1 = m_wait st" by (simp add: st1_def)
    ultimately show ?thesis using True by simp
  qed
  moreover have "mdl_inv (put_lock ?p ?l st1)" unfolding mdl_inv_def by (intro conjI allI core2 blk)
  ultimately show ?thesis by simp
qed

section \<open>The invariant holds in every reachable state\<close>

lemma set_lock_duration_tickets:
  assumes "distinct (all_tickets x)" "r \<in> set (m_tickets x MDL_TRANSACTION)"
  shows "set (all_tickets (push_front d r (unlink_ticket MDL_TRANSACTION r x))) = set (all_tickets x)"
    "distinct (all_tickets (push_front d r (unlink_ticket MDL_TRANSACTION r x)))"
  using all_tickets_unlink [OF assms] all_tickets_mem [OF assms(2)] by auto

lemma explicit_all_tickets:
  "set (all_tickets (contexts (set_explicit_duration_for_all_locks c st) c')) = set (all_tickets (contexts st c'))"
  "distinct (all_tickets (contexts (set_explicit_duration_for_all_locks c st) c')) = distinct (all_tickets (contexts st c'))"
  by (auto simp: set_explicit_duration_for_all_locks_def all_tickets_def)

lemma transaction_all_tickets:
  "set (all_tickets (contexts (set_transaction_duration_for_all_locks c st) c')) = set (all_tickets (contexts st c'))"
  "distinct (all_tickets (contexts (set_transaction_duration_for_all_locks c st) c')) = distinct (all_tickets (contexts st c'))"
  by (auto simp: set_transaction_duration_for_all_locks_def all_tickets_def)

lemma mdl_inv_init: "mdl_inv mdl_init"
proof -
  have [simp]: "lock_at mdl_init p = new_MDL_lock (strategy_of_namespace (mdl_namespace p))" for p
    by (auto simp: mdl_init_def find_or_insert_def backup_key_def mdl_namespace_init)
  have A: "lock_at_inv (next_ticket mdl_init) p (lock_at mdl_init p)" for p by (simp add: lock_at_inv_new)
  have B: "context_inv mdl_init c" for c
    by (auto simp: context_inv_def granted_refs_def waiting_refs_def)
      (auto simp: mdl_init_def new_MDL_context_def all_tickets_def pending_ref_def)
  have C: "weak_blocked (m_wait mdl_init) p (lock_at mdl_init p)" for p by (simp add: weak_blocked_def)
  show ?thesis unfolding mdl_inv_def core_inv_def by (intro conjI allI A B C)
qed

lemma mdl_inv_local_steps:
  assumes "mdl_inv st"
  shows "mdl_inv (will_wait_for c r st)" "mdl_inv (mark_victim c st)" "mdl_inv (reset_overweight c st)"
    "mdl_inv (timed_wait_end c killed on_timeout st)"
    "mdl_inv (set_explicit_duration_for_all_locks c st)" "mdl_inv (set_transaction_duration_for_all_locks c st)"
proof -
  show "mdl_inv (will_wait_for c r st)"
    by (rule mdl_inv_frame [OF assms]) (simp_all add: will_wait_for_def)
  show "mdl_inv (mark_victim c st)"
    by (rule mdl_inv_frame [OF assms]) (auto simp: mark_victim_def set_status_def split: if_splits)
  show "mdl_inv (reset_overweight c st)"
    by (rule mdl_inv_frame [OF assms]) (simp_all add: reset_overweight_def)
  show "mdl_inv (timed_wait_end c killed on_timeout st)"
    by (rule mdl_inv_frame [OF assms]) (auto simp: timed_wait_end_def split: if_splits)
  show "mdl_inv (set_explicit_duration_for_all_locks c st)"
    by (rule mdl_inv_frame [OF assms])
      (simp_all add: explicit_all_tickets, simp_all add: set_explicit_duration_for_all_locks_def)
  show "mdl_inv (set_transaction_duration_for_all_locks c st)"
    by (rule mdl_inv_frame [OF assms])
      (simp_all add: transaction_all_tickets, simp_all add: set_transaction_duration_for_all_locks_def)
qed

lemma mdl_inv_set_lock_duration:
  assumes inv: "mdl_inv st" and r: "r \<in> set (m_tickets (contexts st c) MDL_TRANSACTION)"
  shows "mdl_inv (set_lock_duration c r d st)"
proof -
  have d: "distinct (all_tickets (contexts st c))" using mdl_inv_context [OF inv] by (simp add: context_inv_def)
  show ?thesis
    by (rule mdl_inv_frame [OF inv])
      (use d set_lock_duration_tickets [OF d r] in \<open>simp_all add: set_lock_duration_def\<close>)
qed

lemma mdl_inv_upgrade_begin:
  assumes "mdl_inv st" "idle st c" "request_ok st \<lparr>rq_type = ty, rq_duration = MDL_TRANSACTION, rq_key = k\<rparr>"
    "upgrade_shared_lock_begin c r k ty no_wait alloc st = (res, st')"
  shows "mdl_inv st'"
  using assms mdl_inv_acquire_begin [OF assms(1-3), of no_wait alloc res st']
  by (simp add: upgrade_shared_lock_begin_def split: option.splits if_splits)

lemma mdl_inv_step:
  assumes "mdl_step mx st st'" "mdl_inv st"
  shows "mdl_inv st'"
  using assms
proof (cases rule: mdl_step.cases)
  case (try_lock c req alloc res)
  then show ?thesis using mdl_inv_try_acquire [OF assms(2)] by (simp add: try_acquire_lock_def)
next
  case (acquire c req no_wait alloc res)
  then show ?thesis using mdl_inv_acquire_begin [OF assms(2)] by simp
next
  case (acquired c err)
  then obtain r d where "pending (contexts st c) = Some (r, d)" by (auto simp: idle_def)
  with acquired show ?thesis using mdl_inv_acquire_lock_end [OF assms(2)] by simp
next
  case (upgrade c r d ty k no_wait alloc res)
  then show ?thesis using mdl_inv_upgrade_begin [OF assms(2)] by simp
qed (simp_all add: mdl_inv_local_steps mdl_inv_release_lock mdl_inv_downgrade mdl_inv_merge
      mdl_inv_set_lock_duration)

lemma reachable_mdl_inv: "reachable mx st \<Longrightarrow> mdl_inv st"
  by (induction rule: reachable.induct) (auto intro: mdl_inv_init mdl_inv_step)

end
