(* ===== verification/MDL_Deadlock.thy ===== *)
theory MDL_Deadlock
  imports MDL_Steps
begin

text \<open>
  The deadlock detector: \<open>Deadlock_detection_visitor\<close>, the two \<open>visit_subgraph\<close> methods and
  \<open>find_deadlock\<close> of \<open>src/sql/mdl.cc\<close>, run on one snapshot of the lock manager. The search
  recurses at most \<open>MAX_SEARCH_DEPTH\<close> levels deep, because \<open>enter_node\<close> stops it there; the
  first argument of the recursion is the number of levels left, and 32 of them are enough.
\<close>

section \<open>The visitor\<close>

record Deadlock_visitor =
  m_start_node :: nat
  m_victim :: "nat option"
  m_current_search_depth :: nat
  m_found_deadlock :: bool

definition MAX_SEARCH_DEPTH :: nat where
  "MAX_SEARCH_DEPTH = 32"

definition new_Deadlock_visitor :: "nat \<Rightarrow> Deadlock_visitor" where
  "new_Deadlock_visitor c =
     \<lparr>m_start_node = c, m_victim = None, m_current_search_depth = 0, m_found_deadlock = False\<rparr>"

definition DEADLOCK_WEIGHT_FTWRL1 :: uint32 where "DEADLOCK_WEIGHT_FTWRL1 = 0"
definition DEADLOCK_WEIGHT_DML :: uint32 where "DEADLOCK_WEIGHT_DML = 1"
definition DEADLOCK_WEIGHT_DDL :: uint32 where "DEADLOCK_WEIGHT_DDL = 100"

definition ticket_deadlock_weight :: "string \<Rightarrow> enum_mdl_type \<Rightarrow> uint32" where
  "ticket_deadlock_weight p ty =
     (if mdl_namespace p = BACKUP then
        (if ty = MDL_BACKUP_FTWRL1 then DEADLOCK_WEIGHT_FTWRL1 else DEADLOCK_WEIGHT_DDL)
      else if ty \<ge> MDL_SHARED_UPGRADABLE then DEADLOCK_WEIGHT_DDL else DEADLOCK_WEIGHT_DML)"

text \<open>The ticket \<open>m_waiting_for\<close> points to: in the waiting queue, or granted in the meantime.\<close>

definition waited_ticket :: "mdl_state \<Rightarrow> ticket_ref \<Rightarrow> MDL_ticket option" where
  "waited_ticket st r = find (\<lambda>t. tk_id t = fst r) (waiting st (snd r) @ granted st (snd r))"

definition get_deadlock_weight :: "mdl_state \<Rightarrow> nat \<Rightarrow> uint32" where
  "get_deadlock_weight st c =
     (case m_waiting_for (contexts st c) of
        None \<Rightarrow> m_deadlock_overweight (contexts st c)
      | Some r \<Rightarrow>
          (case waited_ticket st r of
             None \<Rightarrow> m_deadlock_overweight (contexts st c)
           | Some t \<Rightarrow> ticket_deadlock_weight (snd r) (m_type t) + m_deadlock_overweight (contexts st c)))"

definition opt_change_victim_to :: "mdl_state \<Rightarrow> nat \<Rightarrow> Deadlock_visitor \<Rightarrow> Deadlock_visitor" where
  "opt_change_victim_to st new_victim v =
     (case m_victim v of
        None \<Rightarrow> v\<lparr>m_victim := Some new_victim\<rparr>
      | Some w \<Rightarrow>
          if get_deadlock_weight st w \<ge> get_deadlock_weight st new_victim
          then v\<lparr>m_victim := Some new_victim\<rparr> else v)"

definition enter_node :: "mdl_state \<Rightarrow> nat \<Rightarrow> Deadlock_visitor \<Rightarrow> bool \<times> Deadlock_visitor" where
  "enter_node st node v =
     (let d = m_current_search_depth v + 1; found = (d \<ge> MAX_SEARCH_DEPTH);
          v1 = v\<lparr>m_current_search_depth := d, m_found_deadlock := found\<rparr>
      in (found, if found then opt_change_victim_to st node v1 else v1))"

definition leave_node :: "mdl_state \<Rightarrow> nat \<Rightarrow> Deadlock_visitor \<Rightarrow> Deadlock_visitor" where
  "leave_node st node v =
     (let v1 = v\<lparr>m_current_search_depth := m_current_search_depth v - 1\<rparr>
      in if m_found_deadlock v1 then opt_change_victim_to st node v1 else v1)"

definition inspect_edge :: "nat \<Rightarrow> Deadlock_visitor \<Rightarrow> bool \<times> Deadlock_visitor" where
  "inspect_edge node v =
     (node = m_start_node v, v\<lparr>m_found_deadlock := (node = m_start_node v)\<rparr>)"

section \<open>The search\<close>

text \<open>A loop over tickets that threads the visitor and stops at the first success.\<close>

fun visit_until :: "(nat \<Rightarrow> Deadlock_visitor \<Rightarrow> bool \<times> Deadlock_visitor) \<Rightarrow> nat list \<Rightarrow> Deadlock_visitor \<Rightarrow>
    bool \<times> Deadlock_visitor" where
  "visit_until f [] v = (False, v)"
| "visit_until f (c # cs) v =
     (case f c v of (True, v') \<Rightarrow> (True, v') | (False, v') \<Rightarrow> visit_until f cs v')"

definition blocking_granted :: "MDL_lock \<Rightarrow> MDL_ticket \<Rightarrow> nat list" where
  "blocking_granted l t = map m_ctx (filter (\<lambda>u. m_ctx u \<noteq> m_ctx t \<and>
     is_incompatible_when_granted (m_strategy l) u (m_type t)) (m_list (m_granted l)))"

definition blocking_waiting :: "MDL_lock \<Rightarrow> MDL_ticket \<Rightarrow> nat list" where
  "blocking_waiting l t = map m_ctx (filter (\<lambda>u. m_ctx u \<noteq> m_ctx t \<and>
     is_incompatible_when_waiting (m_strategy l) u (m_type t)) (m_list (m_waiting l)))"

definition lock_visit_subgraph ::
  "(nat \<Rightarrow> Deadlock_visitor \<Rightarrow> bool \<times> Deadlock_visitor) \<Rightarrow> mdl_state \<Rightarrow> string \<Rightarrow> MDL_ticket \<Rightarrow>
     Deadlock_visitor \<Rightarrow> bool \<times> Deadlock_visitor" where
  "lock_visit_subgraph visit st p waiting_ticket v =
     (let l = lock_at st p; src_ctx = m_ctx waiting_ticket;
          gs = blocking_granted l waiting_ticket; ws = blocking_waiting l waiting_ticket
      in if m_wait st src_ctx \<noteq> EMPTY then (False, v)
         else
           (case enter_node st src_ctx v of
              (True, v1) \<Rightarrow> (True, v1)
            | (False, v1) \<Rightarrow>
                (case visit_until inspect_edge gs v1 of
                   (True, v2) \<Rightarrow> (True, leave_node st src_ctx v2)
                 | (False, v2) \<Rightarrow>
                     (case visit_until inspect_edge ws v2 of
                        (True, v3) \<Rightarrow> (True, leave_node st src_ctx v3)
                      | (False, v3) \<Rightarrow>
                          (case visit_until visit gs v3 of
                             (True, v4) \<Rightarrow> (True, leave_node st src_ctx v4)
                           | (False, v4) \<Rightarrow>
                               (case visit_until visit ws v4 of
                                  (res, v5) \<Rightarrow> (res, leave_node st src_ctx v5)))))))"

fun visit_subgraph :: "nat \<Rightarrow> mdl_state \<Rightarrow> nat \<Rightarrow> Deadlock_visitor \<Rightarrow> bool \<times> Deadlock_visitor" where
  "visit_subgraph 0 st c v = (True, v)"
| "visit_subgraph (Suc n) st c v =
     (case m_waiting_for (contexts st c) of
        None \<Rightarrow> (False, v)
      | Some r \<Rightarrow>
          (case waited_ticket st r of
             None \<Rightarrow> (False, v)
           | Some t \<Rightarrow> lock_visit_subgraph (visit_subgraph n st) st (snd r) t v))"

definition detect :: "mdl_state \<Rightarrow> nat \<Rightarrow> bool \<times> Deadlock_visitor" where
  "detect st c = visit_subgraph MAX_SEARCH_DEPTH st c (new_Deadlock_visitor c)"

text \<open>The loop of \<open>find_deadlock\<close>: search, make the victim give up, and search again.\<close>

partial_function (option) find_deadlock :: "nat \<Rightarrow> mdl_state \<Rightarrow> mdl_state option" where
  "find_deadlock c st =
     (case detect st c of
        (found, v) \<Rightarrow>
          if \<not> found then Some st
          else
            (case m_victim v of
               None \<Rightarrow> Some st
             | Some victim \<Rightarrow>
                 if victim = c then Some (mark_victim victim st)
                 else find_deadlock c (mark_victim victim st)))"

section \<open>The wait-for graph\<close>

definition waits_for :: "mdl_state \<Rightarrow> nat \<Rightarrow> nat list" where
  "waits_for st a =
     (case m_waiting_for (contexts st a) of
        None \<Rightarrow> []
      | Some r \<Rightarrow>
          (case waited_ticket st r of
             None \<Rightarrow> []
           | Some t \<Rightarrow>
               if m_wait st a \<noteq> EMPTY then []
               else blocking_granted (lock_at st (snd r)) t @ blocking_waiting (lock_at st (snd r)) t))"

definition wait_edge :: "mdl_state \<Rightarrow> nat \<Rightarrow> nat \<Rightarrow> bool" where
  "wait_edge st a b \<longleftrightarrow> b \<in> set (waits_for st a)"

text \<open>Every context waits on a ticket of its own.\<close>

definition own_waits :: "mdl_state \<Rightarrow> bool" where
  "own_waits st \<longleftrightarrow>
     (\<forall>c r t. m_waiting_for (contexts st c) = Some r \<and> waited_ticket st r = Some t \<longrightarrow> m_ctx t = c)"

definition waiting_now :: "mdl_state \<Rightarrow> nat \<Rightarrow> bool" where
  "waiting_now st c \<longleftrightarrow>
     m_wait st c = EMPTY \<and> (\<exists>r t. m_waiting_for (contexts st c) = Some r \<and> waited_ticket st r = Some t)"

text \<open>The search of one node in terms of its successors in the graph.\<close>

lemma visit_until_append:
  "visit_until f (xs @ ys) v = (case visit_until f xs v of (True, v') \<Rightarrow> (True, v') | (False, v') \<Rightarrow> visit_until f ys v')"
  by (induction xs arbitrary: v) (auto split: prod.splits bool.splits)

lemma visit_until_inspect:
  "visit_until inspect_edge cs v =
     (if m_start_node v \<in> set cs then (True, v\<lparr>m_found_deadlock := True\<rparr>)
      else (False, if cs = [] then v else v\<lparr>m_found_deadlock := False\<rparr>))"
proof (induction cs arbitrary: v)
  case (Cons c cs)
  then show ?case by (cases "c = m_start_node v") (simp_all add: inspect_edge_def)
qed simp

definition visit_node ::
  "(nat \<Rightarrow> Deadlock_visitor \<Rightarrow> bool \<times> Deadlock_visitor) \<Rightarrow> mdl_state \<Rightarrow> nat \<Rightarrow> Deadlock_visitor \<Rightarrow>
     bool \<times> Deadlock_visitor" where
  "visit_node visit st c v =
     (case enter_node st c v of
        (True, v1) \<Rightarrow> (True, v1)
      | (False, v1) \<Rightarrow>
          (case visit_until inspect_edge (waits_for st c) v1 of
             (True, v2) \<Rightarrow> (True, leave_node st c v2)
           | (False, v2) \<Rightarrow>
               (case visit_until visit (waits_for st c) v2 of (res, v3) \<Rightarrow> (res, leave_node st c v3))))"

lemma visit_subgraph_node:
  assumes "own_waits st"
  shows "visit_subgraph (Suc n) st c v =
    (if waiting_now st c then visit_node (visit_subgraph n st) st c v else (False, v))"
proof (cases "m_waiting_for (contexts st c)")
  case None
  then show ?thesis by (simp add: waiting_now_def)
next
  case (Some r)
  show ?thesis
  proof (cases "waited_ticket st r")
    case None
    with Some show ?thesis by (simp add: waiting_now_def)
  next
    case t: (Some t)
    with Some assms have "m_ctx t = c" unfolding own_waits_def by blast
    with Some t show ?thesis
      by (auto simp: waiting_now_def visit_node_def lock_visit_subgraph_def waits_for_def visit_until_append
          Let_def split: prod.splits bool.splits)
  qed
qed

section \<open>What a search finds\<close>

text \<open>
  A path of the graph that closes a cycle through the start node, or is as long as the
  search may go; \<open>d\<close> nodes lie between the start node and the path.
\<close>

definition search_path :: "mdl_state \<Rightarrow> nat \<Rightarrow> nat \<Rightarrow> nat list \<Rightarrow> bool" where
  "search_path st start d path \<longleftrightarrow>
     path \<noteq> [] \<and> successively (wait_edge st) path \<and> (\<forall>x\<in>set path. waiting_now st x) \<and>
     (wait_edge st (last path) start \<or> d + length path = MAX_SEARCH_DEPTH)"

definition lightest :: "mdl_state \<Rightarrow> nat \<Rightarrow> nat list \<Rightarrow> bool" where
  "lightest st w path \<longleftrightarrow>
     w \<in> set path \<and> (\<forall>y\<in>set path. get_deadlock_weight st w \<le> get_deadlock_weight st y)"

definition searching :: "nat \<Rightarrow> nat \<Rightarrow> Deadlock_visitor \<Rightarrow> bool" where
  "searching start d v \<longleftrightarrow>
     m_start_node v = start \<and> m_victim v = None \<and> m_current_search_depth v = d \<and> \<not> m_found_deadlock v"

definition found_path :: "mdl_state \<Rightarrow> nat \<Rightarrow> nat \<Rightarrow> nat list \<Rightarrow> Deadlock_visitor \<Rightarrow> bool" where
  "found_path st start d path v \<longleftrightarrow>
     m_found_deadlock v \<and> search_path st start d path \<and> (\<exists>w. m_victim v = Some w \<and> lightest st w path)"

lemma visit_until_True:
  assumes "visit_until f cs v = (True, v')" "I v"
    and "\<And>c u u'. c \<in> set cs \<Longrightarrow> I u \<Longrightarrow> f c u = (False, u') \<Longrightarrow> I u'"
  shows "\<exists>c\<in>set cs. \<exists>u. I u \<and> f c u = (True, v')"
  using assms
proof (induction cs arbitrary: v)
  case (Cons c cs)
  obtain b u where f: "f c v = (b, u)" by fastforce
  show ?case
  proof (cases b)
    case True
    with Cons.prems f show ?thesis by auto
  next
    case False
    then have "visit_until f cs u = (True, v')" "I u" using Cons.prems f by auto
    with Cons.IH [of u] Cons.prems(3) show ?thesis by (meson list.set_intros(2))
  qed
qed simp

lemma visit_until_False:
  assumes "visit_until f cs v = (False, v')" "I v"
    and "\<And>c u u'. c \<in> set cs \<Longrightarrow> I u \<Longrightarrow> f c u = (False, u') \<Longrightarrow> I u'"
  shows "I v' \<and> (\<forall>c\<in>set cs. \<exists>u u'. I u \<and> f c u = (False, u'))"
  using assms
proof (induction cs arbitrary: v)
  case (Cons c cs)
  obtain u where f: "f c v = (False, u)" "visit_until f cs u = (False, v')"
    using Cons.prems(1) by (auto split: prod.splits bool.splits)
  then have "I u" using Cons.prems by auto
  with Cons.IH [OF f(2)] Cons.prems f(1) show ?case by (metis list.set_intros(2) set_ConsD)
qed simp

lemma opt_change_simps [simp]:
  "m_start_node (opt_change_victim_to st c v) = m_start_node v"
  "m_found_deadlock (opt_change_victim_to st c v) = m_found_deadlock v"
  by (auto simp: opt_change_victim_to_def split: option.splits)

lemma found_path_leave:
  assumes "found_path st start (Suc d) path v" "wait_edge st c (hd path)" "waiting_now st c"
  shows "found_path st start d (c # path) (leave_node st c v)"
proof -
  obtain w where w: "m_victim v = Some w" "lightest st w path" using assms(1) by (auto simp: found_path_def)
  have "\<exists>w. m_victim (leave_node st c v) = Some w \<and> lightest st w (c # path)"
  proof (cases "get_deadlock_weight st w \<ge> get_deadlock_weight st c")
    case True
    then show ?thesis using w assms(1)
      by (auto simp: leave_node_def opt_change_victim_to_def lightest_def found_path_def intro: order_trans)
  next
    case False
    then show ?thesis using w assms(1)
      by (auto simp: leave_node_def opt_change_victim_to_def lightest_def found_path_def)
  qed
  moreover have "search_path st start d (c # path)"
    using assms by (cases path) (auto simp: found_path_def search_path_def)
  moreover have "m_found_deadlock (leave_node st c v)"
    using assms(1) by (simp add: leave_node_def found_path_def Let_def)
  ultimately show ?thesis by (simp add: found_path_def)
qed

lemma searching_enter:
  assumes "searching start d v" "enter_node st c v = (b, v1)" "d < MAX_SEARCH_DEPTH" "waiting_now st c"
  shows "if b then Suc d = MAX_SEARCH_DEPTH \<and> m_start_node v1 = start \<and> found_path st start d [c] v1
         else Suc d < MAX_SEARCH_DEPTH \<and> searching start (Suc d) v1"
  using assms
  by (auto simp: enter_node_def searching_def found_path_def search_path_def lightest_def
      opt_change_victim_to_def Let_def)

lemma searching_inspect:
  assumes "searching start d v" "visit_until inspect_edge cs v = (b, v')"
  shows "if b then start \<in> set cs \<and> v' = v\<lparr>m_found_deadlock := True\<rparr> else start \<notin> set cs \<and> searching start d v'"
  using assms by (auto simp: visit_until_inspect searching_def split: if_splits)

lemma searching_leave: "searching start (Suc d) v \<Longrightarrow> searching start d (leave_node st c v)"
  by (simp add: searching_def leave_node_def)

lemma wait_edge_waiting_now: "wait_edge st a b \<Longrightarrow> waiting_now st a"
  by (cases "m_waiting_for (contexts st a)"; cases "waited_ticket st (the (m_waiting_for (contexts st a)))")
    (auto simp: wait_edge_def waits_for_def waiting_now_def split: if_splits)

text \<open>The successors of a node and the node itself, given what the visits guarantee.\<close>

definition visit_ok :: "mdl_state \<Rightarrow> nat \<Rightarrow> nat \<Rightarrow> (nat \<Rightarrow> Deadlock_visitor \<Rightarrow> bool \<times> Deadlock_visitor) \<Rightarrow> bool" where
  "visit_ok st start d visit \<longleftrightarrow>
     (\<forall>x u u' b. searching start d u \<and> visit x u = (b, u') \<longrightarrow>
        m_start_node u' = start \<and>
        (if b then \<exists>path. hd path = x \<and> found_path st start d path u' else searching start d u'))"

lemma visit_okD:
  assumes "visit_ok st start d visit" "searching start d u" "visit x u = (b, u')"
  shows "m_start_node u' = start"
    "b \<Longrightarrow> \<exists>path. hd path = x \<and> found_path st start d path u'"
    "\<not> b \<Longrightarrow> searching start d u'"
proof -
  have "m_start_node u' = start \<and>
    (if b then \<exists>path. hd path = x \<and> found_path st start d path u' else searching start d u')"
    using assms unfolding visit_ok_def by blast
  then show "m_start_node u' = start"
    "b \<Longrightarrow> \<exists>path. hd path = x \<and> found_path st start d path u'"
    "\<not> b \<Longrightarrow> searching start d u'" by auto
qed

lemma visit_successors_found:
  assumes "searching start (Suc d) v" "waiting_now st c" "visit_ok st start (Suc d) visit"
    and r: "visit_until visit (waits_for st c) v = (True, v')"
  shows "m_start_node v' = start \<and> (\<exists>path. hd path = c \<and> found_path st start d path (leave_node st c v'))"
proof -
  have keep: "searching start (Suc d) u'" if "searching start (Suc d) u" "visit x u = (False, u')" for x u u'
    using visit_okD(3) [OF assms(3) that] by simp
  obtain x u where x: "x \<in> set (waits_for st c)" "searching start (Suc d) u" "visit x u = (True, v')"
    using visit_until_True [where I = "searching start (Suc d)", OF r assms(1)] keep by blast
  obtain path where path: "hd path = x" "found_path st start (Suc d) path v'"
    using visit_okD(2) [OF assms(3) x(2,3)] by blast
  have "wait_edge st c (hd path)" using x(1) path(1) by (simp add: wait_edge_def)
  from found_path_leave [OF path(2) this assms(2)] visit_okD(1) [OF assms(3) x(2,3)]
  show ?thesis by (intro conjI exI [of _ "c # path"]) simp_all
qed

lemma visit_successors_clear:
  assumes "searching start (Suc d) v" "visit_ok st start (Suc d) visit"
    and r: "visit_until visit (waits_for st c) v = (False, v')"
  shows "searching start (Suc d) v' \<and>
    (\<forall>x\<in>set (waits_for st c). \<exists>u u'. searching start (Suc d) u \<and> visit x u = (False, u'))"
proof -
  have keep: "searching start (Suc d) u'" if "searching start (Suc d) u" "visit x u = (False, u')" for x u u'
    using visit_okD(3) [OF assms(2) that] by simp
  show ?thesis using visit_until_False [where I = "searching start (Suc d)", OF r assms(1)] keep by blast
qed

text \<open>A node all of whose successors were visited without success.\<close>

definition cleared :: "mdl_state \<Rightarrow> nat \<Rightarrow> nat \<Rightarrow> (nat \<Rightarrow> Deadlock_visitor \<Rightarrow> bool \<times> Deadlock_visitor) \<Rightarrow> nat \<Rightarrow> bool" where
  "cleared st start d visit c \<longleftrightarrow>
     start \<notin> set (waits_for st c) \<and> Suc d < MAX_SEARCH_DEPTH \<and>
     (\<forall>x\<in>set (waits_for st c). \<exists>u u'. searching start (Suc d) u \<and> visit x u = (False, u'))"

lemma visit_node_spec:
  assumes v: "searching start d v" "d < MAX_SEARCH_DEPTH" "waiting_now st c"
    and eq: "visit_node visit st c v = (b, v')"
    and step: "Suc d < MAX_SEARCH_DEPTH \<Longrightarrow> visit_ok st start (Suc d) visit"
  shows "m_start_node v' = start \<and>
    (if b then \<exists>path. hd path = c \<and> found_path st start d path v'
     else searching start d v' \<and> cleared st start d visit c)"
proof -
  obtain b1 v1 where e: "enter_node st c v = (b1, v1)" by fastforce
  note enter = searching_enter [OF v(1) e v(2,3)]
  show ?thesis
  proof (cases b1)
    case True
    with enter e eq show ?thesis by (auto simp: visit_node_def intro!: exI [of _ "[c]"])
  next
    case F1: False
    with enter have d: "Suc d < MAX_SEARCH_DEPTH" and v1: "searching start (Suc d) v1" by auto
    obtain b2 v2 where i: "visit_until inspect_edge (waits_for st c) v1 = (b2, v2)" by fastforce
    note inspect = searching_inspect [OF v1 i]
    show ?thesis
    proof (cases b2)
      case True
      with inspect v1 v(3) have "found_path st start d [c] (leave_node st c v2)"
        "m_start_node (leave_node st c v2) = start"
        by (auto simp: found_path_def search_path_def lightest_def leave_node_def Let_def
            searching_def opt_change_victim_to_def wait_edge_def)
      with True F1 e i eq show ?thesis by (auto simp: visit_node_def intro!: exI [of _ "[c]"])
    next
      case F2: False
      with inspect have v2: "searching start (Suc d) v2" "start \<notin> set (waits_for st c)" by auto
      obtain b3 v3 where r: "visit_until visit (waits_for st c) v2 = (b3, v3)" by fastforce
      have res: "b = b3" "v' = leave_node st c v3" using eq e i r F1 F2 by (auto simp: visit_node_def)
      have start: "m_start_node (leave_node st c v3) = m_start_node v3" by (simp add: leave_node_def Let_def)
      show ?thesis
      proof (cases b3)
        case True
        then show ?thesis using visit_successors_found [OF v2(1) v(3) step [OF d]] r start by (simp add: res)
      next
        case False
        with visit_successors_clear [OF v2(1) step [OF d]] r have
          "searching start (Suc d) v3" "cleared st start d visit c" using v2(2) d by (auto simp: cleared_def)
        with False start searching_leave show ?thesis by (auto simp: res searching_def)
      qed
    qed
  qed
qed

lemma visit_subgraph_ok:
  assumes "own_waits st" "n + d = MAX_SEARCH_DEPTH" "0 < n"
  shows "visit_ok st start d (visit_subgraph n st)"
  using assms(2,3)
proof (induction n arbitrary: d)
  case (Suc n)
  have step: "visit_ok st start (Suc d) (visit_subgraph n st)" if "Suc d < MAX_SEARCH_DEPTH"
    using Suc that by simp
  show ?case
    unfolding visit_ok_def visit_subgraph_node [OF assms(1)]
  proof (intro allI impI, elim conjE)
    fix x u u' b
    assume u: "searching start d u" and eq: "(if waiting_now st x then visit_node (visit_subgraph n st) st x u else (False, u)) = (b, u')"
    show "m_start_node u' = start \<and>
        (if b then \<exists>path. hd path = x \<and> found_path st start d path u' else searching start d u')"
    proof (cases "waiting_now st x")
      case True
      then show ?thesis using visit_node_spec [OF u _ True _ step, of b u'] eq Suc.prems by (auto split: if_splits)
    next
      case False
      with eq u show ?thesis by (auto simp: searching_def)
    qed
  qed
qed simp

text \<open>The nodes a failed search has seen are closed under the edges of the graph.\<close>

lemma visit_subgraph_clear:
  assumes "own_waits st" "n + d = MAX_SEARCH_DEPTH" "0 < n" "searching start d u"
    and "visit_subgraph n st c u = (False, u')" "wait_edge st c y"
  shows "y \<noteq> start \<and> (\<exists>m e w w'. m + e = MAX_SEARCH_DEPTH \<and> 0 < m \<and> searching start e w \<and>
           visit_subgraph m st y w = (False, w'))"
proof -
  obtain k where k: "n = Suc k" using assms(3) gr0_conv_Suc by blast
  have c: "waiting_now st c" using assms(6) by (rule wait_edge_waiting_now)
  have eq: "visit_node (visit_subgraph k st) st c u = (False, u')"
    using assms(5) c unfolding k visit_subgraph_node [OF assms(1)] by simp
  have step: "visit_ok st start (Suc d) (visit_subgraph k st)" if "Suc d < MAX_SEARCH_DEPTH"
    using visit_subgraph_ok [OF assms(1), of k "Suc d"] that assms(2) k by simp
  have "cleared st start d (visit_subgraph k st) c"
    using visit_node_spec [OF assms(4) _ c eq step] assms(2,3) k by simp
  then have "start \<notin> set (waits_for st c)" "0 < k" "k + Suc d = MAX_SEARCH_DEPTH"
    "\<exists>w w'. searching start (Suc d) w \<and> visit_subgraph k st y w = (False, w')"
    using assms(2,6) k by (auto simp: cleared_def wait_edge_def)
  then show ?thesis using assms(6) unfolding wait_edge_def by metis
qed

lemma detect_complete:
  assumes "own_waits st" "detect st c = (False, v)"
  shows "\<not> (wait_edge st)\<^sup>+\<^sup>+ c c"
proof -
  let ?seen = "\<lambda>x. \<exists>m e w w'. m + e = MAX_SEARCH_DEPTH \<and> 0 < m \<and> searching c e w \<and>
           visit_subgraph m st x w = (False, w')"
  have "searching c 0 (new_Deadlock_visitor c)" by (simp add: searching_def new_Deadlock_visitor_def)
  then have seen: "?seen c"
    using assms(2) unfolding detect_def by (intro exI conjI) (auto simp: MAX_SEARCH_DEPTH_def)
  have "y \<noteq> c \<and> ?seen y" if "(wait_edge st)\<^sup>+\<^sup>+ c y" for y
    using that
  proof (induction rule: tranclp_induct)
    case (base y)
    then show ?case using seen visit_subgraph_clear [OF assms(1)] by blast
  next
    case (step y z)
    then show ?case using visit_subgraph_clear [OF assms(1)] by blast
  qed
  then show ?thesis by blast
qed

lemma detect_sound:
  assumes "own_waits st" "detect st c = (True, v)"
  obtains path where "hd path = c" "found_path st c 0 path v"
proof -
  have "searching c 0 (new_Deadlock_visitor c)" by (simp add: searching_def new_Deadlock_visitor_def)
  moreover have "visit_ok st c 0 (visit_subgraph MAX_SEARCH_DEPTH st)"
    by (rule visit_subgraph_ok [OF assms(1)]) (simp_all add: MAX_SEARCH_DEPTH_def)
  ultimately show ?thesis using visit_okD(2) assms(2) that unfolding detect_def by blast
qed

section \<open>The loop of searches\<close>

lemma mark_victim_simps [simp]:
  "m_waiting_for (contexts (mark_victim w st) c) = m_waiting_for (contexts st c)"
  "lock_at (mark_victim w st) = lock_at st"
  "m_wait (mark_victim w st) c = (if c = w \<and> m_wait st w = EMPTY then VICTIM else m_wait st c)"
  by (auto simp: mark_victim_def set_status_def fun_eq_iff)

lemma waited_ticket_mark_victim [simp]: "waited_ticket (mark_victim w st) = waited_ticket st"
  by (simp add: waited_ticket_def fun_eq_iff)

lemma own_waits_mark_victim: "own_waits st \<Longrightarrow> own_waits (mark_victim w st)"
  by (simp add: own_waits_def)

text \<open>
  Every victim was waiting with an empty slot and is not found again, so the loop ends: at
  the latest when every waiting context has become a victim.
\<close>

lemma find_deadlock_returns:
  assumes "own_waits st" "finite {x. waiting_now st x}"
  shows "\<exists>st'. find_deadlock c st = Some st' \<and> own_waits st' \<and>
           (m_wait st' c = VICTIM \<or> \<not> (wait_edge st')\<^sup>+\<^sup>+ c c)"
  using assms
proof (induction "card {x. waiting_now st x}" arbitrary: st rule: less_induct)
  case less
  obtain b v where d: "detect st c = (b, v)" by fastforce
  show ?case
  proof (cases b)
    case False
    with d less.prems detect_complete [OF less.prems(1)] show ?thesis by (subst find_deadlock.simps) simp
  next
    case True
    with d detect_sound [OF less.prems(1)] obtain path where path: "found_path st c 0 path v" by metis
    then obtain w where w: "m_victim v = Some w" "waiting_now st w"
      by (auto simp: found_path_def lightest_def search_path_def)
    have slot: "m_wait st w = EMPTY" using w(2) by (simp add: waiting_now_def)
    show ?thesis
    proof (cases "w = c")
      case True
      with \<open>b\<close> d w slot own_waits_mark_victim [OF less.prems(1)] show ?thesis
        by (subst find_deadlock.simps) simp
    next
      case False
      have sub: "{x. waiting_now (mark_victim w st) x} \<subset> {x. waiting_now st x}"
        using w(2) slot by (auto simp: waiting_now_def split: if_splits)
      then have "card {x. waiting_now (mark_victim w st) x} < card {x. waiting_now st x}"
        using less.prems(2) by (simp add: psubset_card_mono)
      from less.hyps [OF this own_waits_mark_victim [OF less.prems(1)]] less.prems(2) sub
      obtain st' where "find_deadlock c (mark_victim w st) = Some st'" "own_waits st'"
        "m_wait st' c = VICTIM \<or> \<not> (wait_edge st')\<^sup>+\<^sup>+ c c"
        using finite_subset by (metis psubset_imp_subset)
      with \<open>b\<close> d w False show ?thesis by (subst find_deadlock.simps) simp
    qed
  qed
qed

section \<open>Reachable states\<close>

text \<open>What a context waits for is the ticket its \<open>acquire_lock\<close> call has enqueued.\<close>

definition wait_ok :: "MDL_context \<Rightarrow> bool" where
  "wait_ok x \<longleftrightarrow> (\<forall>r. m_waiting_for x = Some r \<longrightarrow> (\<exists>d. pending x = Some (r, d)))"

definition waits_inv :: "mdl_state \<Rightarrow> bool" where
  "waits_inv st \<longleftrightarrow> (\<forall>c. wait_ok (contexts st c)) \<and> finite {c. m_waiting_for (contexts st c) \<noteq> None}"

lemma waits_inv_upd:
  assumes "waits_inv st" "\<And>c'. c' \<noteq> c \<Longrightarrow> contexts st' c' = contexts st c'" "wait_ok (contexts st' c)"
  shows "waits_inv st'"
proof -
  have "wait_ok (contexts st' c')" for c' using assms by (cases "c' = c") (auto simp: waits_inv_def)
  moreover have "{x. m_waiting_for (contexts st' x) \<noteq> None} \<subseteq> insert c {x. m_waiting_for (contexts st x) \<noteq> None}"
    using assms(2) by auto
  then have "finite {x. m_waiting_for (contexts st' x) \<noteq> None}"
    using assms(1) finite_subset unfolding waits_inv_def by blast
  ultimately show ?thesis by (simp add: waits_inv_def)
qed

lemma wait_ok_simps [simp]:
  "wait_ok (push_front d r x) = wait_ok x"
  "wait_ok (unlink_ticket d r x) = wait_ok x"
  "wait_ok (x\<lparr>m_tickets := ts\<rparr>) = wait_ok x"
  "wait_ok (x\<lparr>m_deadlock_overweight := n\<rparr>) = wait_ok x"
  by (simp_all add: wait_ok_def push_front_def unlink_ticket_def)

lemma reschedule_contexts [simp]: "contexts (reschedule mx p l st) = contexts st"
  by (simp add: reschedule_def split: prod.splits)

lemma lock_remove_contexts [simp]: "contexts (lock_remove_ticket mx g t p l st) = contexts st"
  by (simp add: lock_remove_ticket_def Let_def)

lemma downgrade_contexts [simp]: "contexts (downgrade_ticket mx r ty st) = contexts st"
  by (simp add: downgrade_ticket_def split: option.splits prod.splits)

lemma release_contexts:
  "contexts (release_lock mx c d r st) = contexts st \<or>
   contexts (release_lock mx c d r st) = (contexts st)(c := unlink_ticket d r (contexts st c))"
  by (simp add: release_lock_def split: option.splits)

lemma merge_contexts:
  "contexts (upgrade_merge c svp r x ty st) = contexts st \<or>
   contexts (upgrade_merge c svp r x ty st) = (contexts st)(c := unlink_ticket MDL_TRANSACTION x (contexts st c))"
  by (auto simp: upgrade_merge_def Let_def split: option.splits)

lemma try_acquire_contexts:
  assumes "try_acquire_lock_impl c req alloc st = (res, st')"
  shows "\<forall>c'. c' \<noteq> c \<longrightarrow> contexts st' c' = contexts st c'"
    "m_waiting_for (contexts st' c) = m_waiting_for (contexts st c)"
    "pending (contexts st' c) = pending (contexts st c)"
  using assms
  by (auto simp: try_acquire_lock_impl_def clone_ticket_def push_front_def Let_def split: option.splits if_splits)

lemma acquire_begin_contexts:
  assumes "acquire_lock_begin c req no_wait alloc st = (res, st')"
  shows "\<forall>c'. c' \<noteq> c \<longrightarrow> contexts st' c' = contexts st c'"
    "m_waiting_for (contexts st' c) = m_waiting_for (contexts st c)"
proof -
  obtain res1 st1 where t: "try_acquire_lock_impl c req alloc st = (res1, st1)" by fastforce
  show "\<forall>c'. c' \<noteq> c \<longrightarrow> contexts st' c' = contexts st c'"
    "m_waiting_for (contexts st' c) = m_waiting_for (contexts st c)"
    using assms try_acquire_contexts [OF t] t
    by (auto simp: acquire_lock_begin_def Let_def split: acquire_result.splits if_splits)
qed

lemma acquire_end_contexts:
  assumes "acquire_lock_end mx c st = (err, st')" "pending (contexts st c) = Some (r, d)"
  shows "\<forall>c'. c' \<noteq> c \<longrightarrow> contexts st' c' = contexts st c'" "m_waiting_for (contexts st' c) = None"
  using assms
  by (auto simp: acquire_lock_end_def done_waiting_for_def push_front_def Let_def split: if_splits option.splits)

lemma waits_inv_acquire_begin:
  assumes inv: "waits_inv st" and idle: "idle st c"
    and eq: "acquire_lock_begin c req no_wait alloc st = (res, st')"
  shows "waits_inv st'"
proof (rule waits_inv_upd [OF inv])
  show "contexts st' c' = contexts st c'" if "c' \<noteq> c" for c'
    using acquire_begin_contexts [OF eq] that by blast
  have "m_waiting_for (contexts st c) = None"
    using inv idle unfolding waits_inv_def wait_ok_def idle_def by (metis not_None_eq)
  then show "wait_ok (contexts st' c)" using acquire_begin_contexts [OF eq] by (simp add: wait_ok_def)
qed

lemma waits_inv_step:
  assumes "mdl_step mx st st'" "waits_inv st"
  shows "waits_inv st'"
proof -
  have ok: "wait_ok (contexts st c)" for c using assms(2) by (simp add: waits_inv_def)
  from assms(1) show ?thesis
  proof (cases rule: mdl_step.cases)
    case (try_lock c req alloc res)
    note try_acquire_contexts [OF try_lock(3) [unfolded try_acquire_lock_def]]
    then show ?thesis using ok [of c]
      by (intro waits_inv_upd [OF assms(2), of c]) (simp_all add: wait_ok_def)
  next
    case (acquire c req no_wait alloc res)
    then show ?thesis using waits_inv_acquire_begin [OF assms(2)] by blast
  next
    case (upgrade c r d ty k no_wait alloc res)
    then show ?thesis using waits_inv_acquire_begin [OF assms(2)] assms(2)
      by (auto simp: upgrade_shared_lock_begin_def split: option.splits if_splits)
  next
    case (acquired c err)
    then obtain r d where p: "pending (contexts st c) = Some (r, d)" by (auto simp: idle_def)
    show ?thesis using acquire_end_contexts [OF acquired(3) p]
      by (intro waits_inv_upd [OF assms(2), of c]) (auto simp: wait_ok_def)
  next
    case (will_wait c r d)
    then show ?thesis
      by (intro waits_inv_upd [OF assms(2), of c]) (auto simp: will_wait_for_def wait_ok_def)
  next
    case (victim v)
    then show ?thesis using ok
      by (intro waits_inv_upd [OF assms(2), of v]) (auto simp: mark_victim_def)
  next
    case (timeout c is_killed s)
    then show ?thesis using assms(2) by (simp add: timed_wait_end_def waits_inv_def)
  next
    case (release c r d)
    then show ?thesis using release_contexts [of mx c d r st] ok
      by (intro waits_inv_upd [OF assms(2), of c]) auto
  next
    case (downgrade c r d ty)
    then show ?thesis using assms(2) by (simp add: waits_inv_def)
  next
    case (merge c r d svp x ty)
    then show ?thesis using merge_contexts [of c svp r x ty st] ok
      by (intro waits_inv_upd [OF assms(2), of c]) auto
  next
    case (duration c r d)
    then show ?thesis using ok
      by (intro waits_inv_upd [OF assms(2), of c]) (auto simp: set_lock_duration_def)
  next
    case (explicit_all c)
    then show ?thesis using ok
      by (intro waits_inv_upd [OF assms(2), of c]) (auto simp: set_explicit_duration_for_all_locks_def)
  next
    case (transaction_all c)
    then show ?thesis using ok
      by (intro waits_inv_upd [OF assms(2), of c]) (auto simp: set_transaction_duration_for_all_locks_def)
  next
    case (reset c)
    then show ?thesis using ok
      by (intro waits_inv_upd [OF assms(2), of c]) (auto simp: reset_overweight_def)
  qed
qed

lemma reachable_waits_inv: "reachable mx st \<Longrightarrow> waits_inv st"
proof (induction rule: reachable.induct)
  case init
  then show ?case by (simp add: waits_inv_def wait_ok_def mdl_init_def new_MDL_context_def)
next
  case (step st st')
  then show ?case using waits_inv_step by blast
qed

lemma reachable_own_waits:
  assumes "reachable mx st"
  shows "own_waits st"
  unfolding own_waits_def
proof (intro allI impI, elim conjE)
  fix c r t
  assume w: "m_waiting_for (contexts st c) = Some r" and t: "waited_ticket st r = Some t"
  have inv: "mdl_inv st" using assms by (rule reachable_mdl_inv)
  obtain d where "pending (contexts st c) = Some (r, d)"
    using reachable_waits_inv [OF assms] w unfolding waits_inv_def wait_ok_def by blast
  then have "r \<in> granted_refs st c \<union> waiting_refs st c"
    using mdl_inv_context [OF inv, of c] by (auto simp: context_inv_def pending_ref_def split: if_splits)
  then obtain u where u: "u \<in> set (granted st (snd r)) \<union> set (waiting st (snd r))" "tk_id u = fst r" "m_ctx u = c"
    by (cases r) (auto simp: refs_iff)
  have t': "t \<in> set (granted st (snd r)) \<union> set (waiting st (snd r))" "tk_id t = fst r"
    using t by (auto simp: waited_ticket_def dest: find_Some_mem)
  have "lock_ok (lock_at st (snd r))" using mdl_inv_locks [OF inv] by (simp add: lock_at_inv_def lock_inv_def)
  then have "inj_on tk_id (set (granted st (snd r)) \<union> set (waiting st (snd r)))"
    by (auto simp: lock_ok_def queue_ok_def distinct_map inj_on_Un)
  then have "t = u" using u t' by (metis inj_onD)
  with u show "m_ctx t = c" by simp
qed

end
