(* ===== verification/MDL_Properties.thy ===== *)
theory MDL_Properties
  imports MDL_Deadlock
begin

text \<open>
  The properties of the metadata lock manager, stated for every reachable state, with the
  concrete executions that show their hypotheses can hold.
\<close>

section \<open>Releasing many locks\<close>

lemma release_lock_held:
  assumes "mdl_inv st" "r \<in> set (m_tickets (contexts st c) d)"
  shows "contexts (release_lock mx c d r st) = (contexts st)(c := unlink_ticket d r (contexts st c))"
  by (rule held_ticket [OF assms]) (simp add: release_lock_def)

lemma fold_release_lock:
  assumes "mdl_inv st" "m_tickets (contexts st c) d = rs @ ys"
  shows "mdl_inv (fold (release_lock mx c d) rs st) \<and>
    contexts (fold (release_lock mx c d) rs st) =
      (contexts st)(c := (contexts st c)\<lparr>m_tickets := (m_tickets (contexts st c))(d := ys)\<rparr>)"
  using assms
proof (induction rs arbitrary: st)
  case Nil
  then show ?case by (simp add: fun_eq_iff)
next
  case (Cons r rs)
  let ?st = "release_lock mx c d r st"
  have r: "r \<in> set (m_tickets (contexts st c) d)" using Cons.prems(2) by simp
  note ctx = release_lock_held [OF Cons.prems(1) r, of mx]
  have "m_tickets (contexts ?st c) d = rs @ ys" using Cons.prems(2) by (simp add: ctx unlink_ticket_def)
  from Cons.IH [OF mdl_inv_release_lock [OF Cons.prems(1) r] this]
  have "mdl_inv (fold (release_lock mx c d) rs ?st)" "contexts (fold (release_lock mx c d) rs ?st) =
      (contexts ?st)(c := (contexts ?st c)\<lparr>m_tickets := (m_tickets (contexts ?st c))(d := ys)\<rparr>)" by blast+
  moreover have "(contexts ?st)(c := (contexts ?st c)\<lparr>m_tickets := (m_tickets (contexts ?st c))(d := ys)\<rparr>) =
      (contexts st)(c := (contexts st c)\<lparr>m_tickets := (m_tickets (contexts st c))(d := ys)\<rparr>)"
    unfolding ctx by (simp add: unlink_ticket_def)
  ultimately show ?case by (simp only: fold_simps)
qed

lemma release_locks_stored_before_effect:
  assumes "mdl_inv st"
  shows "mdl_inv (release_locks_stored_before mx c d sentinel st) \<and>
    contexts (release_locks_stored_before mx c d sentinel st) =
      (contexts st)(c := (contexts st c)\<lparr>m_tickets := (m_tickets (contexts st c))
        (d := dropWhile (\<lambda>r. Some r \<noteq> sentinel) (m_tickets (contexts st c) d))\<rparr>)"
  unfolding release_locks_stored_before_def by (rule fold_release_lock [OF assms]) simp

lemma dropWhile_to_front:
  assumes "distinct (xs @ ys)"
  shows "dropWhile (\<lambda>r. Some r \<noteq> front ys) (xs @ ys) = ys"
proof (cases ys)
  case Nil
  then show ?thesis by (simp add: front_def)
next
  case (Cons y zs)
  then have "\<forall>x\<in>set xs. x \<noteq> y" using assms by auto
  with Cons show ?thesis by (simp add: front_def dropWhile_append3)
qed

section \<open>An example execution\<close>

text \<open>
  Contexts 1 and 2 read table \<open>test.t1\<close>, context 3 wants to drop it and waits, and the read
  of context 4 queues behind it.
\<close>

definition ex_key :: MDL_key where
  "ex_key = mdl_key_init TABLE ''test'' ''t1''"

definition ex_req :: "enum_mdl_type \<Rightarrow> MDL_request" where
  "ex_req ty = \<lparr>rq_type = ty, rq_duration = MDL_TRANSACTION, rq_key = ex_key\<rparr>"

definition ex1 :: mdl_state where
  "ex1 = snd (try_acquire_lock 1 (ex_req MDL_SHARED_READ) True mdl_init)"

definition ex2 :: mdl_state where
  "ex2 = snd (try_acquire_lock 2 (ex_req MDL_SHARED_READ) True ex1)"

definition ex3 :: mdl_state where
  "ex3 = snd (acquire_lock_begin 3 (ex_req MDL_EXCLUSIVE) False True ex2)"

definition ex4 :: mdl_state where
  "ex4 = snd (acquire_lock_begin 4 (ex_req MDL_SHARED_READ) False True ex3)"

lemma ex_queues:
  "length (granted mdl_init (m_ptr ex_key)) = 0" "length (waiting mdl_init (m_ptr ex_key)) = 0"
  "length (granted ex1 (m_ptr ex_key)) = 1" "length (waiting ex1 (m_ptr ex_key)) = 0"
  "length (granted ex2 (m_ptr ex_key)) = 2" "length (waiting ex2 (m_ptr ex_key)) = 0"
  "length (granted ex3 (m_ptr ex_key)) = 2" "length (waiting ex3 (m_ptr ex_key)) = 1"
  by code_simp+

lemma ex_idle: "idle mdl_init 1" "idle ex1 2" "idle ex2 3" "idle ex3 4"
  by code_simp+

lemma ex_namespace: "mdl_namespace (m_ptr ex_key) = TABLE"
  by code_simp

lemma ex_request_ok:
  "request_ok mdl_init (ex_req MDL_SHARED_READ)" "request_ok ex1 (ex_req MDL_SHARED_READ)"
  "request_ok ex2 (ex_req MDL_EXCLUSIVE)" "request_ok ex3 (ex_req MDL_SHARED_READ)"
  unfolding request_ok_def ex_req_def by (simp_all only: MDL_request.simps ex_namespace ex_queues) simp_all

lemma ex_reachable: "reachable mx ex2" "reachable mx ex3" "reachable mx ex4"
proof -
  have "reachable mx ex1"
    by (rule reachable.step [OF reachable.init mdl_step.try_lock [OF ex_idle(1) ex_request_ok(1)]])
      (simp add: ex1_def prod_eq_iff)
  then show 2: "reachable mx ex2"
    by (rule reachable.step [OF _ mdl_step.try_lock [OF ex_idle(2) ex_request_ok(2)]])
      (simp add: ex2_def prod_eq_iff)
  show 3: "reachable mx ex3"
    by (rule reachable.step [OF 2 mdl_step.acquire [OF ex_idle(3) ex_request_ok(3)]])
      (simp add: ex3_def prod_eq_iff)
  show "reachable mx ex4"
    by (rule reachable.step [OF 3 mdl_step.acquire [OF ex_idle(4) ex_request_ok(4)]])
      (simp add: ex4_def prod_eq_iff)
qed

definition ex_lock :: "mdl_state \<Rightarrow> MDL_lock" where
  "ex_lock st = the (mdl_locks st (m_ptr ex_key))"

lemma ex_locks:
  "mdl_locks ex2 (m_ptr ex_key) = Some (ex_lock ex2)"
  "mdl_locks ex4 (m_ptr ex_key) = Some (ex_lock ex4)"
proof -
  have "mdl_locks ex2 (m_ptr ex_key) \<noteq> None" "mdl_locks ex4 (m_ptr ex_key) \<noteq> None" by code_simp+
  then show "mdl_locks ex2 (m_ptr ex_key) = Some (ex_lock ex2)"
    "mdl_locks ex4 (m_ptr ex_key) = Some (ex_lock ex4)" by (simp_all add: ex_lock_def)
qed

lemma ex_granted:
  "m_list (m_granted (ex_lock ex2)) =
     [\<lparr>tk_id = 0, m_type = MDL_SHARED_READ, m_ctx = 1\<rparr>, \<lparr>tk_id = 1, m_type = MDL_SHARED_READ, m_ctx = 2\<rparr>]"
  "m_list (m_waiting (ex_lock ex4)) =
     [\<lparr>tk_id = 2, m_type = MDL_EXCLUSIVE, m_ctx = 3\<rparr>, \<lparr>tk_id = 3, m_type = MDL_SHARED_READ, m_ctx = 4\<rparr>]"
  "m_strategy (ex_lock ex4) = MDL_object_lock" "m_strategy (ex_lock ex2) = MDL_object_lock"
  "m_wait ex4 4 = EMPTY" "weak_type MDL_object_lock MDL_SHARED_READ"
  by code_simp+

text \<open>Contexts 1 and 2 both try to upgrade their read locks by hand: a deadlock.\<close>

definition exd1 :: mdl_state where
  "exd1 = will_wait_for 1 (2, m_ptr ex_key) (snd (acquire_lock_begin 1 (ex_req MDL_EXCLUSIVE) False True ex2))"

definition exd2 :: mdl_state where
  "exd2 = will_wait_for 2 (3, m_ptr ex_key) (snd (acquire_lock_begin 2 (ex_req MDL_EXCLUSIVE) False True exd1))"

lemma exd_ok:
  "idle ex2 1" "idle exd1 2" "length (granted exd1 (m_ptr ex_key)) = 2" "length (waiting exd1 (m_ptr ex_key)) = 1"
  "pending (contexts (snd (acquire_lock_begin 1 (ex_req MDL_EXCLUSIVE) False True ex2)) 1) =
     Some ((2, m_ptr ex_key), MDL_TRANSACTION)"
  "pending (contexts (snd (acquire_lock_begin 2 (ex_req MDL_EXCLUSIVE) False True exd1)) 2) =
     Some ((3, m_ptr ex_key), MDL_TRANSACTION)"
  by code_simp+

lemma exd_cycle: "waits_for exd2 1 = [2]" "waits_for exd2 2 = [1]"
  by code_simp+

lemma exd_request_ok: "request_ok exd1 (ex_req MDL_EXCLUSIVE)"
  unfolding request_ok_def ex_req_def by (simp_all only: MDL_request.simps ex_namespace exd_ok) simp_all

lemma reachable_begin:
  assumes "reachable mx st" "idle st c" "request_ok st req"
    and "pending (contexts (snd (acquire_lock_begin c req False True st)) c) = Some (r, d)"
  shows "reachable mx (will_wait_for c r (snd (acquire_lock_begin c req False True st)))"
proof -
  have "reachable mx (snd (acquire_lock_begin c req False True st))"
    by (rule reachable.step [OF assms(1) mdl_step.acquire [OF assms(2,3)]]) (simp add: prod_eq_iff)
  from reachable.step [OF this mdl_step.will_wait [OF assms(4)]] show ?thesis .
qed

lemma exd_reachable: "reachable mx exd2"
proof -
  have "reachable mx exd1"
    unfolding exd1_def by (rule reachable_begin [OF ex_reachable(1) exd_ok(1) ex_request_ok(3) exd_ok(5)])
  from reachable_begin [OF this exd_ok(2) exd_request_ok exd_ok(6)] show ?thesis by (simp add: exd2_def)
qed

section \<open>Reachable states\<close>

lemma lock_at_Some: "mdl_locks st p = Some l \<Longrightarrow> lock_at st p = l"
  by (simp add: find_or_insert_def)





text \<open>
  C5. Ownership. In every reachable state the tickets granted to a context are exactly those in
  its three lists, plus the one its waiting call has just been given; its ticket in a waiting
  queue is exactly the one its waiting call has enqueued. No granted ticket is leaked by a
  time-out, a kill or a deadlock, and none is released twice.
\<close>

theorem mdl_ownership:
  assumes "reachable mx st"
  shows "granted_refs st c = set (all_tickets (contexts st c)) \<union>
           (if m_wait st c = GRANTED then pending_ref (contexts st c) else {}) \<and>
         waiting_refs st c = (if m_wait st c = GRANTED then {} else pending_ref (contexts st c)) \<and>
         distinct (all_tickets (contexts st c))"
  using mdl_inv_context [OF reachable_mdl_inv [OF assms], of c] by (simp add: context_inv_def)

theorem mdl_ownership_witness:
  "granted_refs ex2 2 = {(1, m_ptr ex_key)} \<and> waiting_refs ex2 2 = {}"
proof -
  have "all_tickets (contexts ex2 2) = [(1, m_ptr ex_key)]" "pending (contexts ex2 2) = None" by code_simp+
  then show ?thesis
    using mdl_ownership [OF ex_reachable(1) [of 1], of 2] by (simp add: pending_ref_def)
qed



text \<open>
  C6. The deadlock detector terminates and leaves no cycle behind: in every reachable state the
  loop of \<open>find_deadlock\<close> returns, and then the context that ran it is a victim itself or is
  on no cycle of the wait-for graph.
\<close>

theorem mdl_find_deadlock_breaks_cycles:
  assumes "reachable mx st"
  shows "\<exists>st'. find_deadlock c st = Some st' \<and> (m_wait st' c = VICTIM \<or> \<not> (wait_edge st')\<^sup>+\<^sup>+ c c)"
proof -
  have "{x. waiting_now st x} \<subseteq> {x. m_waiting_for (contexts st x) \<noteq> None}" by (auto simp: waiting_now_def)
  moreover have "finite {x. m_waiting_for (contexts st x) \<noteq> None}"
    using reachable_waits_inv [OF assms] by (simp add: waits_inv_def)
  ultimately have "finite {x. waiting_now st x}" by (rule finite_subset)
  from find_deadlock_returns [OF reachable_own_waits [OF assms] this] show ?thesis by blast
qed

theorem mdl_find_deadlock_breaks_cycles_witness:
  "\<exists>st'. find_deadlock 2 exd2 = Some st' \<and> (m_wait st' 2 = VICTIM \<or> \<not> (wait_edge st')\<^sup>+\<^sup>+ 2 2)"
  by (rule mdl_find_deadlock_breaks_cycles [OF exd_reachable [of 1]])

text \<open>
  C7. What the detector reports is a deadlock: the contexts it has walked through wait for each
  other in a chain that leads back to the start, or that is \<open>MAX_SEARCH_DEPTH\<close> long, and the
  victim is a context of that chain with the lowest weight.
\<close>

theorem mdl_deadlock_victim:
  assumes "reachable mx st" "detect st c = (True, v)"
  shows "\<exists>path w. path \<noteq> [] \<and> hd path = c \<and> successively (wait_edge st) path \<and>
    (wait_edge st (last path) c \<or> length path = MAX_SEARCH_DEPTH) \<and>
    m_victim v = Some w \<and> w \<in> set path \<and>
    (\<forall>y\<in>set path. get_deadlock_weight st w \<le> get_deadlock_weight st y)"
proof -
  obtain path where "hd path = c" "found_path st c 0 path v"
    using detect_sound [OF reachable_own_waits [OF assms(1)] assms(2)] by metis
  then show ?thesis by (auto simp: found_path_def search_path_def lightest_def)
qed

theorem mdl_deadlock_victim_witness:
  "\<exists>path w. hd path = 2 \<and> m_victim (snd (detect exd2 2)) = Some w \<and> w \<in> set path"
proof -
  have "(wait_edge exd2)\<^sup>+\<^sup>+ 2 2"
    by (rule tranclp.trancl_into_trancl [of _ _ 1]) (auto simp: wait_edge_def exd_cycle exd_cycle [simplified])
  then have "fst (detect exd2 2)"
    using detect_complete [OF reachable_own_waits [OF exd_reachable [of 1]], of 2] by (cases "detect exd2 2") auto
  then have "detect exd2 2 = (True, snd (detect exd2 2))" by (simp add: prod_eq_iff)
  from mdl_deadlock_victim [OF exd_reachable [of 1] this] show ?thesis by blast
qed

text \<open>
  C9. Rescheduling grants a subsequence of the waiting queue in its order, loses and duplicates
  no ticket, wakes exactly the contexts it granted, and only through an open wait slot.
\<close>

theorem mdl_reschedule_waiters_fair:
  assumes "reachable mx st" "mdl_locks st p = Some l" "reschedule_waiters mw l ws = (l', ws')"
  shows "\<exists>gs. subseq gs (m_list (m_waiting l)) \<and>
    m_list (m_granted l') = m_list (m_granted l) @ gs \<and>
    m_list (m_waiting l') = filter (\<lambda>u. tk_id u \<notin> tk_id ` set gs) (m_list (m_waiting l)) \<and>
    ws' = (\<lambda>c. if c \<in> m_ctx ` set gs then GRANTED else ws c) \<and> (\<forall>g\<in>set gs. ws (m_ctx g) = EMPTY)"
proof -
  have "lock_inv l"
    using mdl_inv_locks [OF reachable_mdl_inv [OF assms(1)], of p] assms(2)
    by (simp add: lock_at_Some lock_at_inv_def)
  from reschedule_waiters_effect [OF assms(3) this] show ?thesis by blast
qed

theorem mdl_reschedule_waiters_fair_witness:
  "\<exists>gs. subseq gs (m_list (m_waiting (ex_lock ex4))) \<and>
     m_list (m_granted (fst (reschedule_waiters 1 (ex_lock ex4) (m_wait ex4)))) = m_list (m_granted (ex_lock ex4)) @ gs"
proof -
  have "reschedule_waiters 1 (ex_lock ex4) (m_wait ex4) =
      (fst (reschedule_waiters 1 (ex_lock ex4) (m_wait ex4)), snd (reschedule_waiters 1 (ex_lock ex4) (m_wait ex4)))"
    by simp
  from mdl_reschedule_waiters_fair [OF ex_reachable(3) [of 1] ex_locks(2) this] show ?thesis by blast
qed

text \<open>
  C10. Rolling back to a savepoint gives a context back the statement and transaction tickets it
  had at the savepoint, whatever it has acquired since, and touches neither its explicit
  tickets nor any other context.
\<close>

theorem mdl_rollback_to_savepoint:
  assumes "reachable mx st" "x0 = contexts st0 c"
    and "m_tickets (contexts st c) MDL_STATEMENT = s @ m_tickets x0 MDL_STATEMENT"
    and "m_tickets (contexts st c) MDL_TRANSACTION = t @ m_tickets x0 MDL_TRANSACTION"
  shows "contexts (rollback_to_savepoint mw c (mdl_savepoint c st0) st) =
    (contexts st)(c := (contexts st c)\<lparr>m_tickets := (m_tickets (contexts st c))
      (MDL_STATEMENT := m_tickets x0 MDL_STATEMENT, MDL_TRANSACTION := m_tickets x0 MDL_TRANSACTION)\<rparr>)"
proof -
  have inv: "mdl_inv st" using assms(1) by (rule reachable_mdl_inv)
  then have "distinct (all_tickets (contexts st c))" using mdl_inv_context by (simp add: context_inv_def)
  then have d: "distinct (s @ m_tickets x0 MDL_STATEMENT)" "distinct (t @ m_tickets x0 MDL_TRANSACTION)"
    using assms(3,4) by (auto simp: all_tickets_def)
  let ?svp = "mdl_savepoint c st0"
  define st1 where "st1 = release_locks_stored_before mw c MDL_STATEMENT (m_stmt_ticket ?svp) st"
  have st1: "mdl_inv st1" "contexts st1 = (contexts st)(c := (contexts st c)\<lparr>m_tickets :=
      (m_tickets (contexts st c))(MDL_STATEMENT := m_tickets x0 MDL_STATEMENT)\<rparr>)"
    using release_locks_stored_before_effect [OF inv, of mw c MDL_STATEMENT "m_stmt_ticket ?svp"]
      dropWhile_to_front [OF d(1)] assms(2,3) by (simp_all add: st1_def mdl_savepoint_def)
  show ?thesis
    using release_locks_stored_before_effect [OF st1(1), of mw c MDL_TRANSACTION "m_trans_ticket ?svp"]
      dropWhile_to_front [OF d(2)] assms(2,4)
    unfolding rollback_to_savepoint_def st1_def [symmetric] by (simp add: st1(2) mdl_savepoint_def)
qed

theorem mdl_rollback_to_savepoint_witness:
  "m_tickets (contexts (rollback_to_savepoint 1 2 (mdl_savepoint 2 ex1) ex2) 2) MDL_TRANSACTION = []"
proof -
  have "m_tickets (contexts ex1 2) MDL_STATEMENT = []" "m_tickets (contexts ex1 2) MDL_TRANSACTION = []"
    "m_tickets (contexts ex2 2) MDL_STATEMENT = []"
    "m_tickets (contexts ex2 2) MDL_TRANSACTION = [(1, m_ptr ex_key)]" by code_simp+
  then show ?thesis
    using mdl_rollback_to_savepoint [OF ex_reachable(1) [of 1] refl, of 2 "[]" ex1 "[(1, m_ptr ex_key)]" 1] by simp
qed

section \<open>Two schedules the code does not handle\<close>

text \<open>The loop never touches a waiter of a type it skips.\<close>

lemma reschedule_loop_skips:
  assumes "reschedule_loop hog True ts l ws = (l', ws')" "lock_ok l" "set ts \<subseteq> set (m_list (m_waiting l))"
    and "t \<in> set (m_list (m_waiting l))" "MDL_BIT (m_type t) AND hog \<noteq> 0" "distinct (map tk_id ts)"
  shows "t \<in> set (m_list (m_waiting l'))"
  using assms
proof (induction ts arbitrary: l ws)
  case (Cons u ts)
  show ?case
  proof (cases "MDL_BIT (m_type u) AND hog = 0 \<and> can_grant_lock l (m_type u) (m_ctx u) True \<and> ws (m_ctx u) = EMPTY")
    case False
    then have "reschedule_loop hog True ts l ws = (l', ws')"
      using Cons.prems(1) by (auto simp: set_status_def split: if_splits)
    from Cons.IH [OF this] Cons.prems show ?thesis by simp
  next
    case True
    let ?l = "grant_waiting hog u l" and ?ws = "ws(m_ctx u := GRANTED)"
    have eq: "reschedule_loop hog True ts ?l ?ws = (l', ws')"
      using True Cons.prems(1) by (simp add: set_status_def)
    have u: "u \<in> set (m_list (m_waiting l))" using Cons.prems(3) by simp
    have "t \<noteq> u" using True Cons.prems(5) by auto
    then have "tk_id t \<noteq> tk_id u"
      using Cons.prems(2,4) u by (auto simp: lock_ok_def queue_ok_def distinct_map dest: inj_onD)
    moreover have "set ts \<subseteq> set (m_list (m_waiting ?l))" using Cons.prems(3,6) by (auto simp: image_iff)
    ultimately show ?thesis
      using Cons.IH [OF eq lock_ok_grant_waiting [OF Cons.prems(2) u]] Cons.prems(4-6) by simp
  qed
qed simp

text \<open>
  A lock on which the hog limit of 1 has been reached: context 2 holds SNW and waits for its
  upgrade to X, context 3 waits for SW behind that SNW.
\<close>

definition hog_lock :: MDL_lock where
  "hog_lock =
     (new_MDL_lock MDL_object_lock)
       \<lparr>m_granted := add_ticket \<lparr>tk_id = 0, m_type = MDL_SHARED_NO_WRITE, m_ctx = 2\<rparr> empty_Ticket_list,
        m_waiting := add_ticket \<lparr>tk_id = 2, m_type = MDL_EXCLUSIVE, m_ctx = 2\<rparr>
          (add_ticket \<lparr>tk_id = 1, m_type = MDL_SHARED_WRITE, m_ctx = 3\<rparr> empty_Ticket_list),
        m_hog_lock_count := 1\<rparr>"

lemma hog_lock_inv: "lock_inv hog_lock"
proof -
  have "queue_ok 10 (add_ticket \<lparr>tk_id = 0, m_type = MDL_SHARED_NO_WRITE, m_ctx = 2\<rparr> empty_Ticket_list)"
    "queue_ok 10 (add_ticket \<lparr>tk_id = 2, m_type = MDL_EXCLUSIVE, m_ctx = 2\<rparr>
       (add_ticket \<lparr>tk_id = 1, m_type = MDL_SHARED_WRITE, m_ctx = 3\<rparr> empty_Ticket_list))"
    by (intro queue_ok_add queue_ok_empty; simp)+
  then show ?thesis by (simp add: hog_lock_def lock_inv_def lock_ok_def)
qed

text \<open>
  C11. Once the hog limit is reached and a weak request is pending, rescheduling grants no strong
  request at all, whether or not anything blocks it: the comment that then every weak request
  in the queue is about to leave it is not what happens. In the witness the pending upgrade to
  X passes the grant test and the weak request does not, so nobody is granted the lock and the
  upgrade waits for no other context.
\<close>

theorem mdl_hog_limit_skips_strong:
  assumes "lock_inv l" "skip_high_priority mx l" "reschedule_waiters mx l ws = (l', ws')"
    and "t \<in> set (m_list (m_waiting l))" "\<not> weak_type (m_strategy l) (m_type t)"
  shows "t \<in> set (m_list (m_waiting l'))"
proof -
  obtain l1 h where eq: "reschedule_loop (hog_lock_types_bitmap (m_strategy l)) True
      (m_list (m_waiting l)) l ws = (l1, ws')" and l': "l' = l1\<lparr>m_hog_lock_count := h\<rparr>"
    using assms(2,3) by (auto elim!: reschedule_waiters_cases)
  have "lock_ok l" using assms(1) by (simp add: lock_inv_def)
  from reschedule_loop_skips [OF eq this subset_refl assms(4) _ lock_inv_waiting [OF assms(1)]] assms(5)
  show ?thesis by (simp add: l' weak_type_def)
qed

theorem mdl_hog_limit_skips_strong_witness:
  "can_grant_lock hog_lock MDL_EXCLUSIVE 2 False \<and>
   blocking_granted hog_lock \<lparr>tk_id = 2, m_type = MDL_EXCLUSIVE, m_ctx = 2\<rparr> = [] \<and>
   blocking_waiting hog_lock \<lparr>tk_id = 2, m_type = MDL_EXCLUSIVE, m_ctx = 2\<rparr> = [] \<and>
   \<lparr>tk_id = 2, m_type = MDL_EXCLUSIVE, m_ctx = 2\<rparr> \<in>
     set (m_list (m_waiting (fst (reschedule_waiters 1 hog_lock (\<lambda>_. EMPTY)))))"
proof -
  let ?t = "\<lparr>tk_id = 2, m_type = MDL_EXCLUSIVE, m_ctx = 2\<rparr>"
  have eq: "reschedule_waiters 1 hog_lock (\<lambda>_. EMPTY) =
      (fst (reschedule_waiters 1 hog_lock (\<lambda>_. EMPTY)), snd (reschedule_waiters 1 hog_lock (\<lambda>_. EMPTY)))" by simp
  have "skip_high_priority 1 hog_lock" "?t \<in> set (m_list (m_waiting hog_lock))"
    "\<not> weak_type (m_strategy hog_lock) (m_type ?t)" by code_simp+
  from mdl_hog_limit_skips_strong [OF hog_lock_inv this(1) eq this(2,3)]
  show ?thesis by (intro conjI) (code_simp, code_simp, code_simp, assumption)
qed

text \<open>
  C12. A client that disconnects while it waits can corrupt the lock. Its thread decides to give
  up without closing the wait slot; when the ticket has been granted in the meantime, the
  removal that follows takes it off the granted list but decrements the counter of the waiting
  list, which wraps around, and leaves the type set in the bitmap of the granted list. The
  queues are not well-formed afterwards, so the bitmap tests of later requests are wrong.
\<close>

theorem mdl_disconnect_race_corrupts:
  assumes "lock_inv l" "t \<in> set (m_list (m_granted l))" "m_list (m_waiting l) = []"
    and "disconnected_remove mx t l ws = (l', ws')"
  shows "m_type_counters (m_waiting l') ! m_type t = - 1 \<and> \<not> lock_ok l'"
proof -
  let ?l1 = "l\<lparr>m_waiting := remove_ticket t (m_waiting l),
      m_granted := (m_granted l)\<lparr>m_list := filter (\<lambda>u. tk_id u \<noteq> tk_id t) (m_list (m_granted l))\<rparr>\<rparr>"
  have ok: "queue_ok (num_types (m_strategy l)) (m_granted l)" "queue_ok (num_types (m_strategy l)) (m_waiting l)"
    using assms(1) by (auto simp: lock_inv_def lock_ok_def)
  have ty: "m_type t < MDL_BACKUP_END" using ok(1) assms(2) by (auto simp: queue_ok_def)
  have "m_type_counters (m_waiting l) ! m_type t = 0" "length (m_type_counters (m_waiting l)) = MDL_BACKUP_END"
    using ok(2) ty assms(3) by (simp_all add: queue_ok_def)
  then have c1: "m_type_counters (m_waiting ?l1) ! m_type t = - 1"
    using ty by (simp add: remove_ticket_def Let_def)
  have same: "m_waiting l' = m_waiting ?l1"
    using assms(3,4) by (auto simp: disconnected_remove_def reschedule_waiters_def Let_def split: if_splits)
  then have c: "m_type_counters (m_waiting l') ! m_type t = - 1" "m_list (m_waiting l') = []"
    using c1 assms(3) by simp_all
  moreover have "\<not> lock_ok l'"
  proof
    assume "lock_ok l'"
    then have "m_type_counters (m_waiting l') ! m_type t = of_nat (count_list (map m_type (m_list (m_waiting l'))) (m_type t))"
      using ty by (simp add: lock_ok_def queue_ok_def)
    with c show False by simp
  qed
  ultimately show ?thesis by simp
qed

theorem mdl_disconnect_race_corrupts_witness:
  "m_type_counters (m_waiting (fst (disconnected_remove 1 \<lparr>tk_id = 1, m_type = MDL_SHARED_READ, m_ctx = 2\<rparr>
     (ex_lock ex2) (\<lambda>_. EMPTY)))) ! MDL_SHARED_READ = - 1"
proof -
  let ?t = "\<lparr>tk_id = 1, m_type = MDL_SHARED_READ, m_ctx = 2\<rparr>"
  have eq: "disconnected_remove 1 ?t (ex_lock ex2) (\<lambda>_. EMPTY) = (fst (disconnected_remove 1 ?t (ex_lock ex2) (\<lambda>_. EMPTY)),
      snd (disconnected_remove 1 ?t (ex_lock ex2) (\<lambda>_. EMPTY)))" by simp
  have "lock_inv (ex_lock ex2)"
    using mdl_inv_locks [OF reachable_mdl_inv [OF ex_reachable(1) [of 1]], of "m_ptr ex_key"]
    by (simp add: lock_at_Some [OF ex_locks(1)] lock_at_inv_def)
  moreover have "m_list (m_waiting (ex_lock ex2)) = []" by code_simp
  ultimately show ?thesis using mdl_disconnect_race_corrupts [OF _ _ _ eq] ex_granted(1) by simp
qed

lemma any_of_result: "snd (any_of f xs) \<longleftrightarrow> (\<exists>x\<in>set xs. f x)"
  by (induction xs) (auto split: prod.splits)


section \<open>Keys\<close>

text \<open>
  C14. The byte string of a key determines the object: two keys built from names without NUL
  bytes of at most \<open>NAME_LEN\<close> bytes are equal, and compare equal in the order
  \<open>acquire_locks\<close> sorts by, exactly when namespace, database and name are the same.
\<close>

theorem mdl_key_injective:
  assumes "name_ok d1" "name_ok n1" "name_ok d2" "name_ok n2"
  shows "(is_equal (mdl_key_init ns1 d1 n1) (mdl_key_init ns2 d2 n2) \<longleftrightarrow> ns1 = ns2 \<and> d1 = d2 \<and> n1 = n2) \<and>
    (key_cmp (mdl_key_init ns1 d1 n1) (mdl_key_init ns2 d2 n2) = 0 \<longleftrightarrow> ns1 = ns2 \<and> d1 = d2 \<and> n1 = n2)"
  using is_equal_init [OF assms] key_cmp_init_eq_0 [OF assms] by blast

theorem mdl_key_injective_witness:
  "\<not> is_equal (mdl_key_init TABLE ''a'' ''bc'') (mdl_key_init TABLE ''ab'' ''c'')"
  using mdl_key_injective [of "''a''" "''bc''" "''ab''" "''c''" TABLE TABLE] by (simp add: name_ok_def)

text \<open>
  C15. The accessors of a key read back the namespace, the database and the name it was built
  from.
\<close>

theorem mdl_key_round_trip:
  assumes "name_ok db" "name_ok nm"
  shows "mdl_namespace (m_ptr (mdl_key_init ns db nm)) = ns \<and> db_name (mdl_key_init ns db nm) = db \<and>
    key_name (mdl_key_init ns db nm) = nm"
  using key_accessors [OF assms] mdl_namespace_init by blast

theorem mdl_key_round_trip_witness:
  "db_name (mdl_key_init TABLE ''test'' ''t1'') = ''test'' \<and> key_name (mdl_key_init TABLE ''test'' ''t1'') = ''t1''"
  using mdl_key_round_trip [of "''test''" "''t1''" TABLE] by (simp add: name_ok_def)

end
