(* ===== verification/Queues.thy ===== *)
theory Queues
  imports Prelude
begin

text \<open>
  The priority queue of \<open>src/mysys/queues.c\<close>: an array heap of pointers to elements, ordered
  by a compare function the user supplies, that can keep the position of every element in the
  element itself. The array is a function from indices to elements, of which positions 1 to
  \<open>elements\<close> are in use; the compare function and the elements are parameters.
\<close>

section \<open>Operations\<close>

record 'e QUEUE =
  root :: "nat \<Rightarrow> 'e"
  elements :: nat
  max_elements :: nat
  auto_extent :: nat
  max_at_top :: int
  keep_pos :: bool
  queue_pos :: "'e \<Rightarrow> nat"

text \<open>
  \<open>init_queue\<close> on memory with content \<open>r\<close>; \<open>alloc\<close> says whether the allocation succeeds. A
  nonzero \<open>offset_to_queue_pos\<close> is the flag \<open>keep_pos\<close>, and the position fields are \<open>pos\<close>.
\<close>

definition init_queue ::
  "bool \<Rightarrow> (nat \<Rightarrow> 'e) \<Rightarrow> ('e \<Rightarrow> nat) \<Rightarrow> nat \<Rightarrow> bool \<Rightarrow> bool \<Rightarrow> nat \<Rightarrow> 'e QUEUE option" where
  "init_queue alloc r pos max_els max_first keeps extent =
     (if \<not> alloc then None
      else Some \<lparr>root = r, elements = 0, max_elements = max_els, auto_extent = extent,
                 max_at_top = (if max_first then -1 else 1), keep_pos = keeps, queue_pos = pos\<rparr>)"

definition resize_queue :: "bool \<Rightarrow> nat \<Rightarrow> 'e QUEUE \<Rightarrow> bool \<times> 'e QUEUE" where
  "resize_queue alloc max_els q =
     (if max_elements q = max_els then (False, q)
      else if \<not> alloc then (True, q)
      else (False, q\<lparr>elements := min (elements q) max_els, max_elements := max_els\<rparr>))"

definition reinit_queue :: "bool \<Rightarrow> nat \<Rightarrow> bool \<Rightarrow> bool \<Rightarrow> nat \<Rightarrow> 'e QUEUE \<Rightarrow> bool \<times> 'e QUEUE" where
  "reinit_queue alloc max_els max_first keeps extent q =
     resize_queue alloc max_els
       (q\<lparr>elements := 0, keep_pos := keeps, auto_extent := extent,
          max_at_top := (if max_first then -1 else 1)\<rparr>)"

text \<open>Storing an element, and its position in it.\<close>

definition store_at :: "nat \<Rightarrow> 'e \<Rightarrow> 'e QUEUE \<Rightarrow> 'e QUEUE" where
  "store_at idx e q =
     q\<lparr>root := (root q)(idx := e),
       queue_pos := (if keep_pos q then (queue_pos q)(e := idx) else queue_pos q)\<rparr>"

lemma store_at_simps [simp]:
  "root (store_at i e q) = (root q)(i := e)"
  "elements (store_at i e q) = elements q"
  "max_elements (store_at i e q) = max_elements q"
  "auto_extent (store_at i e q) = auto_extent q"
  "max_at_top (store_at i e q) = max_at_top q"
  "keep_pos (store_at i e q) = keep_pos q"
  by (simp_all add: store_at_def)

text \<open>The loop of \<open>insert_at\<close>: the hole at \<open>idx\<close> moves up until the element fits.\<close>

function insert_at :: "('e \<Rightarrow> 'e \<Rightarrow> int) \<Rightarrow> 'e \<Rightarrow> nat \<Rightarrow> 'e QUEUE \<Rightarrow> 'e QUEUE" where
  "insert_at cmp e idx q =
     (let next_index = idx div 2
      in if 0 < next_index \<and> cmp e (root q next_index) * max_at_top q < 0
         then insert_at cmp e next_index (store_at idx (root q next_index) q)
         else store_at idx e q)"
  by pat_completeness auto
termination by (relation "measure (\<lambda>(cmp, e, idx, q). idx)") auto

definition queue_insert :: "('e \<Rightarrow> 'e \<Rightarrow> int) \<Rightarrow> 'e \<Rightarrow> 'e QUEUE \<Rightarrow> 'e QUEUE" where
  "queue_insert cmp e q = (let q' = q\<lparr>elements := elements q + 1\<rparr> in insert_at cmp e (elements q') q')"

text \<open>The result is the return code; the new size is computed in an unsigned int.\<close>

definition queue_insert_safe :: "('e \<Rightarrow> 'e \<Rightarrow> int) \<Rightarrow> bool \<Rightarrow> 'e \<Rightarrow> 'e QUEUE \<Rightarrow> nat \<times> 'e QUEUE" where
  "queue_insert_safe cmp alloc e q =
     (if elements q = max_elements q then
        if auto_extent q = 0 then (2, q)
        else (case resize_queue alloc ((max_elements q + auto_extent q) mod 2 ^ 32) q of
                (True, q') \<Rightarrow> (1, q')
              | (False, q') \<Rightarrow> (0, queue_insert cmp e q'))
      else (0, queue_insert cmp e q))"

text \<open>The child of \<open>idx\<close> to move up: the right one if it exists and comes strictly first.\<close>

definition next_child :: "('e \<Rightarrow> 'e \<Rightarrow> int) \<Rightarrow> nat \<Rightarrow> 'e QUEUE \<Rightarrow> nat" where
  "next_child cmp idx q =
     (let n = idx + idx
      in if n < elements q \<and> cmp (root q n) (root q (n + 1)) * max_at_top q > 0 then n + 1 else n)"

lemma next_child_bounds: "idx + idx \<le> next_child cmp idx q" "next_child cmp idx q \<le> idx + idx + 1"
  by (simp_all add: next_child_def Let_def)

text \<open>Positions start at 1, so the loops of \<open>_downheap\<close> and \<open>queue_replace\<close> never see index 0.\<close>

function down_loop :: "('e \<Rightarrow> 'e \<Rightarrow> int) \<Rightarrow> 'e \<Rightarrow> nat \<Rightarrow> 'e QUEUE \<Rightarrow> 'e QUEUE" where
  "down_loop cmp e idx q =
     (if 0 < idx \<and> idx \<le> elements q div 2 then
        let next_index = next_child cmp idx q
        in if cmp (root q next_index) e * max_at_top q \<ge> 0 then store_at idx e q
           else down_loop cmp e next_index (store_at idx (root q next_index) q)
      else store_at idx e q)"
  by pat_completeness auto
termination
proof (relation "measure (\<lambda>(cmp, e, idx, q). elements q + 2 - idx)", goal_cases)
  case (2 cmp e idx q n)
  then show ?case using next_child_bounds(1) [of idx cmp q] by (auto intro: diff_less_mono2)
qed simp

definition downheap :: "('e \<Rightarrow> 'e \<Rightarrow> int) \<Rightarrow> nat \<Rightarrow> 'e QUEUE \<Rightarrow> 'e QUEUE" where
  "downheap cmp idx q = down_loop cmp (root q idx) idx q"

function replace_loop :: "('e \<Rightarrow> 'e \<Rightarrow> int) \<Rightarrow> 'e \<Rightarrow> nat \<Rightarrow> bool \<Rightarrow> 'e QUEUE \<Rightarrow> nat \<times> 'e QUEUE" where
  "replace_loop cmp e idx first q =
     (if 0 < idx \<and> idx \<le> elements q div 2 then
        let next_index = next_child cmp idx q
        in if first \<and> cmp (root q next_index) e * max_at_top q \<ge> 0 then (idx, store_at idx e q)
           else replace_loop cmp e next_index False (store_at idx (root q next_index) q)
      else (idx, q))"
  by pat_completeness auto
termination
proof (relation "measure (\<lambda>(cmp, e, idx, first, q). elements q + 2 - idx)", goal_cases)
  case (2 cmp e idx first q n)
  then show ?case using next_child_bounds(1) [of idx cmp q] by (auto intro: diff_less_mono2)
qed simp

definition queue_replace :: "('e \<Rightarrow> 'e \<Rightarrow> int) \<Rightarrow> nat \<Rightarrow> 'e QUEUE \<Rightarrow> 'e QUEUE" where
  "queue_replace cmp idx q =
     (case replace_loop cmp (root q idx) idx True q of (idx', q') \<Rightarrow> insert_at cmp (root q idx) idx' q')"

definition queue_remove :: "('e \<Rightarrow> 'e \<Rightarrow> int) \<Rightarrow> nat \<Rightarrow> 'e QUEUE \<Rightarrow> 'e \<times> 'e QUEUE" where
  "queue_remove cmp idx q =
     (root q idx,
      queue_replace cmp idx (q\<lparr>root := (root q)(idx := root q (elements q)), elements := elements q - 1\<rparr>))"

fun queue_fix_loop :: "('e \<Rightarrow> 'e \<Rightarrow> int) \<Rightarrow> nat \<Rightarrow> 'e QUEUE \<Rightarrow> 'e QUEUE" where
  "queue_fix_loop cmp 0 q = q"
| "queue_fix_loop cmp (Suc i) q = queue_fix_loop cmp i (downheap cmp (Suc i) q)"

definition queue_fix :: "('e \<Rightarrow> 'e \<Rightarrow> int) \<Rightarrow> 'e QUEUE \<Rightarrow> 'e QUEUE" where
  "queue_fix cmp q = queue_fix_loop cmp (elements q div 2) q"

definition queue_top :: "'e QUEUE \<Rightarrow> 'e" where
  "queue_top q = root q 1"

declare insert_at.simps [simp del] down_loop.simps [simp del] replace_loop.simps [simp del]

section \<open>The order of the elements\<close>

definition before :: "('e \<Rightarrow> 'e \<Rightarrow> int) \<Rightarrow> int \<Rightarrow> 'e \<Rightarrow> 'e \<Rightarrow> bool" where
  "before cmp m a b \<longleftrightarrow> cmp a b * m \<le> 0"

text \<open>
  What the queue needs of the compare function: swapping the arguments swaps the sign, and
  being at most is transitive.
\<close>

locale queue_compare =
  fixes cmp :: "'e \<Rightarrow> 'e \<Rightarrow> int"
  assumes cmp_swap: "cmp b a < 0 \<longleftrightarrow> 0 < cmp a b"
    and cmp_trans: "cmp a b \<le> 0 \<Longrightarrow> cmp b c \<le> 0 \<Longrightarrow> cmp a c \<le> 0"
begin

lemma cmp_swap_le: "cmp b a \<le> 0 \<longleftrightarrow> 0 \<le> cmp a b"
  using cmp_swap [of a b] cmp_swap [of b a] by linarith

lemma cmp_trans_ge: "0 \<le> cmp a b \<Longrightarrow> 0 \<le> cmp b c \<Longrightarrow> 0 \<le> cmp a c"
  using cmp_trans [of c b a] by (simp add: cmp_swap_le)

lemma before_trans:
  assumes "m = 1 \<or> m = -1" "before cmp m a b" "before cmp m b c"
  shows "before cmp m a c"
  using assms cmp_trans [of a b c] cmp_trans_ge [of a b c] by (auto simp: before_def)

lemma not_less_before: "m = 1 \<or> m = -1 \<Longrightarrow> \<not> cmp a b * m < 0 \<Longrightarrow> before cmp m b a"
  using cmp_swap_le [of a b] cmp_swap_le [of b a] by (auto simp: before_def)

lemma less_before: "cmp a b * m < 0 \<Longrightarrow> before cmp m a b"
  by (simp add: before_def)

lemma before_total: "m = 1 \<or> m = -1 \<Longrightarrow> \<not> before cmp m a b \<Longrightarrow> before cmp m b a"
  using not_less_before [of m a b] by (auto simp: before_def)

lemma before_refl: "before cmp m a a"
  using cmp_swap [of a a] by (auto simp: before_def)

end

section \<open>Heaps with a hole\<close>

text \<open>
  \<open>heap_from k\<close>: every element from position \<open>k\<close> down comes before its children. \<open>hole_heap\<close>:
  the same for the elements other than the one at the hole \<open>h\<close>, seen across the hole.
\<close>

definition heap_from :: "('e \<Rightarrow> 'e \<Rightarrow> int) \<Rightarrow> int \<Rightarrow> (nat \<Rightarrow> 'e) \<Rightarrow> nat \<Rightarrow> nat \<Rightarrow> bool" where
  "heap_from cmp m r n k \<longleftrightarrow>
     (\<forall>i. 2 \<le> i \<and> i \<le> n \<and> k \<le> i div 2 \<longrightarrow> before cmp m (r (i div 2)) (r i))"

definition hole_heap :: "('e \<Rightarrow> 'e \<Rightarrow> int) \<Rightarrow> int \<Rightarrow> (nat \<Rightarrow> 'e) \<Rightarrow> nat \<Rightarrow> nat \<Rightarrow> nat \<Rightarrow> bool" where
  "hole_heap cmp m r n k h \<longleftrightarrow>
     (\<forall>i. 2 \<le> i \<and> i \<le> n \<and> k \<le> i div 2 \<and> i \<noteq> h \<and> i div 2 \<noteq> h \<longrightarrow> before cmp m (r (i div 2)) (r i)) \<and>
     (\<forall>c. c \<le> n \<and> c div 2 = h \<and> 2 \<le> h \<and> k \<le> h div 2 \<longrightarrow> before cmp m (r (h div 2)) (r c))"

definition above_children :: "('e \<Rightarrow> 'e \<Rightarrow> int) \<Rightarrow> int \<Rightarrow> (nat \<Rightarrow> 'e) \<Rightarrow> nat \<Rightarrow> nat \<Rightarrow> 'e \<Rightarrow> bool" where
  "above_children cmp m r n h e \<longleftrightarrow> (\<forall>c. c \<le> n \<and> c div 2 = h \<longrightarrow> before cmp m e (r c))"

definition below_parent :: "('e \<Rightarrow> 'e \<Rightarrow> int) \<Rightarrow> int \<Rightarrow> (nat \<Rightarrow> 'e) \<Rightarrow> nat \<Rightarrow> nat \<Rightarrow> 'e \<Rightarrow> bool" where
  "below_parent cmp m r k h e \<longleftrightarrow> (2 \<le> h \<and> k \<le> h div 2 \<longrightarrow> before cmp m (r (h div 2)) e)"

lemma heap_fromD:
  "heap_from cmp m r n k \<Longrightarrow> 2 \<le> i \<Longrightarrow> i \<le> n \<Longrightarrow> k \<le> i div 2 \<Longrightarrow> before cmp m (r (i div 2)) (r i)"
  by (simp add: heap_from_def)

lemma hole_heapD:
  "hole_heap cmp m r n k h \<Longrightarrow> 2 \<le> i \<Longrightarrow> i \<le> n \<Longrightarrow> k \<le> i div 2 \<Longrightarrow> i \<noteq> h \<Longrightarrow> i div 2 \<noteq> h \<Longrightarrow>
     before cmp m (r (i div 2)) (r i)"
  "hole_heap cmp m r n k h \<Longrightarrow> c \<le> n \<Longrightarrow> c div 2 = h \<Longrightarrow> 2 \<le> h \<Longrightarrow> k \<le> h div 2 \<Longrightarrow>
     before cmp m (r (h div 2)) (r c)"
  by (simp_all add: hole_heap_def)

lemma hole_heapI:
  assumes "\<And>i. 2 \<le> i \<Longrightarrow> i \<le> n \<Longrightarrow> k \<le> i div 2 \<Longrightarrow> i \<noteq> h \<Longrightarrow> i div 2 \<noteq> h \<Longrightarrow> before cmp m (r (i div 2)) (r i)"
    and "\<And>c. c \<le> n \<Longrightarrow> c div 2 = h \<Longrightarrow> 2 \<le> h \<Longrightarrow> k \<le> h div 2 \<Longrightarrow> before cmp m (r (h div 2)) (r c)"
  shows "hole_heap cmp m r n k h"
  using assms by (simp add: hole_heap_def)

lemma half_facts:
  "2 \<le> (i::nat) \<Longrightarrow> i div 2 \<noteq> i" "2 \<le> (i::nat) \<Longrightarrow> 1 \<le> i div 2" "2 \<le> (i::nat) \<Longrightarrow> i div 2 < i"
  "1 \<le> (i::nat) div 2 \<Longrightarrow> 2 \<le> i"
  by presburger+

lemma heap_from_shorter: "heap_from cmp m r n k \<Longrightarrow> n' \<le> n \<Longrightarrow> heap_from cmp m r n' k"
  by (auto simp: heap_from_def)

lemma hole_heap_shorter: "hole_heap cmp m r n k h \<Longrightarrow> n' \<le> n \<Longrightarrow> hole_heap cmp m r n' k h"
  by (auto simp: hole_heap_def)

lemma heap_from_fill:
  assumes hh: "hole_heap cmp m r n k h" and ab: "above_children cmp m r n h e"
    and be: "below_parent cmp m r k h e" "1 \<le> h"
  shows "heap_from cmp m (r(h := e)) n k"
  unfolding heap_from_def
proof (intro allI impI, elim conjE)
  fix i
  assume i: "2 \<le> i" "i \<le> n" "k \<le> i div 2"
  consider "i = h" | "i \<noteq> h" "i div 2 = h" | "i \<noteq> h" "i div 2 \<noteq> h" by blast
  then show "before cmp m ((r(h := e)) (i div 2)) ((r(h := e)) i)"
  proof cases
    case 1
    then show ?thesis using be i half_facts(1) [OF i(1)] by (simp add: below_parent_def)
  next
    case 2
    then show ?thesis using ab i by (simp add: above_children_def)
  next
    case 3
    then show ?thesis using hole_heapD(1) [OF hh i 3] by simp
  qed
qed

lemma heap_from_hole:
  assumes "queue_compare cmp" "m = 1 \<or> m = -1" "heap_from cmp m r n k" "h \<le> n"
  shows "hole_heap cmp m r n k h"
proof (rule hole_heapI)
  fix c assume c: "c \<le> n" "c div 2 = h" "2 \<le> h" "k \<le> h div 2"
  then have c2: "2 \<le> c" "k \<le> c div 2" using half_facts(3) [of h] half_facts(4) [of c] by auto
  have "before cmp m (r h) (r c)" using heap_fromD [OF assms(3) c2(1) c(1) c2(2)] c(2) by simp
  moreover have "before cmp m (r (h div 2)) (r h)" using heap_fromD [OF assms(3) c(3) assms(4) c(4)] .
  ultimately show "before cmp m (r (h div 2)) (r c)"
    using queue_compare.before_trans [OF assms(1,2)] by blast
qed (rule heap_fromD [OF assms(3)])

text \<open>The hole moves up to its parent: the parent's element fills it.\<close>

lemma hole_up:
  assumes c: "queue_compare cmp" "m = 1 \<or> m = -1" and hh: "hole_heap cmp m r n 1 h" and h: "2 \<le> h" "h \<le> n"
    and e: "before cmp m e (r (h div 2))"
  shows "hole_heap cmp m (r(h := r (h div 2))) n 1 (h div 2)"
    and "above_children cmp m (r(h := r (h div 2))) n (h div 2) e"
proof -
  let ?p = "h div 2" and ?r = "r(h := r (h div 2))"
  have p: "1 \<le> ?p" "?p < h" using half_facts h(1) by blast+
  note trans = queue_compare.before_trans [OF c]
  have edge: "before cmp m (r ?p) (r c)" if "c \<le> n" "c div 2 = ?p" "c \<noteq> h" for c
    using hole_heapD(1) [OF hh half_facts(4) that(1)] that p by simp
  have up: "before cmp m (r (?p div 2)) (r ?p)" if "2 \<le> ?p"
    using hole_heapD(1) [OF hh that] half_facts(2,3) [OF that] p h by simp
  show "hole_heap cmp m ?r n 1 ?p"
  proof (rule hole_heapI)
    fix i assume i: "2 \<le> i" "i \<le> n" "1 \<le> i div 2" "i \<noteq> ?p" "i div 2 \<noteq> ?p"
    then have "i \<noteq> h" by auto
    with i h show "before cmp m (?r (i div 2)) (?r i)"
      using hole_heapD(1) [OF hh i(1,2,3)] hole_heapD(2) [OF hh i(2)] p by (cases "i div 2 = h") auto
  next
    fix c assume c: "c \<le> n" "c div 2 = ?p" "2 \<le> ?p" "1 \<le> ?p div 2"
    have "?p div 2 \<noteq> h" using half_facts(3) [OF c(3)] p by simp
    then show "before cmp m (?r (?p div 2)) (?r c)"
      using up [OF c(3)] edge [OF c(1,2)] trans by (cases "c = h") auto
  qed
  show "above_children cmp m ?r n ?p e"
    unfolding above_children_def using e edge trans by auto
qed

text \<open>The hole moves down to a child that comes before its sibling.\<close>

lemma hole_down:
  assumes hh: "hole_heap cmp m r n k h" and h: "1 \<le> h" and c: "c \<le> n" "c div 2 = h"
    and least: "\<And>s. s \<le> n \<Longrightarrow> s div 2 = h \<Longrightarrow> before cmp m (r c) (r s)"
  shows "hole_heap cmp m (r(h := r c)) n k c"
proof (rule hole_heapI)
  have ch: "h < c" using c(2) h half_facts(3,4) [of c] by simp
  fix i assume i: "2 \<le> i" "i \<le> n" "k \<le> i div 2" "i \<noteq> c" "i div 2 \<noteq> c"
  consider "i = h" | "i \<noteq> h" "i div 2 = h" | "i \<noteq> h" "i div 2 \<noteq> h" by blast
  then show "before cmp m ((r(h := r c)) (i div 2)) ((r(h := r c)) i)"
  proof cases
    case 1
    then show ?thesis using hole_heapD(2) [OF hh c] i half_facts(1) [OF i(1)] by simp
  next
    case 2
    then show ?thesis using least [OF i(2)] by simp
  next
    case 3
    then show ?thesis using hole_heapD(1) [OF hh i(1-3) 3] by simp
  qed
next
  fix d assume d: "d \<le> n" "d div 2 = c" "2 \<le> c" "k \<le> c div 2"
  have ch: "h < c" using c(2) h half_facts(3,4) [of c] by simp
  moreover have "2 \<le> d" "c < d" using d half_facts(3,4) [of d] by auto
  ultimately show "before cmp m ((r(h := r c)) (c div 2)) ((r(h := r c)) d)"
    using hole_heapD(1) [OF hh _ d(1)] d c h by simp
qed

section \<open>Content and positions\<close>

definition content :: "'e QUEUE \<Rightarrow> 'e multiset" where
  "content q = image_mset (root q) (mset_set {1..elements q})"

definition content_without :: "nat \<Rightarrow> 'e QUEUE \<Rightarrow> 'e multiset" where
  "content_without h q = image_mset (root q) (mset_set ({1..elements q} - {h}))"

text \<open>Every element other than the one at \<open>h\<close> knows its position.\<close>

definition positions :: "nat \<Rightarrow> 'e QUEUE \<Rightarrow> bool" where
  "positions h q \<longleftrightarrow>
     (keep_pos q \<longrightarrow> inj_on (root q) ({1..elements q} - {h}) \<and>
       (\<forall>i\<in>{1..elements q} - {h}. queue_pos q (root q i) = i))"

lemma content_split: "1 \<le> h \<Longrightarrow> h \<le> elements q \<Longrightarrow> content q = add_mset (root q h) (content_without h q)"
  unfolding content_def content_without_def
  by (subst mset_set.remove [of _ h]) auto

lemma set_content_without: "x \<in># content_without h q \<longleftrightarrow> (\<exists>i\<in>{1..elements q} - {h}. x = root q i)"
  by (auto simp: content_without_def)

lemma content_without_cong:
  assumes "\<And>i. i \<in> {1..elements q} - {h} \<Longrightarrow> root q' i = root q i" "elements q' = elements q"
  shows "content_without h q' = content_without h q"
  unfolding content_without_def using assms by (auto intro!: image_mset_cong)

lemma content_store: "1 \<le> h \<Longrightarrow> h \<le> elements q \<Longrightarrow> content (store_at h e q) = add_mset e (content_without h q)"
  using content_split [of h "store_at h e q"] content_without_cong [of q h "store_at h e q"] by simp

lemma content_move:
  assumes "1 \<le> h" "h \<le> elements q" "1 \<le> j" "j \<le> elements q" "j \<noteq> h"
  shows "content_without j (store_at h (root q j) q) = content_without h q"
proof -
  have "add_mset (root q j) (content_without j (store_at h (root q j) q)) = add_mset (root q j) (content_without h q)"
    using content_split [of j "store_at h (root q j) q"] content_store [of h q "root q j"] assms by simp
  then show ?thesis by simp
qed

lemma positions_store_at:
  assumes inj: "inj_on (root q) A" and pos: "\<forall>i\<in>A. queue_pos q (root q i) = i" and k: "keep_pos q"
    and h: "h \<notin> A" and e: "\<forall>i\<in>A. root q i \<noteq> e"
  shows "inj_on (root (store_at h e q)) (insert h A)"
    and "\<forall>i\<in>insert h A. queue_pos (store_at h e q) (root (store_at h e q) i) = i"
proof -
  show "inj_on (root (store_at h e q)) (insert h A)"
    using inj h e by (auto simp: inj_on_def)
  show "\<forall>i\<in>insert h A. queue_pos (store_at h e q) (root (store_at h e q) i) = i"
    using pos k h e by (auto simp: store_at_def)
qed

lemma positions_move:
  assumes "positions h q" "1 \<le> h" "h \<le> elements q" "1 \<le> j" "j \<le> elements q" "j \<noteq> h"
  shows "positions j (store_at h (root q j) q)"
proof (cases "keep_pos q")
  case True
  let ?A = "{1..elements q} - {h, j}"
  have sub: "?A \<subseteq> {1..elements q} - {h}" by auto
  have inj: "inj_on (root q) ({1..elements q} - {h})"
    and pos: "\<forall>i\<in>{1..elements q} - {h}. queue_pos q (root q i) = i"
    using assms(1) True by (auto simp: positions_def)
  have "\<forall>i\<in>?A. root q i \<noteq> root q j" using inj assms(4-6) by (auto dest: inj_onD)
  moreover have "insert h ?A = {1..elements q} - {j}" using assms by auto
  ultimately show ?thesis
    using positions_store_at [of q ?A h "root q j"] inj_on_subset [OF inj sub] pos True
    by (simp add: positions_def)
qed (simp add: positions_def)

lemma positions_store:
  assumes "positions h q" "1 \<le> h" "h \<le> elements q" "keep_pos q \<Longrightarrow> e \<notin># content_without h q"
  shows "positions 0 (store_at h e q)"
proof (cases "keep_pos q")
  case True
  let ?A = "{1..elements q} - {h}"
  have "\<forall>i\<in>?A. root q i \<noteq> e" using assms(4) [OF True] by (auto simp: content_without_def)
  moreover have "insert h ?A = {1..elements q} - {0}" using assms by auto
  ultimately show ?thesis
    using positions_store_at [of q ?A h e] assms(1) True by (simp add: positions_def)
qed (simp add: positions_def)

lemma positions_over:
  assumes "positions h q" "keep_pos q \<Longrightarrow> e \<notin># content_without h q"
  shows "positions h (store_at h e q)"
proof (cases "keep_pos q")
  case True
  have e: "root q i \<noteq> e" if "i \<in> {1..elements q} - {h}" for i
    using assms(2) [OF True] that by (auto simp: content_without_def)
  have "inj_on ((root q)(h := e)) ({1..elements q} - {h}) = inj_on (root q) ({1..elements q} - {h})"
    by (rule inj_on_cong) simp
  then show ?thesis using assms(1) True e by (simp add: positions_def store_at_def)
qed (simp add: positions_def)

section \<open>The loops\<close>

text \<open>The queue with a hole at \<open>h\<close> holds the multiset \<open>M\<close>; and a queue without one.\<close>

definition hole_ok :: "('e \<Rightarrow> 'e \<Rightarrow> int) \<Rightarrow> nat \<Rightarrow> 'e multiset \<Rightarrow> 'e QUEUE \<Rightarrow> nat \<Rightarrow> bool" where
  "hole_ok cmp k M q h \<longleftrightarrow>
     1 \<le> h \<and> h \<le> elements q \<and> hole_heap cmp (max_at_top q) (root q) (elements q) k h \<and>
     content_without h q = M \<and> positions h q"

definition queue_inv :: "('e \<Rightarrow> 'e \<Rightarrow> int) \<Rightarrow> 'e QUEUE \<Rightarrow> bool" where
  "queue_inv cmp q \<longleftrightarrow>
     (max_at_top q = 1 \<or> max_at_top q = -1) \<and> elements q \<le> max_elements q \<and>
     heap_from cmp (max_at_top q) (root q) (elements q) 1 \<and> positions 0 q"

text \<open>The fields that no operation on the heap changes.\<close>

definition same_frame :: "'e QUEUE \<Rightarrow> 'e QUEUE \<Rightarrow> bool" where
  "same_frame q q' \<longleftrightarrow>
     elements q' = elements q \<and> max_elements q' = max_elements q \<and> auto_extent q' = auto_extent q \<and>
     max_at_top q' = max_at_top q \<and> keep_pos q' = keep_pos q"

lemma same_frame_refl [simp]: "same_frame q q"
  by (simp add: same_frame_def)

lemma same_frame_store [simp]: "same_frame (store_at i e q) q' \<longleftrightarrow> same_frame q q'"
  by (simp add: same_frame_def)

lemma same_frame_store2 [simp]: "same_frame q (store_at i e q)"
  by (simp add: same_frame_def)

text \<open>\<open>q'\<close> is \<open>q\<close> with the hole filled: a heap from \<open>k\<close> on that holds \<open>e\<close> and \<open>M\<close>.\<close>

definition filled :: "('e \<Rightarrow> 'e \<Rightarrow> int) \<Rightarrow> nat \<Rightarrow> 'e \<Rightarrow> 'e multiset \<Rightarrow> 'e QUEUE \<Rightarrow> 'e QUEUE \<Rightarrow> bool" where
  "filled cmp k e M q q' \<longleftrightarrow>
     heap_from cmp (max_at_top q) (root q') (elements q) k \<and> content q' = add_mset e M \<and>
     positions 0 q' \<and> same_frame q q'"

lemma filled_frame: "filled cmp k e M (store_at i x q) q' \<longleftrightarrow> filled cmp k e M q q'"
  by (simp add: filled_def)

lemma hole_ok_fill:
  assumes "hole_ok cmp k M q h" "above_children cmp (max_at_top q) (root q) (elements q) h e"
    and "below_parent cmp (max_at_top q) (root q) k h e" "keep_pos q \<longrightarrow> e \<notin># M"
  shows "filled cmp k e M q (store_at h e q)"
  using assms heap_from_fill [of cmp "max_at_top q" "root q" "elements q" k h e]
  by (auto simp: filled_def hole_ok_def content_store positions_store)

lemma insert_at_move:
  "0 < h div 2 \<Longrightarrow> cmp e (root q (h div 2)) * max_at_top q < 0 \<Longrightarrow>
     insert_at cmp e h q = insert_at cmp e (h div 2) (store_at h (root q (h div 2)) q)"
  by (subst insert_at.simps) (simp add: Let_def)

lemma insert_at_stop:
  "h div 2 = 0 \<or> cmp e (root q (h div 2)) * max_at_top q \<ge> 0 \<Longrightarrow> insert_at cmp e h q = store_at h e q"
  by (subst insert_at.simps) (auto simp: Let_def)

lemma insert_at_ok:
  assumes "queue_compare cmp" "max_at_top q = 1 \<or> max_at_top q = -1"
    and "hole_ok cmp 1 M q h" "above_children cmp (max_at_top q) (root q) (elements q) h e"
    and "keep_pos q \<longrightarrow> e \<notin># M"
  shows "filled cmp 1 e M q (insert_at cmp e h q)"
  using assms
proof (induction cmp e h q rule: insert_at.induct)
  case (1 cmp e h q)
  note c = 1(2,3)
  let ?p = "h div 2" and ?m = "max_at_top q"
  have h: "1 \<le> h" "h \<le> elements q" and hh: "hole_heap cmp ?m (root q) (elements q) 1 h"
    using 1(4) by (auto simp: hole_ok_def)
  show ?case
  proof (cases "0 < ?p \<and> cmp e (root q ?p) * ?m < 0")
    case True
    let ?q = "store_at h (root q ?p) q"
    have p: "2 \<le> h" "1 \<le> ?p" "?p < h" using True half_facts [of h] by auto
    have "before cmp ?m e (root q ?p)" using True by (simp add: before_def)
    note up = hole_up [OF c hh p(1) h(2) this]
    have hole: "hole_ok cmp 1 M ?q ?p"
      using 1(4) up(1) p h by (auto simp: hole_ok_def content_move positions_move)
    have "filled cmp 1 e M ?q (insert_at cmp e ?p ?q)"
      by (rule 1(1) [OF refl True c(1) _ hole], unfold store_at_simps) (fact c(2), fact up(2), fact 1(6))
    then show ?thesis using insert_at_move True by (metis filled_frame)
  next
    case False
    have "below_parent cmp ?m (root q) 1 h e"
      using False queue_compare.not_less_before [OF c] by (auto simp: below_parent_def)
    from hole_ok_fill [OF 1(4,5) this 1(6)] False show ?thesis by (simp add: insert_at_stop not_less)
  qed
qed

lemma next_child_ok:
  assumes c: "queue_compare cmp" "max_at_top q = 1 \<or> max_at_top q = -1" and h: "1 \<le> h" "h \<le> elements q div 2"
  shows "next_child cmp h q \<le> elements q" "next_child cmp h q div 2 = h" "h < next_child cmp h q"
    and "\<And>s. s \<le> elements q \<Longrightarrow> s div 2 = h \<Longrightarrow> before cmp (max_at_top q) (root q (next_child cmp h q)) (root q s)"
proof -
  have n: "h + h \<le> elements q" using h(2) by linarith
  then show "next_child cmp h q \<le> elements q" "next_child cmp h q div 2 = h" "h < next_child cmp h q"
    using h(1) by (auto simp: next_child_def Let_def)
  fix s assume s: "s \<le> elements q" "s div 2 = h"
  then have "s = h + h \<or> s = h + h + 1" by auto
  then show "before cmp (max_at_top q) (root q (next_child cmp h q)) (root q s)"
    using queue_compare.before_total [OF c] queue_compare.before_refl [OF c(1)] s(1)
    by (auto simp: next_child_def Let_def before_def not_less)
qed

lemma down_loop_move:
  "1 \<le> h \<Longrightarrow> h \<le> elements q div 2 \<Longrightarrow> cmp (root q (next_child cmp h q)) e * max_at_top q < 0 \<Longrightarrow>
     down_loop cmp e h q = down_loop cmp e (next_child cmp h q) (store_at h (root q (next_child cmp h q)) q)"
  by (subst down_loop.simps) (simp add: Let_def)

lemma down_loop_stop:
  "h > elements q div 2 \<or> cmp (root q (next_child cmp h q)) e * max_at_top q \<ge> 0 \<Longrightarrow>
     down_loop cmp e h q = store_at h e q"
  by (subst down_loop.simps) (auto simp: Let_def)

lemma below_parent_child:
  "c div 2 = h \<Longrightarrow> h < c \<Longrightarrow> before cmp m (r c) e \<Longrightarrow> below_parent cmp m (r(h := r c)) k c e"
  by (auto simp: below_parent_def)

lemma hole_ok_down:
  assumes c: "queue_compare cmp" "max_at_top q = 1 \<or> max_at_top q = -1"
    and hole: "hole_ok cmp k M q h" and h: "h \<le> elements q div 2"
  shows "hole_ok cmp k M (store_at h (root q (next_child cmp h q)) q) (next_child cmp h q)"
proof -
  have h1: "1 \<le> h" "h \<le> elements q" using hole by (auto simp: hole_ok_def)
  note nc = next_child_ok [OF c h1(1) h]
  have "hole_heap cmp (max_at_top q) ((root q)(h := root q (next_child cmp h q))) (elements q) k (next_child cmp h q)"
    using hole nc by (intro hole_down) (auto simp: hole_ok_def)
  then show ?thesis using hole nc h1 by (auto simp: hole_ok_def content_move positions_move)
qed

lemma above_children_least:
  assumes c: "queue_compare cmp" "max_at_top q = 1 \<or> max_at_top q = -1" and h: "1 \<le> h"
    and stop: "h > elements q div 2 \<or> cmp (root q (next_child cmp h q)) e * max_at_top q \<ge> 0"
  shows "above_children cmp (max_at_top q) (root q) (elements q) h e"
  unfolding above_children_def
proof (intro allI impI, elim conjE)
  fix s assume s: "s \<le> elements q" "s div 2 = h"
  then have h2: "h \<le> elements q div 2" by (metis div_le_mono)
  with stop have "before cmp (max_at_top q) e (root q (next_child cmp h q))"
    using queue_compare.not_less_before [OF c] by (meson not_less)
  with next_child_ok(4) [OF c h h2 s] show "before cmp (max_at_top q) e (root q s)"
    using queue_compare.before_trans [OF c] by blast
qed

lemma down_loop_ok:
  assumes "queue_compare cmp" "max_at_top q = 1 \<or> max_at_top q = -1"
    and "hole_ok cmp k M q h" "below_parent cmp (max_at_top q) (root q) k h e"
    and "keep_pos q \<longrightarrow> e \<notin># M"
  shows "filled cmp k e M q (down_loop cmp e h q)"
  using assms
proof (induction cmp e h q rule: down_loop.induct)
  case (1 cmp e h q)
  note c = 1(2,3)
  let ?c = "next_child cmp h q" and ?m = "max_at_top q"
  have h: "1 \<le> h" using 1(4) by (simp add: hole_ok_def)
  show ?case
  proof (cases "h \<le> elements q div 2 \<and> cmp (root q ?c) e * ?m < 0")
    case True
    let ?q = "store_at h (root q ?c) q"
    note nc = next_child_ok [OF c h conjunct1 [OF True]]
    have hole: "hole_ok cmp k M ?q ?c" using hole_ok_down [OF c 1(4)] True by blast
    have par: "below_parent cmp ?m ((root q)(h := root q ?c)) k ?c e"
      using nc True by (intro below_parent_child) (auto simp: before_def)
    have g: "0 < h \<and> h \<le> elements q div 2" "\<not> 0 \<le> cmp (root q ?c) e * ?m" using True h by auto
    have "filled cmp k e M ?q (down_loop cmp e ?c ?q)"
      by (rule 1(1) [OF g(1) refl g(2) c(1) _ hole], unfold store_at_simps) (fact c(2), fact par, fact 1(6))
    then show ?thesis using down_loop_move [OF h] True by (metis filled_frame)
  next
    case False
    then have stop: "h > elements q div 2 \<or> cmp (root q ?c) e * ?m \<ge> 0" by auto
    from hole_ok_fill [OF 1(4) above_children_least [OF c h stop] 1(5,6)] show ?thesis
      unfolding down_loop_stop [where h = h and q = q and e = e and cmp = cmp, OF stop] .
  qed
qed

text \<open>
  The loop of \<open>queue_replace\<close> ends with a hole whose children, if any, the element comes
  before; at the first position it may already have stored the element.
\<close>

lemma replace_loop_move:
  "1 \<le> h \<Longrightarrow> h \<le> elements q div 2 \<Longrightarrow> \<not> (first \<and> cmp (root q (next_child cmp h q)) e * max_at_top q \<ge> 0) \<Longrightarrow>
     replace_loop cmp e h first q =
     replace_loop cmp e (next_child cmp h q) False (store_at h (root q (next_child cmp h q)) q)"
  by (subst replace_loop.simps) (auto simp: Let_def)

lemma replace_loop_leaf: "h > elements q div 2 \<Longrightarrow> replace_loop cmp e h first q = (h, q)"
  by (subst replace_loop.simps) auto

lemma replace_loop_first:
  "1 \<le> h \<Longrightarrow> h \<le> elements q div 2 \<Longrightarrow> cmp (root q (next_child cmp h q)) e * max_at_top q \<ge> 0 \<Longrightarrow>
     replace_loop cmp e h True q = (h, store_at h e q)"
  by (subst replace_loop.simps) (simp add: Let_def)

lemma hole_heap_over:
  assumes "hole_heap cmp m r n k h"
  shows "hole_heap cmp m (r(h := e)) n k h"
proof (rule hole_heapI)
  fix i assume "2 \<le> i" "i \<le> n" "k \<le> i div 2" "i \<noteq> h" "i div 2 \<noteq> h"
  then show "before cmp m ((r(h := e)) (i div 2)) ((r(h := e)) i)"
    using hole_heapD(1) [OF assms, of i] by simp
next
  fix c assume c: "c \<le> n" "c div 2 = h" "2 \<le> h" "k \<le> h div 2"
  then have "c \<noteq> h" "h div 2 \<noteq> h" using half_facts(1) by auto
  then show "before cmp m ((r(h := e)) (h div 2)) ((r(h := e)) c)"
    using hole_heapD(2) [OF assms c] by simp
qed

lemma above_children_over: "1 \<le> h \<Longrightarrow> above_children cmp m (r(h := x)) n h e \<longleftrightarrow> above_children cmp m r n h e"
proof -
  assume h: "1 \<le> h"
  have "(r(h := x)) c = r c" if "c div 2 = h" for c using h that by (cases "c = h") auto
  then show ?thesis by (simp add: above_children_def)
qed

lemma hole_ok_store:
  assumes "hole_ok cmp k M q h" "keep_pos q \<longrightarrow> e \<notin># M"
  shows "hole_ok cmp k M (store_at h e q) h"
proof -
  have "content_without h (store_at h e q) = content_without h q"
    by (rule content_without_cong) auto
  moreover have "positions h (store_at h e q)"
    using assms by (intro positions_over) (auto simp: hole_ok_def)
  moreover have "hole_heap cmp (max_at_top q) ((root q)(h := e)) (elements q) k h"
    using assms by (intro hole_heap_over) (simp add: hole_ok_def)
  ultimately show ?thesis using assms unfolding hole_ok_def store_at_simps by blast
qed

lemma replace_loop_ok:
  assumes "queue_compare cmp" "max_at_top q = 1 \<or> max_at_top q = -1"
    and "hole_ok cmp 1 M q h" "keep_pos q \<longrightarrow> e \<notin># M"
    and "replace_loop cmp e h first q = (h', q')"
  shows "hole_ok cmp 1 M q' h' \<and> above_children cmp (max_at_top q') (root q') (elements q') h' e \<and> same_frame q q'"
  using assms
proof (induction cmp e h first q rule: replace_loop.induct)
  case (1 cmp e h first q)
  note c = 1(2,3)
  let ?c = "next_child cmp h q" and ?m = "max_at_top q"
  have h: "1 \<le> h" using 1(4) by (simp add: hole_ok_def)
  consider (leaf) "h > elements q div 2"
    | (stop) "h \<le> elements q div 2" "first" "cmp (root q ?c) e * ?m \<ge> 0"
    | (move) "h \<le> elements q div 2" "\<not> (first \<and> cmp (root q ?c) e * ?m \<ge> 0)" by (meson not_le)
  then show ?case
  proof cases
    case leaf
    then have "h' = h" "q' = q" using 1(6) by (simp_all add: replace_loop_leaf)
    with above_children_least [OF c h disjI1 [OF leaf]] 1(4) show ?thesis by simp
  next
    case stop
    then have q': "h' = h" "q' = store_at h e q" using 1(6) h replace_loop_first [where cmp = cmp and h = h and q = q and e = e, OF h stop(1,3)] by auto
    have ab: "above_children cmp ?m (root q) (elements q) h e"
      using above_children_least [OF c h disjI2] stop(3) .
    then show ?thesis
      unfolding q' store_at_simps above_children_over [OF h] using hole_ok_store [OF 1(4,5)] by simp
  next
    case move
    let ?q = "store_at h (root q ?c) q"
    have hole: "hole_ok cmp 1 M ?q ?c" by (rule hole_ok_down [OF c 1(4) move(1)])
    have g: "0 < h \<and> h \<le> elements q div 2" using move h by simp
    have eq: "replace_loop cmp e ?c False ?q = (h', q')" using 1(6) replace_loop_move [where cmp = cmp and h = h and q = q and e = e, OF h move] by simp
    have "hole_ok cmp 1 M q' h' \<and> above_children cmp (max_at_top q') (root q') (elements q') h' e \<and> same_frame ?q q'"
      by (rule 1(1) [OF g refl move(2) c(1) _ hole _ eq], unfold store_at_simps) (fact c(2), fact 1(5))
    then show ?thesis unfolding same_frame_store .
  qed
qed

section \<open>The operations keep the invariant\<close>

lemma queue_replace_ok:
  assumes c: "queue_compare cmp" "max_at_top q = 1 \<or> max_at_top q = -1"
    and hole: "hole_ok cmp 1 M q idx" "keep_pos q \<longrightarrow> root q idx \<notin># M"
  shows "filled cmp 1 (root q idx) M q (queue_replace cmp idx q)"
proof -
  obtain h q' where eq: "replace_loop cmp (root q idx) idx True q = (h, q')" by force
  have ok: "hole_ok cmp 1 M q' h" "above_children cmp (max_at_top q') (root q') (elements q') h (root q idx)"
    and fr: "same_frame q q'"
    using replace_loop_ok [OF c hole eq] by auto
  have c': "max_at_top q' = 1 \<or> max_at_top q' = -1" "keep_pos q' \<longrightarrow> root q idx \<notin># M"
    using fr c(2) hole(2) by (auto simp: same_frame_def)
  have "filled cmp 1 (root q idx) M q' (insert_at cmp (root q idx) h q')"
    by (rule insert_at_ok [OF c(1) c'(1) ok c'(2)])
  then show ?thesis using fr by (simp add: filled_def same_frame_def queue_replace_def eq)
qed

lemma filled_inv:
  "filled cmp 1 e M q q' \<Longrightarrow> max_at_top q = 1 \<or> max_at_top q = -1 \<Longrightarrow> elements q \<le> max_elements q \<Longrightarrow> queue_inv cmp q'"
  by (auto simp: filled_def queue_inv_def same_frame_def)

lemma queue_inv_parts:
  assumes "queue_inv cmp q"
  shows "max_at_top q = 1 \<or> max_at_top q = -1" "elements q \<le> max_elements q"
    "heap_from cmp (max_at_top q) (root q) (elements q) 1" "positions 0 q"
  using assms by (simp_all add: queue_inv_def)

lemma queue_insert_ok:
  assumes c: "queue_compare cmp" and inv: "queue_inv cmp q" and room: "elements q < max_elements q"
    and new: "keep_pos q \<longrightarrow> e \<notin># content q"
  shows "queue_inv cmp (queue_insert cmp e q)" "content (queue_insert cmp e q) = add_mset e (content q)"
    "elements (queue_insert cmp e q) = elements q + 1"
    "same_frame (q\<lparr>elements := elements q + 1\<rparr>) (queue_insert cmp e q)"
proof -
  let ?n = "elements q + 1" and ?q = "q\<lparr>elements := elements q + 1\<rparr>"
  note q = queue_inv_parts [OF inv]
  have sets: "{1..elements ?q} - {?n} = {1..elements q}" "{1..elements q} - {0} = {1..elements q}" by auto
  have "hole_heap cmp (max_at_top q) (root q) ?n 1 ?n"
  proof (rule hole_heapI)
    fix i assume "2 \<le> i" "i \<le> ?n" "1 \<le> i div 2" "i \<noteq> ?n" "i div 2 \<noteq> ?n"
    then show "before cmp (max_at_top q) (root q (i div 2)) (root q i)" using heap_fromD [OF q(3)] by simp
  next
    fix i assume "i \<le> ?n" "i div 2 = ?n"
    then have False by (auto dest: half_facts(3) [rotated])
    then show "before cmp (max_at_top q) (root q (?n div 2)) (root q i)" by simp
  qed
  then have hole: "hole_ok cmp 1 (content q) ?q ?n"
    unfolding hole_ok_def content_without_def positions_def sets
    using q(4) sets(2) by (simp add: content_def positions_def)
  have ab: "above_children cmp (max_at_top ?q) (root ?q) (elements ?q) ?n e" by (auto simp: above_children_def)
  have m: "max_at_top ?q = 1 \<or> max_at_top ?q = -1" "keep_pos ?q \<longrightarrow> e \<notin># content q" using q(1) new by auto
  have f: "filled cmp 1 e (content q) ?q (queue_insert cmp e q)"
    using insert_at_ok [OF c m(1) hole ab m(2)] by (simp add: queue_insert_def)
  show "queue_inv cmp (queue_insert cmp e q)" using filled_inv [OF f m(1)] room by simp
  show "content (queue_insert cmp e q) = add_mset e (content q)" "elements (queue_insert cmp e q) = elements q + 1"
    "same_frame ?q (queue_insert cmp e q)"
    using f by (auto simp: filled_def same_frame_def)
qed

text \<open>Every element of the heap comes after the top.\<close>

lemma root_first:
  assumes c: "queue_compare cmp" "m = 1 \<or> m = -1" and heap: "heap_from cmp m r n 1"
  shows "1 \<le> i \<Longrightarrow> i \<le> n \<Longrightarrow> before cmp m (r 1) (r i)"
proof (induction i rule: less_induct)
  case (less i)
  show ?case
  proof (cases "i = 1")
    case True
    then show ?thesis using queue_compare.before_refl [OF c(1)] by simp
  next
    case False
    then have i: "2 \<le> i" using less.prems by simp
    have "before cmp m (r 1) (r (i div 2))" using less half_facts(2,3) [OF i] by simp
    moreover have "before cmp m (r (i div 2)) (r i)" using heap_fromD [OF heap i less.prems(2) half_facts(2) [OF i]] .
    ultimately show ?thesis using queue_compare.before_trans [OF c] by blast
  qed
qed

lemma queue_top_first:
  assumes "queue_compare cmp" "queue_inv cmp q" "x \<in># content q"
  shows "before cmp (max_at_top q) (queue_top q) x"
  using assms(3) root_first [OF assms(1) queue_inv_parts(1,3) [OF assms(2)]]
  by (auto simp: content_def queue_top_def)

lemma inj_last:
  assumes inj: "inj_on f {1..n::nat}" and i: "i \<in> {1..n - 1}"
  shows "f i \<noteq> f n"
proof
  assume "f i = f n"
  moreover have "i \<in> {1..n}" "n \<in> {1..n}" "i \<noteq> n" using i by auto
  ultimately show False using inj_onD [OF inj] by blast
qed

text \<open>Removing the last element leaves the heap; any other one leaves a hole for the last.\<close>

lemma remove_last:
  assumes c: "queue_compare cmp" and inv: "queue_inv cmp q" and n: "1 \<le> elements q"
  shows "queue_remove cmp (elements q) q =
    (root q (elements q), store_at (elements q) (root q (elements q)) (q\<lparr>elements := elements q - 1\<rparr>))"
proof -
  let ?n = "elements q" and ?q = "q\<lparr>elements := elements q - 1\<rparr>"
  have same: "q\<lparr>root := (root q)(?n := root q ?n), elements := ?n - 1\<rparr> = ?q" by simp
  have leaf: "elements ?q div 2 < ?n" using n by simp
  have "?n div 2 = 0 \<or> cmp (root q ?n) (root q (?n div 2)) * max_at_top q \<ge> 0"
  proof (cases "2 \<le> ?n")
    case True
    have "before cmp (max_at_top q) (root q (?n div 2)) (root q ?n)"
      using heap_fromD [OF queue_inv_parts(3) [OF inv] True _ half_facts(2) [OF True]] by simp
    then show ?thesis
      using queue_compare.cmp_swap_le [OF c] queue_inv_parts(1) [OF inv] by (auto simp: before_def)
  qed (use n in auto)
  then have "insert_at cmp (root q ?n) ?n ?q = store_at ?n (root q ?n) ?q"
    by (intro insert_at_stop) simp
  then show ?thesis
    unfolding queue_remove_def same queue_replace_def replace_loop_leaf [where h = ?n and q = ?q, OF leaf] by simp
qed

lemma queue_remove_last:
  assumes c: "queue_compare cmp" and inv: "queue_inv cmp q" and n: "1 \<le> elements q"
    and rem: "queue_remove cmp (elements q) q = (e, q')"
  shows "queue_inv cmp q'" "content q = add_mset e (content q')" "same_frame (q\<lparr>elements := elements q - 1\<rparr>) q'"
proof -
  let ?n = "elements q" and ?q = "q\<lparr>elements := elements q - 1\<rparr>"
  note q = queue_inv_parts [OF inv]
  have q': "e = root q ?n" "q' = store_at ?n (root q ?n) ?q" using rem remove_last [OF c inv n] by auto
  have sub: "{1..?n} - {?n} = {1..?n - 1}" using n by auto
  show "content q = add_mset e (content q')"
    using content_split [OF n le_refl] unfolding q' content_without_def sub by (simp add: content_def)
  have "heap_from cmp (max_at_top q) (root q) (?n - 1) 1" using heap_from_shorter [OF q(3)] by simp
  moreover have "positions 0 q'"
  proof (cases "keep_pos q")
    case True
    then have "inj_on (root q) {1..?n}" "\<forall>i\<in>{1..?n}. queue_pos q (root q i) = i"
      using q(4) by (auto simp: positions_def)
    moreover from this(1) have "root q i \<noteq> root q ?n" if "i \<in> {1..?n - 1}" for i
      using that by (rule inj_last)
    ultimately show ?thesis using inj_on_subset [of "root q" "{1..?n}" "{1..?n - 1}"] True
      by (auto simp: positions_def q' store_at_def)
  qed (simp add: positions_def q')
  ultimately show "queue_inv cmp q'" using q(1,2) by (simp add: queue_inv_def q')
  show "same_frame ?q q'" by (simp add: q')
qed

lemma queue_remove_hole:
  assumes c: "queue_compare cmp" and inv: "queue_inv cmp q" and idx: "1 \<le> idx" "idx < elements q"
  shows "hole_ok cmp 1 (content_without idx q - {#root q (elements q)#})
           (q\<lparr>root := (root q)(idx := root q (elements q)), elements := elements q - 1\<rparr>) idx"
proof -
  let ?n = "elements q" and ?q = "q\<lparr>root := (root q)(idx := root q (elements q)), elements := elements q - 1\<rparr>"
  note q = queue_inv_parts [OF inv]
  have "hole_heap cmp (max_at_top q) (root q) ?n 1 idx"
    using heap_from_hole [OF c q(1,3)] idx by simp
  then have "hole_heap cmp (max_at_top q) (root q) (?n - 1) 1 idx" by (rule hole_heap_shorter) simp
  then have hh: "hole_heap cmp (max_at_top q) (root ?q) (?n - 1) 1 idx"
    using hole_heap_over [of cmp "max_at_top q" "root q" "?n - 1" 1 idx] by simp
  have s: "{1..?n} - {idx} = insert ?n ({1..?n - 1} - {idx})" using idx by auto
  have "content_without idx q = add_mset (root q ?n) (image_mset (root q) (mset_set ({1..?n - 1} - {idx})))"
    unfolding content_without_def s by (subst mset_set.insert) auto
  moreover have "content_without idx ?q = image_mset (root q) (mset_set ({1..?n - 1} - {idx}))"
    by (auto simp: content_without_def intro!: image_mset_cong)
  moreover have "positions idx ?q"
  proof (cases "keep_pos q")
    case True
    then have pos: "inj_on (root q) {1..?n}" "\<forall>i\<in>{1..?n}. queue_pos q (root q i) = i"
      using q(4) by (auto simp: positions_def)
    have "inj_on (root ?q) ({1..?n - 1} - {idx}) = inj_on (root q) ({1..?n - 1} - {idx})"
      by (rule inj_on_cong) simp
    moreover have "{1..?n - 1} - {idx} \<subseteq> {1..?n}" by auto
    ultimately show ?thesis using pos inj_on_subset [OF pos(1)] by (auto simp: positions_def)
  qed (simp add: positions_def)
  ultimately show ?thesis using hh idx by (simp add: hole_ok_def)
qed

lemma queue_remove_inner:
  assumes c: "queue_compare cmp" and inv: "queue_inv cmp q" and idx: "1 \<le> idx" "idx < elements q"
    and rem: "queue_remove cmp idx q = (e, q')"
  shows "queue_inv cmp q'" "content q = add_mset e (content q')" "same_frame (q\<lparr>elements := elements q - 1\<rparr>) q'"
proof -
  let ?n = "elements q" and ?M = "content_without idx q - {#root q (elements q)#}"
    and ?q = "q\<lparr>root := (root q)(idx := root q (elements q)), elements := elements q - 1\<rparr>"
  note q = queue_inv_parts [OF inv]
  have last: "root q ?n \<in># content_without idx q" using idx by (auto simp: content_without_def)
  have hole: "hole_ok cmp 1 ?M ?q idx" by (rule queue_remove_hole [OF c inv idx])
  have new: "keep_pos ?q \<longrightarrow> root ?q idx \<notin># ?M"
  proof
    assume "keep_pos ?q"
    then have inj: "inj_on (root q) {1..?n}"
      using q(4) inj_on_subset by (fastforce simp: positions_def)
    have "root q i \<noteq> root q ?n" if "i \<in> {1..?n - 1}" for i
      using inj that by (rule inj_last)
    then have "root ?q idx \<noteq> root ?q i" if "i \<in> {1..elements ?q} - {idx}" for i using that by fastforce
    then have "root ?q idx \<notin># content_without idx ?q" unfolding set_content_without by blast
    moreover have "content_without idx ?q = ?M" using hole unfolding hole_ok_def by blast
    ultimately show "root ?q idx \<notin># ?M" by (rule back_subst)
  qed
  have f: "filled cmp 1 (root q ?n) ?M ?q (queue_replace cmp idx ?q)"
    using queue_replace_ok [OF c _ hole new] q(1) by simp
  have q': "e = root q idx" "q' = queue_replace cmp idx ?q" using rem by (auto simp: queue_remove_def)
  show "queue_inv cmp q'" unfolding q' using filled_inv [OF f] q(1,2) by simp
  show "content q = add_mset e (content q')"
    using f last content_split [of idx q] idx by (simp add: filled_def q')
  show "same_frame (q\<lparr>elements := elements q - 1\<rparr>) q'" using f by (simp add: filled_def same_frame_def q')
qed

lemma queue_remove_ok:
  assumes "queue_compare cmp" "queue_inv cmp q" "1 \<le> idx" "idx \<le> elements q" "queue_remove cmp idx q = (e, q')"
  shows "queue_inv cmp q'" "content q = add_mset e (content q')" "same_frame (q\<lparr>elements := elements q - 1\<rparr>) q'"
    "e = root q idx"
  using queue_remove_inner [OF assms(1,2,3) _ assms(5)] queue_remove_last [OF assms(1,2)] assms(3,4,5)
  by (cases "idx = elements q"; simp add: queue_remove_def)+

text \<open>\<open>queue_fix\<close> builds the heap bottom up from elements in any order.\<close>

lemma hole_heap_step: "heap_from cmp m r n (Suc k) \<Longrightarrow> hole_heap cmp m r n k k"
  by (rule hole_heapI) (auto simp: heap_from_def dest: half_facts(3) [of k])

lemma positions_hole: "positions 0 q \<Longrightarrow> positions h q"
proof -
  assume "positions 0 q"
  moreover have "{1..elements q} - {h} \<subseteq> {1..elements q} - {0}" by auto
  ultimately show ?thesis unfolding positions_def by (blast intro: inj_on_subset)
qed

lemma root_not_without:
  assumes "positions 0 q" "keep_pos q" "1 \<le> h" "h \<le> elements q"
  shows "root q h \<notin># content_without h q"
proof
  assume "root q h \<in># content_without h q"
  then obtain i where i: "i \<in> {1..elements q}" "i \<noteq> h" "root q h = root q i"
    unfolding set_content_without by blast
  have "\<forall>i\<in>{1..elements q}. queue_pos q (root q i) = i" using assms(1,2) by (simp add: positions_def)
  then have "queue_pos q (root q h) = h" "queue_pos q (root q i) = i" using assms(3,4) i(1) by simp_all
  with i show False by simp
qed

lemma downheap_step:
  assumes c: "queue_compare cmp" "max_at_top q = 1 \<or> max_at_top q = -1" and k: "1 \<le> k" "k \<le> elements q"
    and heap: "heap_from cmp (max_at_top q) (root q) (elements q) (Suc k)" and pos: "positions 0 q"
  shows "filled cmp k (root q k) (content_without k q) q (downheap cmp k q)"
proof -
  have hole: "hole_ok cmp k (content_without k q) q k"
    using k hole_heap_step [OF heap] positions_hole [OF pos] by (simp add: hole_ok_def)
  have "below_parent cmp (max_at_top q) (root q) k k (root q k)"
    using half_facts(3) [of k] by (auto simp: below_parent_def)
  then show ?thesis
    unfolding downheap_def using root_not_without [OF pos _ k] by (intro down_loop_ok [OF c hole]) auto
qed

lemma queue_fix_loop_ok:
  assumes "queue_compare cmp" "max_at_top q = 1 \<or> max_at_top q = -1" "k \<le> elements q"
    and "heap_from cmp (max_at_top q) (root q) (elements q) (Suc k)" "positions 0 q"
  shows "heap_from cmp (max_at_top q) (root (queue_fix_loop cmp k q)) (elements q) 1 \<and>
    content (queue_fix_loop cmp k q) = content q \<and> positions 0 (queue_fix_loop cmp k q) \<and>
    same_frame q (queue_fix_loop cmp k q)"
  using assms
proof (induction cmp k q rule: queue_fix_loop.induct)
  case (2 cmp i q)
  let ?q = "downheap cmp (Suc i) q"
  have f: "filled cmp (Suc i) (root q (Suc i)) (content_without (Suc i) q) q ?q"
    using downheap_step [OF 2(2,3) _ 2(4,5,6)] by simp
  then have q': "max_at_top ?q = max_at_top q" "elements ?q = elements q" "content ?q = content q" "same_frame q ?q"
    using content_split [of "Suc i" q] 2(4) by (auto simp: filled_def same_frame_def)
  have "heap_from cmp (max_at_top ?q) (root (queue_fix_loop cmp i ?q)) (elements ?q) 1 \<and>
    content (queue_fix_loop cmp i ?q) = content ?q \<and> positions 0 (queue_fix_loop cmp i ?q) \<and>
    same_frame ?q (queue_fix_loop cmp i ?q)"
    using f q' 2(3,4) by (intro 2(1) [OF 2(2)]) (auto simp: filled_def)
  then show ?case using q' by (simp add: same_frame_def)
qed simp

lemma queue_fix_ok:
  assumes c: "queue_compare cmp" and m: "max_at_top q = 1 \<or> max_at_top q = -1" "elements q \<le> max_elements q"
    and pos: "positions 0 q"
  shows "queue_inv cmp (queue_fix cmp q)" "content (queue_fix cmp q) = content q" "same_frame q (queue_fix cmp q)"
proof -
  have "heap_from cmp (max_at_top q) (root q) (elements q) (Suc (elements q div 2))"
    by (auto simp: heap_from_def dest: div_le_mono [of _ "elements q" 2])
  note fix_ok = queue_fix_loop_ok [OF c m(1) _ this pos]
  show "content (queue_fix cmp q) = content q" "same_frame q (queue_fix cmp q)"
    using fix_ok by (auto simp: queue_fix_def)
  show "queue_inv cmp (queue_fix cmp q)"
    using fix_ok m by (auto simp: queue_fix_def queue_inv_def same_frame_def)
qed

lemma resize_queue_ok:
  assumes "queue_inv cmp q" "elements q \<le> n" "resize_queue alloc n q = (err, q')"
  shows "queue_inv cmp q'" "content q' = content q" "elements q' = elements q" "keep_pos q' = keep_pos q"
    "max_at_top q' = max_at_top q" "auto_extent q' = auto_extent q"
    "\<not> err \<Longrightarrow> max_elements q' = n" "err \<Longrightarrow> q' = q"
  using assms
  by (auto simp: resize_queue_def queue_inv_def content_def positions_def split: if_splits)

lemma queue_inv_cong:
  assumes "queue_inv cmp q" "\<And>a b. a \<in># content q \<Longrightarrow> b \<in># content q \<Longrightarrow> cmp' a b = cmp a b"
  shows "queue_inv cmp' q"
proof -
  have "before cmp' m (root q (i div 2)) (root q i) = before cmp m (root q (i div 2)) (root q i)"
    if "2 \<le> i" "i \<le> elements q" for i m
  proof -
    have "root q i \<in># content q" "root q (i div 2) \<in># content q"
      using that half_facts(2,3) [OF that(1)] by (auto simp: content_def)
    then show ?thesis using assms(2) by (simp add: before_def)
  qed
  then show ?thesis using assms(1) by (simp add: queue_inv_def heap_from_def)
qed

lemma content_once:
  assumes "queue_inv cmp q" "keep_pos q" "content q = add_mset x M"
  shows "x \<notin># M"
proof -
  have "x \<in># content q" using assms(3) by simp
  then obtain i where i: "1 \<le> i" "i \<le> elements q" "x = root q i" by (auto simp: content_def)
  then have "M = content_without i q" using assms(3) content_split [of i q] by simp
  then show ?thesis using root_not_without [OF queue_inv_parts(4) [OF assms(1)] assms(2) i(1,2)] i(3) by simp
qed

lemma content_position:
  assumes "queue_inv cmp q" "keep_pos q" "x \<in># content q"
  shows "1 \<le> queue_pos q x" "queue_pos q x \<le> elements q" "root q (queue_pos q x) = x"
proof -
  obtain i where i: "i \<in> {1..elements q}" "x = root q i" using assms(3) by (auto simp: content_def)
  then have "queue_pos q x = i"
    using queue_inv_parts(4) [OF assms(1)] assms(2) by (simp add: positions_def)
  then show "1 \<le> queue_pos q x" "queue_pos q x \<le> elements q" "root q (queue_pos q x) = x" using i by auto
qed

text \<open>Inserting into a queue that may grow: it fails only when there is no memory.\<close>

lemma queue_insert_safe_ok:
  assumes c: "queue_compare cmp" and inv: "queue_inv cmp q" and new: "keep_pos q \<longrightarrow> e \<notin># content q"
    and size: "max_elements q + auto_extent q < 2 ^ 32" and r: "queue_insert_safe cmp alloc e q = (rc, q')"
  shows "queue_inv cmp q' \<and> keep_pos q' = keep_pos q \<and> max_at_top q' = max_at_top q \<and>
    (if rc = 0 then content q' = add_mset e (content q) else q' = q)"
proof -
  let ?n = "(max_elements q + auto_extent q) mod 2 ^ 32"
  have n: "?n = max_elements q + auto_extent q" using size by simp
  have le: "elements q \<le> ?n" using queue_inv_parts(2) [OF inv] n by simp
  note ins = queue_insert_ok [OF c]
  obtain err qr where rs: "resize_queue alloc ?n q = (err, qr)" by force
  note rz = resize_queue_ok [OF inv le rs]
  consider (room) "elements q \<noteq> max_elements q" | (full) "elements q = max_elements q" "auto_extent q = 0"
    | (fail) "elements q = max_elements q" "auto_extent q \<noteq> 0" err
    | (grow) "elements q = max_elements q" "auto_extent q \<noteq> 0" "\<not> err" by blast
  then show ?thesis
  proof cases
    case room
    then have "elements q < max_elements q" using queue_inv_parts(2) [OF inv] by simp
    with room ins [OF inv this new] r show ?thesis by (auto simp: queue_insert_safe_def same_frame_def)
  next
    case grow
    have "elements qr < max_elements qr" using rz(3,7) grow n by simp
    with ins [OF rz(1) this] rz grow new r rs show ?thesis
      by (auto simp: queue_insert_safe_def same_frame_def)
  qed (use inv r rs rz(8) in \<open>auto simp: queue_insert_safe_def\<close>)
qed

text \<open>
  The queue's element whose key changed: the heap of an order that differs only in what it says
  of \<open>x\<close> becomes, by \<open>queue_replace\<close> at the position of \<open>x\<close>, a heap of the new order.
\<close>

definition differ_only_at :: "'e \<Rightarrow> ('e \<Rightarrow> 'e \<Rightarrow> int) \<Rightarrow> ('e \<Rightarrow> 'e \<Rightarrow> int) \<Rightarrow> bool" where
  "differ_only_at x cmp cmp' \<longleftrightarrow> (\<forall>a b. a \<noteq> x \<longrightarrow> b \<noteq> x \<longrightarrow> cmp a b = cmp' a b)"

lemma differ_hole_heap:
  assumes "differ_only_at x cmp cmp'" "hole_heap cmp m r n 1 h" "\<And>i. 1 \<le> i \<Longrightarrow> i \<le> n \<Longrightarrow> i \<noteq> h \<Longrightarrow> r i \<noteq> x"
    and h: "h \<le> n"
  shows "hole_heap cmp' m r n 1 h"
proof (rule hole_heapI)
  fix i assume i: "2 \<le> i" "i \<le> n" "1 \<le> i div 2" "i \<noteq> h" "i div 2 \<noteq> h"
  then have "r i \<noteq> x" "r (i div 2) \<noteq> x" using assms(3) half_facts(3) [OF i(1)] by auto
  then show "before cmp' m (r (i div 2)) (r i)"
    using hole_heapD(1) [OF assms(2) i] assms(1) by (simp add: before_def differ_only_at_def)
next
  fix c assume c: "c \<le> n" "c div 2 = h" "2 \<le> h" "1 \<le> h div 2"
  then have "h < c" "h div 2 < h" using half_facts(3) [OF c(3)] half_facts(3,4) [of c] by auto
  then have "r c \<noteq> x" "r (h div 2) \<noteq> x" using assms(3) [of c] assms(3) [of "h div 2"] c h by auto
  then show "before cmp' m (r (h div 2)) (r c)"
    using hole_heapD(2) [OF assms(2) c] assms(1) by (simp add: before_def differ_only_at_def)
qed

lemma queue_replace_reorder:
  assumes c: "queue_compare cmp" "queue_compare cmp'" and inv: "queue_inv cmp q" and d: "differ_only_at (root q idx) cmp cmp'"
    and idx: "1 \<le> idx" "idx \<le> elements q" and once: "root q idx \<notin># content_without idx q"
  shows "queue_inv cmp' (queue_replace cmp' idx q)" "content (queue_replace cmp' idx q) = content q"
    "same_frame q (queue_replace cmp' idx q)"
proof -
  note q = queue_inv_parts [OF inv]
  have "root q i \<noteq> root q idx" if "1 \<le> i" "i \<le> elements q" "i \<noteq> idx" for i
  proof -
    have "i \<in> {1..elements q} - {idx}" using that by simp
    then show ?thesis using once unfolding set_content_without by metis
  qed
  then have "hole_heap cmp' (max_at_top q) (root q) (elements q) 1 idx"
    using differ_hole_heap [OF d heap_from_hole [OF c(1) q(1,3) idx(2)]] idx by blast
  then have "hole_ok cmp' 1 (content_without idx q) q idx"
    using idx positions_hole [OF q(4)] by (simp add: hole_ok_def)
  then have f: "filled cmp' 1 (root q idx) (content_without idx q) q (queue_replace cmp' idx q)"
    using queue_replace_ok [OF c(2) q(1)] once by blast
  show "queue_inv cmp' (queue_replace cmp' idx q)" by (rule filled_inv [OF f q(1,2)])
  show "content (queue_replace cmp' idx q) = content q" "same_frame q (queue_replace cmp' idx q)"
    using f content_split [OF idx] by (simp_all add: filled_def)
qed

section \<open>A queue as a source of sorted elements\<close>

text \<open>Taking \<open>n\<close> elements off the top, as \<open>queue_remove_top\<close> does.\<close>

primrec drain :: "('q \<Rightarrow> 'e \<times> 'q) \<Rightarrow> nat \<Rightarrow> 'q \<Rightarrow> 'e list" where
  "drain take_top 0 q = []"
| "drain take_top (Suc n) q = (case take_top q of (e, q') \<Rightarrow> e # drain take_top n q')"

text \<open>What the users of a queue rely on: the element taken comes before the ones that stay.\<close>

locale prio_queue =
  fixes good :: "'q \<Rightarrow> bool" and items :: "'q \<Rightarrow> 'e multiset" and take_top :: "'q \<Rightarrow> 'e \<times> 'q"
    and le :: "'e \<Rightarrow> 'e \<Rightarrow> bool"
  assumes take_good: "good q \<Longrightarrow> items q \<noteq> {#} \<Longrightarrow> take_top q = (e, q') \<Longrightarrow> good q'"
    and take_items: "good q \<Longrightarrow> items q \<noteq> {#} \<Longrightarrow> take_top q = (e, q') \<Longrightarrow> items q = add_mset e (items q')"
    and take_least: "good q \<Longrightarrow> items q \<noteq> {#} \<Longrightarrow> take_top q = (e, q') \<Longrightarrow> x \<in># items q \<Longrightarrow> le e x"
begin

lemma drain_sorted:
  "good q \<Longrightarrow> size (items q) = n \<Longrightarrow> sorted_wrt le (drain take_top n q) \<and> mset (drain take_top n q) = items q"
proof (induction n arbitrary: q)
  case (Suc n)
  obtain e q' where t: "take_top q = (e, q')" by force
  have ne: "items q \<noteq> {#}" using Suc.prems by auto
  have q': "good q'" "items q = add_mset e (items q')"
    using take_good [OF Suc.prems(1) ne t] take_items [OF Suc.prems(1) ne t] by auto
  then have IH: "sorted_wrt le (drain take_top n q')" "mset (drain take_top n q') = items q'"
    using Suc by auto
  have "le e x" if "x \<in> set (drain take_top n q')" for x
  proof -
    have "x \<in># items q" using that q'(2) by (simp flip: IH(2))
    then show ?thesis by (rule take_least [OF Suc.prems(1) ne t])
  qed
  then show ?case using IH q' t by simp
qed simp

end

lemma content_empty: "content q = {#} \<longleftrightarrow> elements q = 0"
  by (auto simp: content_def mset_set_empty_iff)

lemma size_content: "size (content q) = elements q"
  by (simp add: content_def)

sublocale queue_compare \<subseteq> first_least: prio_queue
  "\<lambda>q. queue_inv cmp q \<and> max_at_top q = m" content "queue_remove cmp 1" "before cmp m" for m
proof (unfold_locales, goal_cases)
  case (1 q e q')
  then have "1 \<le> elements q" by (simp add: content_empty)
  then show ?case
    using queue_remove_ok(1,3) [OF queue_compare_axioms _ le_refl _ 1(3)] 1(1) by (simp add: same_frame_def)
next
  case (2 q e q')
  then have "1 \<le> elements q" by (simp add: content_empty)
  then show ?case using queue_remove_ok(2) [OF queue_compare_axioms _ le_refl _ 2(3)] 2(1) by simp
next
  case (3 q e q' x)
  then show ?case
    using queue_top_first [OF queue_compare_axioms, of q x] by (simp add: queue_remove_def queue_top_def)
qed

context queue_compare
begin

lemma drain_queue:
  assumes "queue_inv cmp q"
  shows "sorted_wrt (before cmp (max_at_top q)) (drain (queue_remove cmp 1) (elements q) q)"
    and "mset (drain (queue_remove cmp 1) (elements q) q) = content q"
  using first_least.drain_sorted [OF _ size_content, of q "max_at_top q"] assms by simp_all

end

end
