(* ===== verification/Timers.thy ===== *)
theory Timers
  imports Queues
begin

text \<open>
  The timers of \<open>src/mysys/thr_timer.c\<close>, a client of the priority queue: a queue of timers ordered
  by expiry time, each of which stores its position, and the thread that calls the functions of
  the timers that are due. Timers are natural numbers, \<open>max_timer\<close> the static dummy that is
  always queued. The clock and the callbacks are parameters.
\<close>

section \<open>Times\<close>

record timespec =
  tv_sec :: int
  tv_nsec :: int

definition cmp_timespec :: "timespec \<Rightarrow> timespec \<Rightarrow> int" where
  "cmp_timespec ts1 ts2 =
     (if tv_sec ts1 > tv_sec ts2 \<or> tv_sec ts1 = tv_sec ts2 \<and> tv_nsec ts1 > tv_nsec ts2 then 1
      else if tv_sec ts1 < tv_sec ts2 \<or> tv_sec ts1 = tv_sec ts2 \<and> tv_nsec ts1 < tv_nsec ts2 then -1
      else 0)"

definition set_timespec_time_nsec :: "nat \<Rightarrow> timespec" where
  "set_timespec_time_nsec nsec =
     \<lparr>tv_sec = int (nsec div 1000000000), tv_nsec = int (nsec mod 1000000000)\<rparr>"

text \<open>\<open>hrtime\<close> is the clock in microseconds; the sum is an unsigned 64 bit number.\<close>

definition set_timespec_nsec :: "nat \<Rightarrow> nat \<Rightarrow> timespec" where
  "set_timespec_nsec hrtime nsec = set_timespec_time_nsec ((hrtime * 1000 + nsec) mod 2 ^ 64)"

definition set_timespec :: "nat \<Rightarrow> nat \<Rightarrow> timespec" where
  "set_timespec hrtime sec = set_timespec_nsec hrtime ((sec * 1000000000) mod 2 ^ 64)"

definition INT_MAX32 :: int where
  "INT_MAX32 = 0x7FFFFFFF"

definition max_time :: timespec where
  "max_time = \<lparr>tv_sec = INT_MAX32, tv_nsec = 0\<rparr>"

section \<open>State\<close>

text \<open>The field \<open>index_in_queue\<close> of a timer is the queue's record of its position. Function 0 is NULL.\<close>

record thr_timer_t =
  expire_time :: timespec
  period :: nat
  expired :: bool
  func :: nat
  func_arg :: nat

definition zero_timer :: thr_timer_t where
  "zero_timer = \<lparr>expire_time = \<lparr>tv_sec = 0, tv_nsec = 0\<rparr>, period = 0, expired = False, func = 0, func_arg = 0\<rparr>"

text \<open>
  \<open>calls\<close> is the sequence of the callbacks made so far; \<open>wakeup\<close> says that the timer thread runs
  or is going to be signalled, so that it will look at the queue before its wait times out.
\<close>

record timers =
  timer_queue :: "nat QUEUE"
  timer_data :: "nat \<Rightarrow> thr_timer_t"
  next_timer_expire_time :: timespec
  thr_timer_inited :: bool
  wakeup :: bool
  calls :: "(nat \<times> nat \<times> nat) list"

definition max_timer :: nat where
  "max_timer = 0"

definition compare_timespec :: "(nat \<Rightarrow> thr_timer_t) \<Rightarrow> nat \<Rightarrow> nat \<Rightarrow> int" where
  "compare_timespec d a b = cmp_timespec (expire_time (d a)) (expire_time (d b))"

section \<open>Operations\<close>

text \<open>
  The code ignores the result of \<open>init_queue\<close>: without memory the first insert writes to a null
  pointer, here no state. \<open>thread_ok\<close> says whether the timer thread could be created.
\<close>

definition init_thr_timer ::
  "bool \<Rightarrow> bool \<Rightarrow> (nat \<Rightarrow> nat) \<Rightarrow> (nat \<Rightarrow> nat) \<Rightarrow> nat \<Rightarrow> (nat \<Rightarrow> thr_timer_t) \<Rightarrow> (bool \<times> timers) option" where
  "init_thr_timer alloc thread_ok r pos alloc_timers d =
     (case init_queue alloc r pos ((alloc_timers + 2) mod 2 ^ 32) False True 1 of
        None \<Rightarrow> None
      | Some q \<Rightarrow>
          let d' = d(max_timer := zero_timer\<lparr>expire_time := max_time\<rparr>);
              q' = queue_insert (compare_timespec d') max_timer q
          in Some (\<not> thread_ok,
                   \<lparr>timer_queue = q', timer_data = d', next_timer_expire_time = max_time,
                    thr_timer_inited = thread_ok, wakeup = True, calls = []\<rparr>))"

definition end_thr_timer :: "timers \<Rightarrow> timers" where
  "end_thr_timer s = (if \<not> thr_timer_inited s then s else s\<lparr>thr_timer_inited := False, wakeup := True\<rparr>)"

definition thr_timer_init :: "nat \<Rightarrow> nat \<Rightarrow> nat \<Rightarrow> timers \<Rightarrow> timers" where
  "thr_timer_init t f arg s =
     s\<lparr>timer_data := (timer_data s)(t := zero_timer\<lparr>func := f, func_arg := arg, expired := True\<rparr>),
       timer_queue := (timer_queue s)\<lparr>queue_pos := (queue_pos (timer_queue s))(t := 0)\<rparr>\<rparr>"

definition thr_timer_set_period :: "nat \<Rightarrow> nat \<Rightarrow> timers \<Rightarrow> timers" where
  "thr_timer_set_period t micro_seconds s =
     s\<lparr>timer_data := (timer_data s)(t := (timer_data s t)\<lparr>period := micro_seconds\<rparr>)\<rparr>"

text \<open>The result says that no more timers are allowed.\<close>

definition thr_timer_settime :: "nat \<Rightarrow> bool \<Rightarrow> nat \<Rightarrow> nat \<Rightarrow> timers \<Rightarrow> bool \<times> timers" where
  "thr_timer_settime hrtime alloc t micro_seconds s =
     (let e = set_timespec_nsec hrtime ((micro_seconds * 1000) mod 2 ^ 64);
          d = (timer_data s)(t := (timer_data s t)\<lparr>expire_time := e, expired := False\<rparr>)
      in case queue_insert_safe (compare_timespec d) alloc t (timer_queue s) of
           (rc, q) \<Rightarrow>
             if rc \<noteq> 0
             then (True, s\<lparr>timer_queue := q, timer_data := d(t := (d t)\<lparr>expired := True\<rparr>)\<rparr>)
             else (False, s\<lparr>timer_queue := q, timer_data := d,
                            wakeup := (wakeup s \<or> cmp_timespec (next_timer_expire_time s) e > 0)\<rparr>))"

definition thr_timer_end :: "nat \<Rightarrow> timers \<Rightarrow> timers" where
  "thr_timer_end t s =
     (if \<not> expired (timer_data s t)
      then s\<lparr>timer_queue :=
               snd (queue_remove (compare_timespec (timer_data s)) (queue_pos (timer_queue s) t) (timer_queue s)),
             timer_data := (timer_data s)(t := (timer_data s t)\<lparr>expired := True\<rparr>)\<rparr>
      else s)"

text \<open>
  One round of \<open>process_timers\<close>. The callback may set the periods of timers: \<open>cb f arg\<close> maps the
  periods before the call to those after it. \<open>hrtime\<close> is the clock when the timer is rearmed.
\<close>

type_synonym callback = "nat \<Rightarrow> nat \<Rightarrow> (nat \<Rightarrow> nat) \<Rightarrow> nat \<Rightarrow> nat"

definition run_callback :: "callback \<Rightarrow> nat \<Rightarrow> nat \<Rightarrow> (nat \<Rightarrow> thr_timer_t) \<Rightarrow> nat \<Rightarrow> thr_timer_t" where
  "run_callback cb f arg d = (\<lambda>t. (d t)\<lparr>period := cb f arg (\<lambda>u. period (d u)) t\<rparr>)"

definition process_timer :: "callback \<Rightarrow> nat \<Rightarrow> timers \<Rightarrow> timers" where
  "process_timer cb hrtime s =
     (let t = queue_top (timer_queue s);
          d = timer_data s;
          f = func (d t);
          arg = func_arg (d t);
          is_periodic = (period (d t) \<noteq> 0);
          d1 = d(t := (d t)\<lparr>expired := True\<rparr>);
          q1 = snd (queue_remove (compare_timespec d1) 1 (timer_queue s));
          d2 = run_callback cb f arg d1;
          s1 = s\<lparr>timer_queue := q1, timer_data := d2, calls := calls s @ [(t, f, arg)]\<rparr>
      in if is_periodic \<and> period (d2 t) \<noteq> 0
         then let d3 = d2(t := (d2 t)\<lparr>expire_time := set_timespec_nsec hrtime ((period (d2 t) * 1000) mod 2 ^ 64),
                                     expired := False\<rparr>)
              in s1\<lparr>timer_queue := queue_insert (compare_timespec d3) t q1, timer_data := d3\<rparr>
         else s1)"

text \<open>The loop; \<open>clock i\<close> is the clock in round \<open>i\<close>. Not ending is the result None.\<close>

partial_function (option) process_timers ::
  "callback \<Rightarrow> (nat \<Rightarrow> nat) \<Rightarrow> timespec \<Rightarrow> nat \<Rightarrow> timers \<Rightarrow> timers option" where
  "process_timers cb clock now i s =
     (let s' = process_timer cb (clock i) s;
          t = queue_top (timer_queue s')
      in if cmp_timespec (expire_time (timer_data s' t)) now > 0 then Some s'
         else process_timers cb clock now (i + 1) s')"

text \<open>One round of the timer thread, from the test of the loop to the wait.\<close>

definition top_time :: "timers \<Rightarrow> timespec" where
  "top_time s = expire_time (timer_data s (queue_top (timer_queue s)))"

definition timer_handler :: "callback \<Rightarrow> (nat \<Rightarrow> nat) \<Rightarrow> nat \<Rightarrow> timers \<Rightarrow> timers option" where
  "timer_handler cb clock hrtime s =
     (if \<not> thr_timer_inited s then Some s
      else let now = set_timespec hrtime 0
           in case (if cmp_timespec (top_time s) now \<le> 0 then process_timers cb clock now 0 s else Some s) of
                None \<Rightarrow> None
              | Some s' \<Rightarrow> Some (s'\<lparr>next_timer_expire_time := top_time s', wakeup := False\<rparr>))"

section \<open>The order of times\<close>

lemma cmp_timespec_lex:
  "cmp_timespec a b \<le> 0 \<longleftrightarrow> tv_sec a < tv_sec b \<or> tv_sec a = tv_sec b \<and> tv_nsec a \<le> tv_nsec b"
  by (auto simp: cmp_timespec_def)

lemma cmp_timespec_swap: "cmp_timespec b a < 0 \<longleftrightarrow> 0 < cmp_timespec a b"
  by (auto simp: cmp_timespec_def)

lemma cmp_timespec_trans: "cmp_timespec a b \<le> 0 \<Longrightarrow> cmp_timespec b c \<le> 0 \<Longrightarrow> cmp_timespec a c \<le> 0"
  unfolding cmp_timespec_lex by linarith

interpretation timer_order: queue_compare "compare_timespec d" for d
  by unfold_locales (use cmp_timespec_swap cmp_timespec_trans in \<open>auto simp: compare_timespec_def\<close>)

section \<open>The invariant\<close>

definition timers_inv :: "timers \<Rightarrow> bool" where
  "timers_inv s \<longleftrightarrow>
     queue_inv (compare_timespec (timer_data s)) (timer_queue s) \<and>
     keep_pos (timer_queue s) \<and> max_at_top (timer_queue s) = 1 \<and>
     expire_time (timer_data s max_timer) = max_time \<and> max_timer \<in># content (timer_queue s) \<and>
     (\<forall>t. t \<in># content (timer_queue s) \<longleftrightarrow> \<not> expired (timer_data s t))"

lemma timers_invD:
  assumes "timers_inv s"
  shows "queue_inv (compare_timespec (timer_data s)) (timer_queue s)" "keep_pos (timer_queue s)"
    "max_at_top (timer_queue s) = 1" "expire_time (timer_data s max_timer) = max_time"
    "max_timer \<in># content (timer_queue s)"
    "\<And>t. t \<in># content (timer_queue s) \<longleftrightarrow> \<not> expired (timer_data s t)"
  using assms by (auto simp: timers_inv_def)

lemma timer_order_cong:
  "queue_inv (compare_timespec d) q \<Longrightarrow> (\<And>t. t \<in># content q \<Longrightarrow> expire_time (d' t) = expire_time (d t)) \<Longrightarrow>
     queue_inv (compare_timespec d') q"
  by (erule queue_inv_cong) (simp add: compare_timespec_def)

section \<open>Operations on timers\<close>

lemma settime_ok:
  assumes inv: "timers_inv s" and t: "t \<noteq> max_timer" "expired (timer_data s t)"
    and size: "max_elements (timer_queue s) + auto_extent (timer_queue s) < 2 ^ 32"
    and r: "thr_timer_settime hrtime alloc t us s = (full, s')"
  shows "timers_inv s'"
    and "content (timer_queue s') = (if full then content (timer_queue s) else add_mset t (content (timer_queue s)))"
    and "u \<noteq> t \<Longrightarrow> timer_data s' u = timer_data s u"
    and "expire_time (timer_data s' t) = set_timespec_nsec hrtime ((us * 1000) mod 2 ^ 64)"
    and "next_timer_expire_time s' = next_timer_expire_time s" "thr_timer_inited s' = thr_timer_inited s"
    and "\<not> full \<Longrightarrow> wakeup s' = (wakeup s \<or> cmp_timespec (next_timer_expire_time s) (expire_time (timer_data s' t)) > 0)"
    and "full \<Longrightarrow> wakeup s' = wakeup s"
proof -
  let ?e = "set_timespec_nsec hrtime ((us * 1000) mod 2 ^ 64)"
  let ?d = "(timer_data s)(t := (timer_data s t)\<lparr>expire_time := ?e, expired := False\<rparr>)"
  note i = timers_invD [OF inv]
  have new: "t \<notin># content (timer_queue s)" using i(6) t(2) by simp
  have inv': "queue_inv (compare_timespec ?d) (timer_queue s)"
    by (rule timer_order_cong [OF i(1)]) (use new in auto)
  obtain rc q where q: "queue_insert_safe (compare_timespec ?d) alloc t (timer_queue s) = (rc, q)" by force
  have ok: "queue_inv (compare_timespec ?d) q" "keep_pos q" "max_at_top q = 1"
    "if rc = 0 then content q = add_mset t (content (timer_queue s)) else q = timer_queue s"
    using queue_insert_safe_ok [OF timer_order.queue_compare_axioms inv' _ size q] new i(2,3) by auto
  have s': "full = (rc \<noteq> 0)"
    "s' = (if rc \<noteq> 0 then s\<lparr>timer_queue := q, timer_data := ?d(t := (?d t)\<lparr>expired := True\<rparr>)\<rparr>
      else s\<lparr>timer_queue := q, timer_data := ?d,
        wakeup := (wakeup s \<or> cmp_timespec (next_timer_expire_time s) ?e > 0)\<rparr>)"
    using r unfolding thr_timer_settime_def Let_def q by (auto split: if_splits)
  have "queue_inv (compare_timespec (?d(t := (?d t)\<lparr>expired := True\<rparr>))) q"
    by (rule timer_order_cong [OF ok(1)]) simp
  with ok i(4,5,6) t show "timers_inv s'"
    by (cases "rc = 0") (simp_all add: timers_inv_def s')
  show "content (timer_queue s') = (if full then content (timer_queue s) else add_mset t (content (timer_queue s)))"
    using ok(4) by (simp add: s')
  show "u \<noteq> t \<Longrightarrow> timer_data s' u = timer_data s u" "expire_time (timer_data s' t) = ?e"
    "next_timer_expire_time s' = next_timer_expire_time s" "thr_timer_inited s' = thr_timer_inited s"
    "\<not> full \<Longrightarrow> wakeup s' = (wakeup s \<or> cmp_timespec (next_timer_expire_time s) (expire_time (timer_data s' t)) > 0)"
    "full \<Longrightarrow> wakeup s' = wakeup s"
    by (simp_all add: s')
qed

lemma end_ok:
  assumes inv: "timers_inv s" and t: "t \<noteq> max_timer"
  shows "timers_inv (thr_timer_end t s)"
    and "content (timer_queue (thr_timer_end t s)) = content (timer_queue s) - {#t#}"
proof -
  let ?q = "timer_queue s" and ?cmp = "compare_timespec (timer_data s)"
  note i = timers_invD [OF inv]
  have *: "timers_inv (thr_timer_end t s) \<and> content (timer_queue (thr_timer_end t s)) = content ?q - {#t#}"
  proof (cases "expired (timer_data s t)")
    case True
    then have "content ?q - {#t#} = content ?q" using i(6) by (simp add: diff_single_trivial)
    with True inv show ?thesis by (simp add: thr_timer_end_def)
  next
    case False
    then have pos: "1 \<le> queue_pos ?q t" "queue_pos ?q t \<le> elements ?q" "root ?q (queue_pos ?q t) = t"
      using content_position [OF i(1,2)] i(6) by auto
    obtain e q where q: "queue_remove ?cmp (queue_pos ?q t) ?q = (e, q)" by force
    note rm = queue_remove_ok [OF timer_order.queue_compare_axioms i(1) pos(1,2) q]
    have e: "e = t" using rm(4) pos(3) by simp
    have once: "t \<notin># content q" using content_once [OF i(1,2) rm(2)] e by simp
    let ?d = "(timer_data s)(t := (timer_data s t)\<lparr>expired := True\<rparr>)"
    have s': "thr_timer_end t s = s\<lparr>timer_queue := q, timer_data := ?d\<rparr>" using False q by (simp add: thr_timer_end_def)
    have fr: "keep_pos q" "max_at_top q = 1" using rm(3) i(2,3) by (auto simp: same_frame_def)
    have "queue_inv (compare_timespec ?d) q" by (rule timer_order_cong [OF rm(1)]) auto
    moreover have "u \<in># content q \<longleftrightarrow> \<not> expired (?d u)" for u using once i(6) [of u] rm(2) e by auto
    ultimately have "timers_inv (thr_timer_end t s)"
      unfolding timers_inv_def s' using fr i(4,5) t rm(2) e by simp
    then show ?thesis using rm(2) e by (simp add: s')
  qed
  then show "timers_inv (thr_timer_end t s)"
    "content (timer_queue (thr_timer_end t s)) = content (timer_queue s) - {#t#}" by auto
qed

section \<open>Processing the timers that are due\<close>

definition due :: "timespec \<Rightarrow> (nat \<Rightarrow> thr_timer_t) \<Rightarrow> nat \<Rightarrow> bool" where
  "due now d t \<longleftrightarrow> cmp_timespec (expire_time (d t)) now \<le> 0"

lemma top_mem: "max_timer \<in># content q \<Longrightarrow> queue_top q \<in># content q"
proof -
  assume "max_timer \<in># content q"
  then have "1 \<le> elements q" by (auto simp: content_def)
  then show ?thesis by (auto simp: content_def queue_top_def)
qed

lemma top_earliest:
  assumes "timers_inv s" "t \<in># content (timer_queue s)"
  shows "cmp_timespec (top_time s) (expire_time (timer_data s t)) \<le> 0"
  using queue_top_first [OF timer_order.queue_compare_axioms timers_invD(1) [OF assms(1)] assms(2)]
    timers_invD(3) [OF assms(1)]
  by (simp add: before_def compare_timespec_def top_time_def)

text \<open>The timer at the top is due when any is.\<close>

lemma top_due:
  assumes "timers_inv s" "t \<in># content (timer_queue s)" "due now (timer_data s) t"
  shows "due now (timer_data s) (queue_top (timer_queue s))"
  using cmp_timespec_trans [OF top_earliest [OF assms(1,2)]] assms(3) by (simp add: due_def top_time_def)

text \<open>What one round does: the queue without the top, which returns only if it is periodic.\<close>

lemma run_callback_simps [simp]:
  "expire_time (run_callback cb f arg d t) = expire_time (d t)" "expired (run_callback cb f arg d t) = expired (d t)"
  "func (run_callback cb f arg d t) = func (d t)" "func_arg (run_callback cb f arg d t) = func_arg (d t)"
  "period (run_callback cb f arg d t) = cb f arg (\<lambda>u. period (d u)) t"
  by (simp_all add: run_callback_def)

definition one_round :: "callback \<Rightarrow> nat \<Rightarrow> timers \<Rightarrow> timers \<Rightarrow> nat \<Rightarrow> nat multiset \<Rightarrow> bool" where
  "one_round cb hrtime s s' t M \<longleftrightarrow>
     timers_inv s' \<and> content (timer_queue s) = add_mset t M \<and> t \<notin># M \<and>
     (content (timer_queue s') = M \<or>
      content (timer_queue s') = add_mset t M \<and>
        period (timer_data s' t) \<noteq> 0 \<and>
        expire_time (timer_data s' t) = set_timespec_nsec hrtime ((period (timer_data s' t) * 1000) mod 2 ^ 64)) \<and>
     (\<forall>u. period (timer_data s' u) = cb (func (timer_data s t)) (func_arg (timer_data s t)) (\<lambda>u. period (timer_data s u)) u) \<and>
     (\<forall>u. u \<noteq> t \<longrightarrow> expire_time (timer_data s' u) = expire_time (timer_data s u)) \<and>
     (\<forall>u. func (timer_data s' u) = func (timer_data s u) \<and> func_arg (timer_data s' u) = func_arg (timer_data s u)) \<and>
     calls s' = calls s @ [(t, func (timer_data s t), func_arg (timer_data s t))] \<and>
     thr_timer_inited s' = thr_timer_inited s"

lemma process_timer_round:
  fixes s hrtime cb
  defines "t \<equiv> queue_top (timer_queue s)" and "s' \<equiv> process_timer cb hrtime s"
  assumes inv: "timers_inv s" and t: "t \<noteq> max_timer"
  shows "\<exists>M. one_round cb hrtime s s' t M"
proof -
  note i = timers_invD [OF inv]
  let ?q = "timer_queue s" and ?d = "timer_data s"
  let ?d1 = "?d(t := (?d t)\<lparr>expired := True\<rparr>)"
  let ?d2 = "run_callback cb (func (?d t)) (func_arg (?d t)) ?d1"
  let ?d3 = "?d2(t := (?d2 t)\<lparr>expire_time := set_timespec_nsec hrtime ((period (?d2 t) * 1000) mod 2 ^ 64), expired := False\<rparr>)"
  let ?rearm = "period (?d t) \<noteq> 0 \<and> period (?d2 t) \<noteq> 0"
  obtain e q1 where rm: "queue_remove (compare_timespec ?d1) 1 ?q = (e, q1)" by force
  have inv1: "queue_inv (compare_timespec ?d1) ?q" by (rule timer_order_cong [OF i(1)]) simp
  have "1 \<le> elements ?q" using i(5) by (auto simp: content_def)
  note r = queue_remove_ok [OF timer_order.queue_compare_axioms inv1 le_refl this rm]
  have e: "e = t" using r(4) by (simp add: t_def queue_top_def)
  have split: "content ?q = add_mset t (content q1)" using r(2) e by simp
  have once: "t \<notin># content q1" using content_once [OF i(1,2) split] .
  have q1: "queue_inv (compare_timespec ?d3) q1" "queue_inv (compare_timespec ?d2) q1"
    by (rule timer_order_cong [OF r(1)]; use once in auto)+
  have fr: "keep_pos q1" "max_at_top q1 = 1" "elements q1 < max_elements q1"
    using r(3) i(2,3) \<open>1 \<le> elements ?q\<close> queue_inv_parts(2) [OF i(1)] by (auto simp: same_frame_def)
  let ?q3 = "queue_insert (compare_timespec ?d3) t q1"
  have new: "keep_pos q1 \<longrightarrow> t \<notin># content q1" using once by simp
  note ins = queue_insert_ok [OF timer_order.queue_compare_axioms q1(1) fr(3) new]
  have s': "s' = (let s1 = s\<lparr>timer_queue := q1, timer_data := ?d2, calls := calls s @ [(t, func (?d t), func_arg (?d t))]\<rparr>
    in if ?rearm then s1\<lparr>timer_queue := ?q3, timer_data := ?d3\<rparr> else s1)"
    unfolding s'_def process_timer_def Let_def t_def [symmetric] rm by simp
  have q3: "keep_pos ?q3" "max_at_top ?q3 = 1" using ins(4) fr by (auto simp: same_frame_def)
  have "u \<in># content q1 \<longleftrightarrow> \<not> expired (?d2 u)" for u
    using i(6) [of u] split once by auto
  moreover have "max_timer \<in># content q1" using i(5) split t by simp
  ultimately have "timers_inv s'"
    unfolding s' timers_inv_def using ins(1,2) q1 fr q3 i(4) t by (simp add: Let_def)
  have per: "(\<lambda>u. period (?d1 u)) = (\<lambda>u. period (?d u))" by auto
  have cont: "content (timer_queue s') = (if ?rearm then add_mset t (content q1) else content q1)"
    using ins(2) by (simp add: s' Let_def)
  have exp: "expire_time (timer_data s' t) = set_timespec_nsec hrtime ((period (timer_data s' t) * 1000) mod 2 ^ 64)"
    "period (timer_data s' t) \<noteq> 0" if ?rearm
    using that by (auto simp: s' Let_def)
  have "period (timer_data s' u) = cb (func (?d t)) (func_arg (?d t)) (\<lambda>u. period (?d u)) u" for u
    unfolding per [symmetric] by (simp add: s' Let_def del: fun_upd_apply) (simp add: s' Let_def)
  moreover
  have "content (timer_queue s') = content q1 \<or> content (timer_queue s') = add_mset t (content q1) \<and>
       period (timer_data s' t) \<noteq> 0 \<and>
       expire_time (timer_data s' t) = set_timespec_nsec hrtime ((period (timer_data s' t) * 1000) mod 2 ^ 64)"
    using cont exp by (cases ?rearm) auto
  ultimately have "one_round cb hrtime s s' t (content q1)"
    unfolding one_round_def using \<open>timers_inv s'\<close> split once by (simp add: s' Let_def)
  then show ?thesis ..
qed

text \<open>
  Rearmed timers are not due again: periods stay at most \<open>P\<close>, whatever the callbacks do, and the
  clock has not gone back and does not overflow within a period.
\<close>

definition rearmed_later :: "nat \<Rightarrow> callback \<Rightarrow> (nat \<Rightarrow> nat) \<Rightarrow> timespec \<Rightarrow> bool" where
  "rearmed_later P cb clock now \<longleftrightarrow>
     (\<forall>f arg ps t. (\<forall>u. ps u \<le> P) \<longrightarrow> cb f arg ps t \<le> P) \<and>
     (\<forall>i p. 0 < p \<and> p \<le> P \<longrightarrow> cmp_timespec (set_timespec_nsec (clock i) ((p * 1000) mod 2 ^ 64)) now > 0)"

definition periods_below :: "nat \<Rightarrow> timers \<Rightarrow> bool" where
  "periods_below P s \<longleftrightarrow> (\<forall>t. period (timer_data s t) \<le> P)"

definition processed :: "timespec \<Rightarrow> timers \<Rightarrow> timers \<Rightarrow> nat list \<Rightarrow> bool" where
  "processed now s s' ts \<longleftrightarrow>
     timers_inv s' \<and> thr_timer_inited s' = thr_timer_inited s \<and>
     mset ts = filter_mset (due now (timer_data s)) (content (timer_queue s)) \<and>
     sorted_wrt (\<lambda>a b. compare_timespec (timer_data s) a b \<le> 0) ts \<and>
     calls s' = calls s @ map (\<lambda>t. (t, func (timer_data s t), func_arg (timer_data s t))) ts \<and>
     (\<forall>t\<in>#content (timer_queue s'). \<not> due now (timer_data s') t)"

lemma filter_due_cong:
  "(\<And>t. t \<in># M \<Longrightarrow> expire_time (d' t) = expire_time (d t)) \<Longrightarrow> filter_mset (due now d') M = filter_mset (due now d) M"
  by (auto simp: due_def intro: filter_mset_cong)

text \<open>One round takes the top off the timers that are due.\<close>

lemma process_timer_due:
  fixes s cb hrtime
  defines "t \<equiv> queue_top (timer_queue s)" and "s' \<equiv> process_timer cb hrtime s"
  assumes inv: "timers_inv s" and top: "due now (timer_data s) t" and max: "cmp_timespec max_time now > 0"
    and later: "rearmed_later P cb clock now" and clock: "hrtime = clock i" and P: "periods_below P s"
  shows "\<exists>D. timers_inv s' \<and> periods_below P s' \<and> thr_timer_inited s' = thr_timer_inited s \<and>
    filter_mset (due now (timer_data s)) (content (timer_queue s)) = add_mset t D \<and>
    filter_mset (due now (timer_data s')) (content (timer_queue s')) = D \<and>
    (\<forall>u. u \<in># D \<longrightarrow> expire_time (timer_data s' u) = expire_time (timer_data s u)) \<and>
    (\<forall>u. func (timer_data s' u) = func (timer_data s u) \<and> func_arg (timer_data s' u) = func_arg (timer_data s u)) \<and>
    calls s' = calls s @ [(t, func (timer_data s t), func_arg (timer_data s t))] \<and>
    (\<forall>u. u \<in># D \<longrightarrow> compare_timespec (timer_data s) t u \<le> 0)"
proof -
  have "t \<noteq> max_timer" using top max timers_invD(4) [OF inv] by (auto simp: due_def)
  then obtain M where M: "one_round cb hrtime s s' t M"
    unfolding t_def s'_def using process_timer_round [OF inv] by blast
  have mem: "content (timer_queue s) = add_mset t M" "t \<notin># M" using M by (auto simp: one_round_def)
  have same: "expire_time (timer_data s' u) = expire_time (timer_data s u)" if "u \<noteq> t" for u
    using M that by (simp add: one_round_def)
  have below: "periods_below P s'"
    using M P later by (simp add: one_round_def periods_below_def rearmed_later_def)
  let ?D = "filter_mset (due now (timer_data s)) M"
  have cong: "filter_mset (due now (timer_data s')) M = ?D" by (rule filter_due_cong) (use same mem(2) in metis)
  have "filter_mset (due now (timer_data s')) (content (timer_queue s')) = ?D"
  proof (cases "content (timer_queue s') = M")
    case False
    then have "content (timer_queue s') = add_mset t M" "\<not> due now (timer_data s') t"
      using later M below by (auto simp: one_round_def rearmed_later_def due_def clock not_le periods_below_def)
    then show ?thesis using cong by simp
  qed (use cong in simp)
  moreover have "compare_timespec (timer_data s) t u \<le> 0" if "u \<in># ?D" for u
    using top_earliest [OF inv, of u] that mem(1) by (simp add: compare_timespec_def top_time_def t_def)
  moreover have "expire_time (timer_data s' u) = expire_time (timer_data s u)" if "u \<in># ?D" for u
    using same [of u] mem(2) that by auto
  moreover have "filter_mset (due now (timer_data s)) (content (timer_queue s)) = add_mset t ?D"
    using mem(1) top by simp
  ultimately show ?thesis using M below unfolding one_round_def by blast
qed

lemma sorted_due_cong:
  assumes "sorted_wrt (\<lambda>a b. compare_timespec d' a b \<le> 0) ts" "\<And>u. u \<in> set ts \<Longrightarrow> expire_time (d' u) = expire_time (d u)"
  shows "sorted_wrt (\<lambda>a b. compare_timespec d a b \<le> 0) ts"
  using assms by (intro sorted_wrt_mono_rel [rotated, OF assms(1)]) (auto simp: compare_timespec_def)

lemma process_timers_ok:
  assumes "timers_inv s" "due now (timer_data s) (queue_top (timer_queue s))" "periods_below P s"
    and max: "cmp_timespec max_time now > 0" and later: "rearmed_later P cb clock now"
    and "size (filter_mset (due now (timer_data s)) (content (timer_queue s))) = n"
  shows "\<exists>s' ts. process_timers cb clock now i s = Some s' \<and> processed now s s' ts \<and> periods_below P s'"
  using assms(1,2,3,6)
proof (induction n arbitrary: s i)
  case 0
  then show ?case using top_mem [OF timers_invD(5) [OF 0(1)]] by auto
next
  case (Suc n)
  let ?t = "queue_top (timer_queue s)" and ?s = "process_timer cb (clock i) s"
  obtain D where below: "periods_below P ?s" and D: "timers_inv ?s" "thr_timer_inited ?s = thr_timer_inited s"
    "filter_mset (due now (timer_data s)) (content (timer_queue s)) = add_mset ?t D"
    "filter_mset (due now (timer_data ?s)) (content (timer_queue ?s)) = D"
    "\<forall>u. u \<in># D \<longrightarrow> expire_time (timer_data ?s u) = expire_time (timer_data s u)"
    "\<forall>u. func (timer_data ?s u) = func (timer_data s u) \<and> func_arg (timer_data ?s u) = func_arg (timer_data s u)"
    "calls ?s = calls s @ [(?t, func (timer_data s ?t), func_arg (timer_data s ?t))]"
    "\<forall>u. u \<in># D \<longrightarrow> compare_timespec (timer_data s) ?t u \<le> 0"
    using process_timer_due [OF Suc.prems(1,2) max later refl Suc.prems(3)] by blast
  have rounds: "processed now s s' (?t # ts)" if "processed now ?s s' ts" for s' ts
  proof -
    have ts: "mset ts = D" "sorted_wrt (\<lambda>a b. compare_timespec (timer_data ?s) a b \<le> 0) ts"
      using that D(4) by (auto simp: processed_def)
    then have "set ts = set_mset D" by (metis set_mset_mset)
    then have "sorted_wrt (\<lambda>a b. compare_timespec (timer_data s) a b \<le> 0) (?t # ts)"
      using sorted_due_cong [OF ts(2)] D(5,8) by simp
    then show ?thesis using that D ts(1) by (simp add: processed_def)
  qed
  show ?case
  proof (cases "due now (timer_data ?s) (queue_top (timer_queue ?s))")
    case True
    moreover have "size (filter_mset (due now (timer_data ?s)) (content (timer_queue ?s))) = n"
      using Suc.prems(4) D(3,4) by simp
    ultimately obtain s' ts where "process_timers cb clock now (i + 1) ?s = Some s'" "processed now ?s s' ts"
      "periods_below P s'"
      using Suc.IH [OF D(1) _ below] by blast
    with True rounds show ?thesis by (subst process_timers.simps) (auto simp: due_def Let_def)
  next
    case False
    then have none: "\<not> due now (timer_data ?s) u" if "u \<in># content (timer_queue ?s)" for u
      using top_due [OF D(1) that] by blast
    then have "processed now ?s ?s []" using D(1) by (simp add: processed_def)
    with False rounds below show ?thesis by (subst process_timers.simps) (auto simp: due_def Let_def)
  qed
qed

text \<open>The thread calls the timers that are due and waits for the next one.\<close>

lemma timer_handler_ok:
  assumes inv: "timers_inv s" and on: "thr_timer_inited s" and max: "cmp_timespec max_time (set_timespec hrtime 0) > 0"
    and later: "rearmed_later P cb clock (set_timespec hrtime 0)" and P: "periods_below P s"
  shows "\<exists>s' ts. timer_handler cb clock hrtime s = Some s' \<and> processed (set_timespec hrtime 0) s s' ts \<and>
    periods_below P s' \<and> next_timer_expire_time s' = top_time s'"
proof -
  let ?now = "set_timespec hrtime 0" and ?top = "queue_top (timer_queue s)"
  have "\<exists>s' ts. (if cmp_timespec (top_time s) ?now \<le> 0 then process_timers cb clock ?now 0 s else Some s) = Some s' \<and>
    processed ?now s s' ts \<and> periods_below P s'"
  proof (cases "cmp_timespec (top_time s) ?now \<le> 0")
    case True
    then show ?thesis using process_timers_ok [OF inv _ P max later refl] by (simp add: due_def top_time_def)
  next
    case False
    then have "\<not> due ?now (timer_data s) u" if "u \<in># content (timer_queue s)" for u
      using top_due [OF inv that] by (auto simp: due_def top_time_def)
    then have "processed ?now s s []" using inv by (simp add: processed_def)
    with False P show ?thesis by auto
  qed
  then obtain s' ts where
    "(if cmp_timespec (top_time s) ?now \<le> 0 then process_timers cb clock ?now 0 s else Some s) = Some s'"
    "processed ?now s s' ts" "periods_below P s'" by blast
  then have "timer_handler cb clock hrtime s = Some (s'\<lparr>next_timer_expire_time := top_time s', wakeup := False\<rparr>)"
    "processed ?now s (s'\<lparr>next_timer_expire_time := top_time s', wakeup := False\<rparr>) ts"
    "periods_below P (s'\<lparr>next_timer_expire_time := top_time s', wakeup := False\<rparr>)"
    using on by (auto simp: timer_handler_def processed_def timers_inv_def periods_below_def Let_def)
  then show ?thesis by (auto simp: top_time_def)
qed

lemma time_nsec_less: "cmp_timespec (set_timespec_time_nsec m) (set_timespec_time_nsec n) > 0 \<longleftrightarrow> n < m"
proof -
  have lex: "n < m \<longleftrightarrow> n div k < m div k \<or> n div k = m div k \<and> n mod k < m mod k" if "0 < k" for k :: nat
  proof -
    have "m = k * (m div k) + m mod k" "n = k * (n div k) + n mod k" by simp_all
    moreover have "n div k < m div k \<Longrightarrow> n < m" using div_le_mono [of m n k] by (metis not_le)
    moreover have "n < m \<Longrightarrow> n div k \<le> m div k" by (simp add: div_le_mono)
    ultimately show ?thesis by (metis add_less_cancel_left le_neq_implies_less)
  qed
  show ?thesis
    using lex [of 1000000000] by (auto simp: cmp_timespec_def set_timespec_time_nsec_def)
qed

lemma max_time_later: "cmp_timespec max_time (set_timespec_time_nsec n) > 0 \<longleftrightarrow> n < 2147483647 * 1000000000"
proof -
  have "max_time = set_timespec_time_nsec (2147483647 * 1000000000)"
    by (simp add: max_time_def INT_MAX32_def set_timespec_time_nsec_def)
  then show ?thesis by (metis time_nsec_less)
qed

lemma rearmed_laterI:
  assumes "\<And>f arg ps t. \<forall>u. ps u \<le> P \<Longrightarrow> cb f arg ps t \<le> P"
    and clock: "\<And>i. hrtime \<le> clock i" "\<And>i. (clock i + P) * 1000 < 2 ^ 64"
  shows "rearmed_later P cb clock (set_timespec hrtime 0)"
  unfolding rearmed_later_def
proof (intro conjI allI impI)
  fix i p assume p: "0 < p \<and> p \<le> P"
  have "clock i * 1000 + p * 1000 < 2 ^ 64" using clock(2) [of i] p by simp
  moreover from this have "hrtime * 1000 < 2 ^ 64" "p * 1000 < 2 ^ 64" using clock(1) [of i] by simp_all
  moreover have "hrtime * 1000 < clock i * 1000 + p * 1000" using clock(1) [of i] p by linarith
  ultimately show "cmp_timespec (set_timespec_nsec (clock i) ((p * 1000) mod 2 ^ 64)) (set_timespec hrtime 0) > 0"
    by (simp add: set_timespec_def set_timespec_nsec_def time_nsec_less)
qed (use assms in simp)

section \<open>All interleavings\<close>

text \<open>
  What user threads and the timer thread do, one critical section of \<open>LOCK_timer\<close> at a time.
  The guards are the assertions of the code and the facts about callbacks and clock above; a
  queue has fewer than \<open>2 ^ 32\<close> slots.
\<close>

inductive timer_step :: "nat \<Rightarrow> timers \<Rightarrow> timers \<Rightarrow> bool" for P where
  step_init: "t \<noteq> max_timer \<Longrightarrow> expired (timer_data s t) \<Longrightarrow> timer_step P s (thr_timer_init t f arg s)"
| step_period: "t \<noteq> max_timer \<Longrightarrow> us \<le> P \<Longrightarrow> timer_step P s (thr_timer_set_period t us s)"
| step_settime: "t \<noteq> max_timer \<Longrightarrow> expired (timer_data s t) \<Longrightarrow>
    max_elements (timer_queue s) + auto_extent (timer_queue s) < 2 ^ 32 \<Longrightarrow>
    thr_timer_settime hrtime alloc t us s = (full, s') \<Longrightarrow> timer_step P s s'"
| step_end: "t \<noteq> max_timer \<Longrightarrow> timer_step P s (thr_timer_end t s)"
| step_handler: "thr_timer_inited s \<Longrightarrow> cmp_timespec max_time (set_timespec hrtime 0) > 0 \<Longrightarrow>
    rearmed_later P cb clock (set_timespec hrtime 0) \<Longrightarrow>
    timer_handler cb clock hrtime s = Some s' \<Longrightarrow> timer_step P s s'"
| step_finish: "timer_step P s (end_thr_timer s)"

inductive timers_reachable :: "nat \<Rightarrow> timers \<Rightarrow> bool" for P where
  reach_start: "init_thr_timer True True r pos n d = Some (False, s) \<Longrightarrow> n + 2 < 2 ^ 32 \<Longrightarrow>
    (\<And>t. t \<noteq> max_timer \<Longrightarrow> expired (d t) \<and> period (d t) \<le> P) \<Longrightarrow> timers_reachable P s"
| reach_step: "timers_reachable P s \<Longrightarrow> timer_step P s s' \<Longrightarrow> timers_reachable P s'"

text \<open>The timer thread looks at the queue again no later than the first timer expires.\<close>

definition wakes_in_time :: "timers \<Rightarrow> bool" where
  "wakes_in_time s \<longleftrightarrow>
     wakeup s \<or> (\<forall>t\<in>#content (timer_queue s). cmp_timespec (next_timer_expire_time s) (expire_time (timer_data s t)) \<le> 0)"

definition timers_ok :: "nat \<Rightarrow> timers \<Rightarrow> bool" where
  "timers_ok P s \<longleftrightarrow> timers_inv s \<and> periods_below P s \<and> wakes_in_time s"

lemma init_ok:
  assumes "init_thr_timer True True r pos n d = Some (err, s)" "n + 2 < 2 ^ 32"
    and d: "\<And>t. t \<noteq> max_timer \<Longrightarrow> expired (d t) \<and> period (d t) \<le> P"
  shows "timers_ok P s"
proof -
  let ?d = "d(max_timer := zero_timer\<lparr>expire_time := max_time\<rparr>)"
  let ?q = "\<lparr>root = r, elements = 0, max_elements = n + 2, auto_extent = 1, max_at_top = 1, keep_pos = True, queue_pos = pos\<rparr>"
  have empty: "queue_inv (compare_timespec ?d) ?q" "content ?q = {#}"
    by (simp_all add: queue_inv_def heap_from_def positions_def content_def)
  have s: "s = \<lparr>timer_queue = queue_insert (compare_timespec ?d) max_timer ?q, timer_data = ?d,
    next_timer_expire_time = max_time, thr_timer_inited = True, wakeup = True, calls = []\<rparr>"
    using assms(1,2) by (simp add: init_thr_timer_def init_queue_def Let_def)
  note ins = queue_insert_ok [OF timer_order.queue_compare_axioms empty(1), of max_timer]
  have "queue_inv (compare_timespec ?d) (timer_queue s)" "content (timer_queue s) = {#max_timer#}"
    "keep_pos (timer_queue s)" "max_at_top (timer_queue s) = 1"
    using ins empty(2) by (simp_all add: s same_frame_def del: fun_upd_apply)
  then show ?thesis
    using d by (simp add: timers_ok_def timers_inv_def periods_below_def wakes_in_time_def s zero_timer_def)
qed

lemma settime_wakes:
  assumes ok: "timers_ok P s" and t: "t \<noteq> max_timer" "expired (timer_data s t)"
    and size: "max_elements (timer_queue s) + auto_extent (timer_queue s) < 2 ^ 32"
    and r: "thr_timer_settime hrtime alloc t us s = (full, s')"
  shows "timers_ok P s'"
proof -
  have inv: "timers_inv s" "periods_below P s" "wakes_in_time s" using ok by (auto simp: timers_ok_def)
  note st = settime_ok [OF inv(1) t size r]
  have new: "t \<notin># content (timer_queue s)" using timers_invD(6) [OF inv(1)] t(2) by simp
  have "period (timer_data s' u) = period (timer_data s u)" for u
    using r by (auto simp: thr_timer_settime_def Let_def split: prod.splits if_splits)
  then have "periods_below P s'" using inv(2) by (simp add: periods_below_def)
  have same: "expire_time (timer_data s' u) = expire_time (timer_data s u)" if "u \<in># content (timer_queue s)" for u
  proof -
    have "u \<noteq> t" using that new by blast
    then show ?thesis using st(3) by simp
  qed
  have "wakes_in_time s'"
  proof (cases full)
    case True
    then have "wakeup s' = wakeup s" "content (timer_queue s') = content (timer_queue s)"
      "next_timer_expire_time s' = next_timer_expire_time s" using st(2,5,8) by simp_all
    with same show ?thesis using inv(3) by (simp add: wakes_in_time_def)
  next
    case False
    then have "content (timer_queue s') = add_mset t (content (timer_queue s))"
      "wakeup s' = (wakeup s \<or> cmp_timespec (next_timer_expire_time s) (expire_time (timer_data s' t)) > 0)"
      using st(2,7) by simp_all
    with same show ?thesis using inv(3) st(5) by (auto simp: wakes_in_time_def)
  qed
  with \<open>periods_below P s'\<close> show ?thesis using st(1) by (simp add: timers_ok_def)
qed

lemma handler_wakes:
  assumes ok: "timers_ok P s" and on: "thr_timer_inited s" and max: "cmp_timespec max_time (set_timespec hrtime 0) > 0"
    and later: "rearmed_later P cb clock (set_timespec hrtime 0)" and r: "timer_handler cb clock hrtime s = Some s'"
  shows "timers_ok P s'"
proof -
  have inv: "timers_inv s" "periods_below P s" using ok by (auto simp: timers_ok_def)
  obtain ts where s': "processed (set_timespec hrtime 0) s s' ts" "periods_below P s'" "next_timer_expire_time s' = top_time s'"
    using timer_handler_ok [OF inv(1) on max later inv(2)] r by auto
  then have "timers_inv s'" by (simp add: processed_def)
  with s' show ?thesis using top_earliest by (simp add: timers_ok_def wakes_in_time_def)
qed

lemma init_timer_ok:
  assumes ok: "timers_ok P s" and t: "t \<noteq> max_timer" "expired (timer_data s t)"
  shows "timers_ok P (thr_timer_init t f arg s)"
proof -
  let ?s = "thr_timer_init t f arg s" and ?q = "timer_queue s"
  have inv: "timers_inv s" "periods_below P s" "wakes_in_time s" using ok by (auto simp: timers_ok_def)
  note i = timers_invD [OF inv(1)]
  have new: "t \<notin># content ?q" using i(6) t(2) by simp
  have same: "content (timer_queue ?s) = content ?q" by (simp add: thr_timer_init_def content_def)
  have mem: "root ?q j \<noteq> t" if "j \<in> {1..elements ?q}" for j using new that by (auto simp: content_def)
  have "positions 0 (timer_queue ?s)"
    using queue_inv_parts(4) [OF i(1)] mem by (auto simp: positions_def thr_timer_init_def)
  then have "queue_inv (compare_timespec (timer_data s)) (timer_queue ?s)"
    using i(1) by (simp add: queue_inv_def thr_timer_init_def)
  then have "queue_inv (compare_timespec (timer_data ?s)) (timer_queue ?s)"
    by (rule timer_order_cong) (use same new in \<open>auto simp: thr_timer_init_def\<close>)
  moreover have "u \<in># content ?q \<longleftrightarrow> \<not> expired (timer_data ?s u)" for u
    using i(6) [of u] t(2) by (auto simp: thr_timer_init_def)
  ultimately have "timers_inv ?s"
    using i(2-5) t(1) same unfolding timers_inv_def by (simp add: thr_timer_init_def)
  moreover have "periods_below P ?s" using inv(2) by (simp add: periods_below_def thr_timer_init_def zero_timer_def)
  moreover have "expire_time (timer_data ?s u) = expire_time (timer_data s u)" if "u \<in># content ?q" for u
    using that new by (auto simp: thr_timer_init_def)
  then have "wakes_in_time ?s"
    using inv(3) same by (simp add: wakes_in_time_def thr_timer_init_def)
  ultimately show ?thesis by (simp add: timers_ok_def)
qed

lemma set_period_ok:
  assumes "timers_ok P s" "us \<le> P"
  shows "timers_ok P (thr_timer_set_period t us s)"
proof -
  have inv: "timers_inv s" "periods_below P s" "wakes_in_time s" using assms by (auto simp: timers_ok_def)
  have "queue_inv (compare_timespec ((timer_data s)(t := (timer_data s t)\<lparr>period := us\<rparr>))) (timer_queue s)"
    by (rule timer_order_cong [OF timers_invD(1) [OF inv(1)]]) simp
  then have "timers_inv (thr_timer_set_period t us s)"
    using timers_invD(2-6) [OF inv(1)] by (auto simp: timers_inv_def thr_timer_set_period_def)
  moreover have "wakes_in_time (thr_timer_set_period t us s)"
    using inv(3) by (auto simp: wakes_in_time_def thr_timer_set_period_def)
  ultimately show ?thesis
    using inv(2) assms(2) by (simp add: timers_ok_def periods_below_def thr_timer_set_period_def)
qed

lemma end_wakes:
  assumes ok: "timers_ok P s" and t: "t \<noteq> max_timer"
  shows "timers_ok P (thr_timer_end t s)"
proof -
  have inv: "timers_inv s" "periods_below P s" "wakes_in_time s" using ok by (auto simp: timers_ok_def)
  have "expire_time (timer_data (thr_timer_end t s) u) = expire_time (timer_data s u)"
    "period (timer_data (thr_timer_end t s) u) = period (timer_data s u)"
    "next_timer_expire_time (thr_timer_end t s) = next_timer_expire_time s" "wakeup (thr_timer_end t s) = wakeup s" for u
    by (simp_all add: thr_timer_end_def)
  with inv end_ok [OF inv(1) t] show ?thesis
    by (auto simp: timers_ok_def wakes_in_time_def periods_below_def dest: in_diffD)
qed

lemma timer_step_ok: "timer_step P s s' \<Longrightarrow> timers_ok P s \<Longrightarrow> timers_ok P s'"
proof (induction rule: timer_step.induct)
  case (step_finish s)
  then show ?case
    by (auto simp: end_thr_timer_def timers_ok_def timers_inv_def periods_below_def wakes_in_time_def)
qed (rule init_timer_ok set_period_ok settime_wakes end_wakes handler_wakes; assumption)+

lemma timers_reachable_ok: "timers_reachable P s \<Longrightarrow> timers_ok P s"
  by (induction rule: timers_reachable.induct) (use init_ok timer_step_ok in blast)+

end
