(* ===== verification/Queue_Properties.thy ===== *)
theory Queue_Properties
  imports Timers
begin

text \<open>
  The properties of the priority queue and of the timers built on it, each with an instance on
  concrete queues and timers that shows its hypotheses can hold.
\<close>

section \<open>Examples\<close>

definition int_cmp :: "int \<Rightarrow> int \<Rightarrow> int" where
  "int_cmp a b = a - b"

definition ex_queue :: "int QUEUE" where
  "ex_queue = \<lparr>root = int, elements = 5, max_elements = 5, auto_extent = 2, max_at_top = 1,
     keep_pos = True, queue_pos = nat\<rparr>"

text \<open>The order in which the key of element 1 has become 4.5.\<close>

definition int_cmp' :: "int \<Rightarrow> int \<Rightarrow> int" where
  "int_cmp' a b = (if a = 1 then 9 else 2 * a) - (if b = 1 then 9 else 2 * b)"

interpretation int_order: queue_compare int_cmp
  by unfold_locales (auto simp: int_cmp_def)

interpretation int_order': queue_compare int_cmp'
  by unfold_locales (auto simp: int_cmp'_def)

lemma ex_queue_inv: "queue_inv int_cmp ex_queue"
  by (auto simp: queue_inv_def ex_queue_def heap_from_def before_def int_cmp_def positions_def)

lemma ex_queue_sizes [simp]: "elements ex_queue = 5" "max_elements ex_queue = 5" "auto_extent ex_queue = 2"
  "max_at_top ex_queue = 1" "keep_pos ex_queue" "root ex_queue i = int i"
  by (simp_all add: ex_queue_def)

lemma range5: "{1..5::nat} = {1, 2, 3, 4, 5}"
  by auto

lemma ex_queue_content: "content ex_queue = {#1, 2, 3, 4, 5#}"
  unfolding content_def ex_queue_sizes range5 by (simp add: ex_queue_def)

text \<open>A timer service with two timers, one of them periodic.\<close>

definition no_timers :: "nat \<Rightarrow> thr_timer_t" where
  "no_timers t = zero_timer\<lparr>expired := True\<rparr>"

definition ex_start :: timers where
  "ex_start = (case init_thr_timer True True (\<lambda>_. 0) (\<lambda>_. 0) 4 no_timers of Some (_, s) \<Rightarrow> s)"

definition ex_one :: timers where
  "ex_one = thr_timer_set_period 1 20 (thr_timer_init 2 8 80 (thr_timer_init 1 9 90 ex_start))"

definition ex_two :: timers where
  "ex_two = snd (thr_timer_settime 5 True 1 10 ex_one)"

definition ex_armed :: timers where
  "ex_armed = snd (thr_timer_settime 7 True 2 3 ex_two)"

text \<open>A callback that leaves the periods alone.\<close>

definition quiet :: callback where
  "quiet f arg ps = ps"

lemma ex_start_init: "init_thr_timer True True (\<lambda>_. 0) (\<lambda>_. 0) 4 no_timers = Some (False, ex_start)"
  by (simp add: ex_start_def init_thr_timer_def init_queue_def Let_def)

lemma ex_start_reachable: "timers_reachable 1000 ex_start"
  by (rule reach_start [OF ex_start_init]) (simp_all add: no_timers_def zero_timer_def)

lemmas timer_eval = ex_start_def init_thr_timer_def init_queue_def thr_timer_init_def thr_timer_set_period_def
  thr_timer_settime_def queue_insert_safe_def queue_insert_def insert_at.simps store_at_def
  set_timespec_nsec_def set_timespec_time_nsec_def set_timespec_def compare_timespec_def cmp_timespec_def
  max_timer_def max_time_def INT_MAX32_def zero_timer_def no_timers_def Let_def

lemma ex_one_eval [simplified]: "expired (timer_data ex_one 1)" "expired (timer_data ex_one 2)"
  "max_elements (timer_queue ex_one) = 6" "auto_extent (timer_queue ex_one) = 1"
  by (simp_all add: ex_one_def timer_eval)

lemma ex_start_expired [simplified]: "expired (timer_data ex_start 1)" "expired (timer_data ex_start 2)"
  by (simp_all add: timer_eval)

lemma ex_two_eval: "expired (timer_data ex_two 2)" "max_elements (timer_queue ex_two) = 6" "auto_extent (timer_queue ex_two) = 1"
  by (simp_all add: ex_two_def ex_one_def timer_eval)

lemma ex_armed_inited: "thr_timer_inited ex_armed"
  by (simp add: ex_armed_def ex_two_def ex_one_def timer_eval)

lemma ex_one_reachable: "timers_reachable 1000 ex_one"
proof -
  have "timers_reachable 1000 (thr_timer_init 1 9 90 ex_start)"
    by (rule reach_step [OF ex_start_reachable step_init]) (simp_all add: ex_start_expired max_timer_def)
  then have "timers_reachable 1000 (thr_timer_init 2 8 80 (thr_timer_init 1 9 90 ex_start))"
    by (rule reach_step [OF _ step_init]) (simp_all add: ex_start_expired thr_timer_init_def max_timer_def)
  then show ?thesis
    unfolding ex_one_def by (rule reach_step [OF _ step_period]) (simp_all add: max_timer_def)
qed

lemma ex_armed_reachable: "timers_reachable 1000 ex_armed"
proof -
  have "timers_reachable 1000 ex_two"
    unfolding ex_two_def
    by (rule reach_step [OF ex_one_reachable step_settime [where full = "fst (thr_timer_settime 5 True 1 10 ex_one)"]])
      (simp_all add: ex_one_eval max_timer_def)
  then show ?thesis
    unfolding ex_armed_def
    by (rule reach_step [OF _ step_settime [where full = "fst (thr_timer_settime 7 True 2 3 ex_two)"]])
      (simp_all add: ex_two_eval max_timer_def)
qed

section \<open>The queue\<close>

text \<open>
  C16. Taking the elements off the top of a queue one after the other, as \<open>queue_remove_top\<close> does,
  gives all of them, in the order of the compare function (in the opposite order for a queue
  with the greatest at the top): the queue sorts.
\<close>

theorem queue_drain_sorted:
  assumes "queue_compare cmp" "queue_inv cmp q"
  shows "sorted_wrt (before cmp (max_at_top q)) (drain (queue_remove cmp 1) (elements q) q) \<and>
    mset (drain (queue_remove cmp 1) (elements q) q) = content q"
  using queue_compare.drain_queue [OF assms] by simp

theorem queue_drain_sorted_witness:
  "mset (drain (queue_remove int_cmp 1) 5 ex_queue) = {#1, 2, 3, 4, 5#} \<and>
   sorted_wrt (before int_cmp 1) (drain (queue_remove int_cmp 1) 5 ex_queue)"
  using queue_drain_sorted [OF int_order.queue_compare_axioms ex_queue_inv] by (simp add: ex_queue_content)

text \<open>
  C17. Removing the element at any position in use returns that element and leaves a queue that
  satisfies the invariant (heap order; every remaining element stores its own position) and
  holds exactly the other elements.
\<close>

theorem queue_remove_exact:
  assumes "queue_compare cmp" "queue_inv cmp q" "1 \<le> idx" "idx \<le> elements q"
  shows "\<exists>q'. queue_remove cmp idx q = (root q idx, q') \<and> queue_inv cmp q' \<and>
    content q = add_mset (root q idx) (content q') \<and> elements q' = elements q - 1"
proof -
  obtain e q' where r: "queue_remove cmp idx q = (e, q')" by force
  show ?thesis using queue_remove_ok [OF assms r] r by (simp add: same_frame_def)
qed

theorem queue_remove_exact_witness:
  "\<exists>q'. queue_remove int_cmp 2 ex_queue = (2, q') \<and> queue_inv int_cmp q' \<and>
    {#1, 2, 3, 4, 5#} = add_mset 2 (content q') \<and> elements q' = 4"
  using queue_remove_exact [OF int_order.queue_compare_axioms ex_queue_inv, of 2] by (simp add: ex_queue_content)

text \<open>
  C18. After the key of the element at one position changed in any way, \<open>queue_replace\<close> at that
  position makes the queue a heap for the new keys, with the same elements and exact positions.
\<close>

theorem queue_replace_restores:
  assumes "queue_compare cmp" "queue_compare cmp'" "queue_inv cmp q" "keep_pos q"
    and "1 \<le> idx" "idx \<le> elements q" "differ_only_at (root q idx) cmp cmp'"
  shows "queue_inv cmp' (queue_replace cmp' idx q) \<and> content (queue_replace cmp' idx q) = content q \<and>
    elements (queue_replace cmp' idx q) = elements q"
  using queue_replace_reorder [OF assms(1-3,7,5,6) root_not_without [OF queue_inv_parts(4) [OF assms(3)] assms(4-6)]]
  by (simp add: same_frame_def)

theorem queue_replace_restores_witness:
  "queue_inv int_cmp' (queue_replace int_cmp' 1 ex_queue) \<and> content (queue_replace int_cmp' 1 ex_queue) = {#1, 2, 3, 4, 5#} \<and>
   elements (queue_replace int_cmp' 1 ex_queue) = 5"
proof -
  have dbl: "queue_inv (\<lambda>a b. 2 * int_cmp a b) ex_queue" "queue_compare (\<lambda>a b. 2 * int_cmp a b)"
    using ex_queue_inv by (auto simp: queue_inv_def heap_from_def before_def queue_compare_def int_cmp_def)
  show ?thesis
    using queue_replace_restores [OF dbl(2) int_order'.queue_compare_axioms dbl(1), of 1]
    by (simp add: differ_only_at_def int_cmp_def int_cmp'_def ex_queue_content)
qed

text \<open>
  C19. \<open>queue_insert_safe\<close> on every branch: it adds the element and returns 0, or leaves the queue
  as it was and returns 2 (full, and may not grow) or 1 (no memory). The new size must fit
  an unsigned int.
\<close>

theorem queue_insert_safe_branches:
  assumes "queue_compare cmp" "queue_inv cmp q" "keep_pos q \<longrightarrow> e \<notin># content q"
    and "max_elements q + auto_extent q < 2 ^ 32"
  shows "\<exists>rc q'. queue_insert_safe cmp alloc e q = (rc, q') \<and> queue_inv cmp q' \<and>
    rc = (if elements q < max_elements q then 0 else if auto_extent q = 0 then 2 else if alloc then 0 else 1) \<and>
    (if rc = 0 then content q' = add_mset e (content q) else q' = q)"
proof -
  obtain rc q' where r: "queue_insert_safe cmp alloc e q = (rc, q')" by force
  have "rc = (if elements q < max_elements q then 0 else if auto_extent q = 0 then 2 else if alloc then 0 else 1)"
    using r queue_inv_parts(2) [OF assms(2)] assms(4)
    by (auto simp: queue_insert_safe_def resize_queue_def split: if_splits)
  with r queue_insert_safe_ok [OF assms r] show ?thesis by blast
qed

theorem queue_insert_safe_branches_witness:
  "\<exists>rc q'. queue_insert_safe int_cmp True 9 ex_queue = (rc, q') \<and> queue_inv int_cmp q' \<and> rc = 0 \<and>
    content q' = {#9, 1, 2, 3, 4, 5#}"
proof -
  have "keep_pos ex_queue \<longrightarrow> 9 \<notin># content ex_queue" "max_elements ex_queue + auto_extent ex_queue < 2 ^ 32"
    by (simp_all add: ex_queue_content)
  from queue_insert_safe_branches [OF int_order.queue_compare_axioms ex_queue_inv this, of True]
  show ?thesis by (auto simp: ex_queue_content)
qed

text \<open>
  C20. \<open>queue_fix\<close> makes a heap of elements in any order, e.g. after all keys changed, and keeps
  their multiset and stored positions.
\<close>

theorem queue_fix_heapifies:
  assumes "queue_compare cmp" "max_at_top q = 1 \<or> max_at_top q = -1" "elements q \<le> max_elements q" "positions 0 q"
  shows "queue_inv cmp (queue_fix cmp q) \<and> content (queue_fix cmp q) = content q"
  using queue_fix_ok [OF assms] by simp

theorem queue_fix_heapifies_witness:
  "queue_inv (\<lambda>a b. int_cmp b a) (queue_fix (\<lambda>a b. int_cmp b a) ex_queue) \<and>
   content (queue_fix (\<lambda>a b. int_cmp b a) ex_queue) = {#1, 2, 3, 4, 5#}"
proof -
  have "queue_compare (\<lambda>a b. int_cmp b a)" by unfold_locales (auto simp: int_cmp_def)
  from queue_fix_heapifies [OF this, of ex_queue] show ?thesis
    using queue_inv_parts(4) [OF ex_queue_inv] by (simp add: ex_queue_content)
qed

section \<open>The timers\<close>



text \<open>
  C22. A round of the timer thread ends. It calls the function of every timer that is due exactly
  once, in the order of expiry, with that timer's argument, and afterwards no queued timer is
  due. This holds before 2038, with periods of at most \<open>P\<close> microseconds that the callbacks
  do not exceed, and a clock that does not go back or overflow.
\<close>

theorem timers_all_due_called:
  assumes "timers_reachable P s" "thr_timer_inited s"
    and "hrtime < 2147483647 * 1000000" "\<And>i. hrtime \<le> clock i" "\<And>i. (clock i + P) * 1000 < 2 ^ 64"
    and "\<And>f arg ps t. \<forall>u. ps u \<le> P \<Longrightarrow> cb f arg ps t \<le> P"
  shows "\<exists>s' ts. timer_handler cb clock hrtime s = Some s' \<and>
    mset ts = filter_mset (due (set_timespec hrtime 0) (timer_data s)) (content (timer_queue s)) \<and>
    sorted_wrt (\<lambda>a b. cmp_timespec (expire_time (timer_data s a)) (expire_time (timer_data s b)) \<le> 0) ts \<and>
    calls s' = calls s @ map (\<lambda>t. (t, func (timer_data s t), func_arg (timer_data s t))) ts \<and>
    (\<forall>t. t \<in># content (timer_queue s') \<longrightarrow> cmp_timespec (expire_time (timer_data s' t)) (set_timespec hrtime 0) > 0)"
proof -
  have ok: "timers_inv s" "periods_below P s" using timers_reachable_ok [OF assms(1)] by (auto simp: timers_ok_def)
  have later: "rearmed_later P cb clock (set_timespec hrtime 0)" by (rule rearmed_laterI) (use assms in auto)
  have "cmp_timespec max_time (set_timespec hrtime 0) > 0"
    using assms(3) by (simp add: set_timespec_def set_timespec_nsec_def max_time_later)
  from timer_handler_ok [OF ok(1) assms(2) this later ok(2)] show ?thesis
    by (auto simp: processed_def due_def compare_timespec_def not_le)
qed

theorem timers_all_due_called_witness:
  "\<exists>s' ts. timer_handler quiet (\<lambda>_. 40) 30 ex_armed = Some s' \<and>
    mset ts = filter_mset (due (set_timespec 30 0) (timer_data ex_armed)) (content (timer_queue ex_armed)) \<and>
    sorted_wrt (\<lambda>a b. cmp_timespec (expire_time (timer_data ex_armed a)) (expire_time (timer_data ex_armed b)) \<le> 0) ts \<and>
    calls s' = calls ex_armed @ map (\<lambda>t. (t, func (timer_data ex_armed t), func_arg (timer_data ex_armed t))) ts \<and>
    (\<forall>t. t \<in># content (timer_queue s') \<longrightarrow> cmp_timespec (expire_time (timer_data s' t)) (set_timespec 30 0) > 0)"
  by (rule timers_all_due_called [OF ex_armed_reachable ex_armed_inited]) (simp_all add: quiet_def)

text \<open>
  C23. The dummy timer that keeps the queue from being empty expires at \<open>INT_MAX32\<close> seconds, on 19
  January 2038. From then on a round of the timer thread of an idle server finds it due, takes it
  off the queue, which becomes empty, and calls its function, a null pointer.
\<close>

theorem timers_dummy_due_in_2038:
  assumes "init_thr_timer True True r pos n d = Some (False, s)" "n + 2 < 2 ^ 32"
    and "2147483647 * 1000000 \<le> hrtime" "hrtime * 1000 < 2 ^ 64"
  shows "cmp_timespec (top_time s) (set_timespec hrtime 0) \<le> 0 \<and>
    calls (process_timer cb h s) = [(max_timer, 0, 0)] \<and> elements (timer_queue (process_timer cb h s)) = 0"
proof -
  let ?d = "d(max_timer := zero_timer\<lparr>expire_time := max_time\<rparr>)"
  have s: "timer_data s = ?d" "root (timer_queue s) 1 = max_timer" "elements (timer_queue s) = 1" "calls s = []"
    using assms(1) by (auto simp: init_thr_timer_def init_queue_def Let_def queue_insert_def insert_at.simps)
  have "\<not> cmp_timespec max_time (set_timespec hrtime 0) > 0"
    using assms(3,4) by (simp add: set_timespec_def set_timespec_nsec_def max_time_later)
  then have due: "cmp_timespec (top_time s) (set_timespec hrtime 0) \<le> 0"
    using s by (simp add: top_time_def queue_top_def)
  have leaf: "replace_loop cmp e (Suc 0) True q = (Suc 0, q)" if "elements q = 0" for cmp e and q :: "nat QUEUE"
    using replace_loop_leaf [of q 1 cmp e True] that by simp
  have "elements (snd (queue_remove cmp 1 (timer_queue s))) = 0" for cmp
    using s(3) by (simp add: queue_remove_def queue_replace_def leaf insert_at.simps)
  then show ?thesis
    using due s by (simp add: process_timer_def Let_def queue_top_def zero_timer_def)
qed

theorem timers_dummy_due_in_2038_witness:
  "cmp_timespec (top_time ex_start) (set_timespec (2147483647 * 1000000) 0) \<le> 0 \<and>
   calls (process_timer quiet 0 ex_start) = [(max_timer, 0, 0)] \<and> elements (timer_queue (process_timer quiet 0 ex_start)) = 0"
  by (rule timers_dummy_due_in_2038 [OF ex_start_init]) simp_all

end
