(* ===== verification/Bytes.thy ===== *)
theory Bytes
  imports Prelude
begin

text \<open>
  Bytes and numbers: shifts, ors and masks of unsigned integers as arithmetic, and big-endian
  and little-endian byte strings as numbers, with the memory order of big-endian strings.
\<close>

unbundle bit_operations_syntax

type_synonym byte = "8 word"

text \<open>The cast of an unsigned integer to a byte, and back.\<close>

abbreviation byte_of :: "nat \<Rightarrow> byte" where
  "byte_of n \<equiv> word_of_nat n"

lemma unat_byte_of: "unat (byte_of n) = n mod 256"
  by (simp add: unat_of_nat)

lemma unat_byte_less: "unat (b :: byte) < 256"
proof -
  have "unat b < 2 ^ LENGTH(8)" by (rule unsigned_less)
  then show ?thesis by simp
qed

lemma byte_of_unat [simp]: "byte_of (unat (b :: byte)) = b"
  by simp

section \<open>Bit operations as arithmetic\<close>

lemma push_or:
  assumes "(b :: nat) < 2 ^ k"
  shows "push_bit k a OR b = a * 2 ^ k + b"
proof -
  have b: "take_bit k b = b" using assms by (simp add: take_bit_nat_eq_self)
  have "bit b i \<Longrightarrow> i < k" for i by (metis b bit_take_bit_iff)
  then have "push_bit k a AND b = 0"
    by (intro bit_eqI) (auto simp: bit_and_iff bit_push_bit_iff dest: leD)
  then have "push_bit k a + b = push_bit k a OR b" by (rule disjunctive_add_eq_or)
  then show ?thesis by (simp add: push_bit_eq_mult)
qed

lemma or_high:
  assumes "(b :: nat) < 2 ^ k"
  shows "b OR (a * 2 ^ k) = a * 2 ^ k + b"
  using push_or [OF assms, of a] by (simp add: push_bit_eq_mult or.commute)

lemma and_mask: "(a :: nat) AND mask k = a mod 2 ^ k"
  by (simp add: take_bit_eq_mask [symmetric] take_bit_eq_mod)

section \<open>Byte strings as numbers\<close>

primrec le_value :: "byte list \<Rightarrow> nat" where
  "le_value [] = 0"
| "le_value (b # bs) = unat b + 256 * le_value bs"

definition be_value :: "byte list \<Rightarrow> nat" where
  "be_value bs = le_value (rev bs)"

primrec le_bytes :: "nat \<Rightarrow> nat \<Rightarrow> byte list" where
  "le_bytes 0 n = []"
| "le_bytes (Suc k) n = byte_of n # le_bytes k (n div 256)"

definition be_bytes :: "nat \<Rightarrow> nat \<Rightarrow> byte list" where
  "be_bytes k n = rev (le_bytes k n)"

lemma length_le_bytes [simp]: "length (le_bytes k n) = k"
  by (induction k arbitrary: n) auto

lemma length_be_bytes [simp]: "length (be_bytes k n) = k"
  by (simp add: be_bytes_def)

lemma le_value_le_bytes [simp]: "le_value (le_bytes k n) = n mod 256 ^ k"
proof (induction k arbitrary: n)
  case (Suc k)
  then show ?case by (simp add: unat_byte_of mod_mult2_eq add.commute)
qed simp

lemma be_value_be_bytes [simp]: "be_value (be_bytes k n) = n mod 256 ^ k"
  by (simp add: be_value_def be_bytes_def)

lemma le_value_less: "le_value bs < 256 ^ length bs"
proof (induction bs)
  case (Cons b bs)
  then show ?case using unat_byte_less [of b] by simp
qed simp

lemma be_value_less: "be_value bs < 256 ^ length bs"
  using le_value_less [of "rev bs"] by (simp add: be_value_def)

lemma le_bytes_le_value: "le_bytes (length bs) (le_value bs) = bs"
proof (induction bs)
  case (Cons b bs)
  have "word_of_nat (256 * le_value bs) = (0 :: byte)"
    by (metis mult.commute unat_eq_zero unat_byte_of mod_mult_self1_is_0)
  with Cons show ?case using unat_byte_less [of b] by simp
qed simp

lemma le_value_append: "le_value (as @ bs) = le_value as + 256 ^ length as * le_value bs"
  by (induction as) (auto simp: algebra_simps)

lemma be_value_Cons: "be_value (b # bs) = unat b * 256 ^ length bs + be_value bs"
  by (simp add: be_value_def le_value_append)

lemma be_value_Nil [simp]: "be_value [] = 0"
  by (simp add: be_value_def)

lemma be_value_snoc: "be_value (bs @ [b]) = be_value bs * 256 + unat b"
  by (simp add: be_value_def)

section \<open>Memory order\<close>

text \<open>The C function \<open>memcmp\<close> on strings of the same length.\<close>

fun memcmp :: "byte list \<Rightarrow> byte list \<Rightarrow> int" where
  "memcmp (a # as) (b # bs) = (if a < b then -1 else if b < a then 1 else memcmp as bs)"
| "memcmp _ _ = 0"

lemma memcmp_be_value:
  "length as = length bs \<Longrightarrow> memcmp as bs < 0 \<longleftrightarrow> be_value as < be_value bs"
proof (induction as bs rule: memcmp.induct)
  case (1 a as b bs)
  let ?m = "256 ^ length bs :: nat"
  have lt: "be_value as < ?m" "be_value bs < ?m" using be_value_less [of as] be_value_less [of bs] 1(2) by simp_all
  consider "unat a < unat b" | "unat b < unat a" | "unat a = unat b" by linarith
  then show ?case
  proof cases
    case 1
    then have "Suc (unat a) * ?m \<le> unat b * ?m" by (intro mult_le_mono1) simp
    with lt 1 \<open>length (a # as) = length (b # bs)\<close> show ?thesis
      by (simp add: be_value_Cons word_less_nat_alt)
  next
    case 2
    then have "Suc (unat b) * ?m \<le> unat a * ?m" by (intro mult_le_mono1) simp
    with lt 2 \<open>length (a # as) = length (b # bs)\<close> show ?thesis
      by (simp add: be_value_Cons word_less_nat_alt)
  next
    case 3
    then have "a = b" by (simp add: word_unat_eq_iff)
    with 1 show ?thesis by (simp add: be_value_Cons)
  qed
qed auto

end
