(* ===== verification/Mach_Data.thy ===== *)
theory Mach_Data
  imports Bytes
begin

text \<open>
  The integer formats of InnoDB pages and log records, \<open>src/storage/innobase/include/mach0data.inl\<close>:
  big-endian numbers of fixed length, compressed numbers whose first byte codes the length, and the
  formats of SQL integers. An integer is a natural number; a function that writes yields
  the bytes it writes, one that reads gets the memory from its pointer on, and one that
  advances its pointer returns the rest of the memory as well.
\<close>

unbundle bit_operations_syntax

section \<open>Fixed length\<close>

definition mach_write_to_1 :: "nat \<Rightarrow> byte list" where
  "mach_write_to_1 n = [byte_of n]"

definition mach_write_to_2 :: "nat \<Rightarrow> byte list" where
  "mach_write_to_2 n = [byte_of (drop_bit 8 n), byte_of n]"

definition mach_read_from_1 :: "byte list \<Rightarrow> nat" where
  "mach_read_from_1 b = unat (b ! 0)"

definition mach_read_from_2 :: "byte list \<Rightarrow> nat" where
  "mach_read_from_2 b = take_bit 16 (push_bit 8 (unat (b ! 0)) OR unat (b ! 1))"

text \<open>The canonical format is the memory of the integer on a little-endian host.\<close>

definition mach_encode_2 :: "nat \<Rightarrow> nat" where
  "mach_encode_2 n = le_value (mach_write_to_2 n)"

definition mach_decode_2 :: "nat \<Rightarrow> nat" where
  "mach_decode_2 n = mach_read_from_2 (le_bytes 2 n)"

definition mach_write_to_3 :: "nat \<Rightarrow> byte list" where
  "mach_write_to_3 n = [byte_of (drop_bit 16 n), byte_of (drop_bit 8 n), byte_of n]"

definition mach_read_from_3 :: "byte list \<Rightarrow> nat" where
  "mach_read_from_3 b = push_bit 16 (unat (b ! 0)) OR push_bit 8 (unat (b ! 1)) OR unat (b ! 2)"

definition mach_write_to_4 :: "nat \<Rightarrow> byte list" where
  "mach_write_to_4 n = [byte_of (drop_bit 24 n), byte_of (drop_bit 16 n), byte_of (drop_bit 8 n), byte_of n]"

definition mach_read_from_4 :: "byte list \<Rightarrow> nat" where
  "mach_read_from_4 b =
     push_bit 24 (unat (b ! 0)) OR push_bit 16 (unat (b ! 1)) OR push_bit 8 (unat (b ! 2)) OR unat (b ! 3)"

definition mach_write_to_8 :: "nat \<Rightarrow> byte list" where
  "mach_write_to_8 n = mach_write_to_4 (drop_bit 32 n) @ mach_write_to_4 n"

definition mach_read_from_8 :: "byte list \<Rightarrow> nat" where
  "mach_read_from_8 b = take_bit 64 (push_bit 32 (mach_read_from_4 b)) OR mach_read_from_4 (drop 4 b)"

definition ut_ull_create :: "nat \<Rightarrow> nat \<Rightarrow> nat" where
  "ut_ull_create high low = take_bit 64 (push_bit 32 high) OR low"

definition mach_write_to_7 :: "nat \<Rightarrow> byte list" where
  "mach_write_to_7 n = mach_write_to_3 (drop_bit 32 n) @ mach_write_to_4 n"

definition mach_read_from_7 :: "byte list \<Rightarrow> nat" where
  "mach_read_from_7 b = ut_ull_create (mach_read_from_3 b) (mach_read_from_4 (drop 3 b))"

definition mach_write_to_6 :: "nat \<Rightarrow> byte list" where
  "mach_write_to_6 n = mach_write_to_2 (drop_bit 32 n) @ mach_write_to_4 n"

definition mach_read_from_6 :: "byte list \<Rightarrow> nat" where
  "mach_read_from_6 b = ut_ull_create (mach_read_from_2 b) (mach_read_from_4 (drop 2 b))"

section \<open>Compressed\<close>

text \<open>The functions that write in a compressed form return the number of bytes as well.\<close>

definition mach_write_compressed :: "nat \<Rightarrow> nat \<times> byte list" where
  "mach_write_compressed n =
     (if n < 0x80 then (1, mach_write_to_1 n)
      else if n < 0x4000 then (2, mach_write_to_2 (n OR 0x8000))
      else if n < 0x200000 then (3, mach_write_to_3 (n OR 0xC00000))
      else if n < 0x10000000 then (4, mach_write_to_4 (n OR 0xE0000000))
      else (5, mach_write_to_1 0xF0 @ mach_write_to_4 n))"

definition mach_get_compressed_size :: "nat \<Rightarrow> nat" where
  "mach_get_compressed_size n =
     (if n < 0x80 then 1 else if n < 0x4000 then 2 else if n < 0x200000 then 3
      else if n < 0x10000000 then 4 else 5)"

definition mach_read_compressed :: "byte list \<Rightarrow> nat" where
  "mach_read_compressed b =
     (let val = mach_read_from_1 b
      in if val < 0x80 then val
         else if val < 0xC0 then mach_read_from_2 b AND 0x3FFF
         else if val < 0xE0 then mach_read_from_3 b AND 0x1FFFFF
         else if val < 0xF0 then mach_read_from_4 b AND 0xFFFFFFF
         else mach_read_from_4 (drop 1 b))"

definition mach_read_next_compressed :: "byte list \<Rightarrow> nat \<times> byte list" where
  "mach_read_next_compressed b =
     (let val = mach_read_from_1 b
      in if val < 0x80 then (val, drop 1 b)
         else if val < 0xC0 then (mach_read_from_2 b AND 0x3FFF, drop 2 b)
         else if val < 0xE0 then (mach_read_from_3 b AND 0x1FFFFF, drop 3 b)
         else if val < 0xF0 then (mach_read_from_4 b AND 0xFFFFFFF, drop 4 b)
         else (mach_read_from_4 (drop 1 b), drop 5 b))"

definition mach_u64_write_compressed :: "nat \<Rightarrow> nat \<times> byte list" where
  "mach_u64_write_compressed n =
     (case mach_write_compressed (drop_bit 32 n) of (sz, bs) \<Rightarrow> (sz + 4, bs @ mach_write_to_4 n))"

definition mach_u64_read_next_compressed :: "byte list \<Rightarrow> nat \<times> byte list" where
  "mach_u64_read_next_compressed b =
     (case mach_read_next_compressed b of
        (val, b') \<Rightarrow> (take_bit 64 (push_bit 32 val) OR mach_read_from_4 b', drop 4 b'))"

definition mach_u64_write_much_compressed :: "nat \<Rightarrow> nat \<times> byte list" where
  "mach_u64_write_much_compressed n =
     (if drop_bit 32 n = 0 then mach_write_compressed n
      else case mach_write_compressed (drop_bit 32 n) of
             (sz1, bs1) \<Rightarrow>
               case mach_write_compressed (n AND 0xFFFFFFFF) of
                 (sz2, bs2) \<Rightarrow> (1 + sz1 + sz2, [0xFF] @ bs1 @ bs2))"

definition mach_u64_read_much_compressed :: "byte list \<Rightarrow> nat" where
  "mach_u64_read_much_compressed b =
     (if b ! 0 \<noteq> 0xFF then mach_read_compressed b
      else case mach_read_next_compressed (drop 1 b) of
             (n, b') \<Rightarrow> take_bit 64 (push_bit 32 n) OR mach_read_compressed b')"

definition mach_read_next_much_compressed :: "byte list \<Rightarrow> nat \<times> byte list" where
  "mach_read_next_much_compressed b =
     (let val = mach_read_from_1 b
      in if val < 0x80 then (val, drop 1 b)
         else if val < 0xC0 then (mach_read_from_2 b AND 0x3FFF, drop 2 b)
         else if val < 0xE0 then (mach_read_from_3 b AND 0x1FFFFF, drop 3 b)
         else if val < 0xF0 then (mach_read_from_4 b AND 0xFFFFFFF, drop 4 b)
         else if val = 0xF0 then (mach_read_from_4 (drop 1 b), drop 5 b)
         else case mach_read_next_compressed (drop 1 b) of
                (high, b1) \<Rightarrow>
                  case mach_read_next_compressed b1 of
                    (low, b2) \<Rightarrow> (take_bit 64 (push_bit 32 high) OR low, b2))"

section \<open>Little-endian and SQL integers\<close>

text \<open>The loop reads the \<open>k\<close> bytes of the memory from the last to the first.\<close>

fun read_n_little_endian :: "byte list \<Rightarrow> nat \<Rightarrow> nat \<Rightarrow> nat" where
  "read_n_little_endian buf 0 n = n"
| "read_n_little_endian buf (Suc k) n =
     read_n_little_endian buf k (take_bit 64 (take_bit 64 (push_bit 8 n) + unat (buf ! k)))"

definition mach_read_from_n_little_endian :: "byte list \<Rightarrow> nat \<Rightarrow> nat" where
  "mach_read_from_n_little_endian buf buf_size = read_n_little_endian buf buf_size 0"

fun mach_write_to_n_little_endian :: "nat \<Rightarrow> nat \<Rightarrow> byte list" where
  "mach_write_to_n_little_endian 0 n = []"
| "mach_write_to_n_little_endian (Suc k) n = byte_of (n AND 0xFF) # mach_write_to_n_little_endian k (drop_bit 8 n)"

definition mach_read_from_2_little_endian :: "byte list \<Rightarrow> nat" where
  "mach_read_from_2_little_endian buf = unat (buf ! 0) OR push_bit 8 (unat (buf ! 1))"

definition mach_write_to_2_little_endian :: "nat \<Rightarrow> byte list" where
  "mach_write_to_2_little_endian n = [byte_of (n AND 0xFF), byte_of (drop_bit 8 n AND 0xFF)]"

fun read_int_loop :: "byte list \<Rightarrow> nat \<Rightarrow> nat" where
  "read_int_loop [] ret = ret"
| "read_int_loop (b # bs) ret = read_int_loop bs (take_bit 64 (push_bit 8 ret) OR unat b)"

definition mach_read_int_type :: "byte list \<Rightarrow> nat \<Rightarrow> bool \<Rightarrow> nat" where
  "mach_read_int_type src len unsigned_type =
     (let ret = (if unsigned_type \<or> src ! 0 AND 0x80 \<noteq> 0 then 0 else 0xFFFFFFFFFFFFFF00);
          ret = (if unsigned_type then ret OR unat (src ! 0) else ret OR unat (src ! 0 XOR 0x80))
      in read_int_loop (drop 1 (take len src)) ret)"

definition mach_swap_byte_order :: "byte list \<Rightarrow> nat \<Rightarrow> byte list" where
  "mach_swap_byte_order from len = rev (take (if len AND 7 = 0 then 8 else len AND 7) from)"

text \<open>On a little-endian host the memory of \<open>src\<close> is its little-endian byte string.\<close>

definition mach_write_ulonglong :: "nat \<Rightarrow> nat \<Rightarrow> bool \<Rightarrow> byte list" where
  "mach_write_ulonglong src len usign =
     (let dest = mach_swap_byte_order (le_bytes 8 src) len
      in if usign then dest else dest[0 := dest ! 0 XOR 0x80])"

section \<open>What is written\<close>

lemma small_numerals: "2 = Suc (Suc 0)" "3 = Suc (Suc (Suc 0))" "4 = Suc (Suc (Suc (Suc 0)))"
  by simp_all

lemma mach_write_bytes:
  "mach_write_to_1 n = be_bytes 1 n" "mach_write_to_2 n = be_bytes 2 n"
  "mach_write_to_3 n = be_bytes 3 n" "mach_write_to_4 n = be_bytes 4 n"
  unfolding mach_write_to_1_def mach_write_to_2_def mach_write_to_3_def mach_write_to_4_def be_bytes_def
    One_nat_def small_numerals(1) small_numerals(2) small_numerals(3) le_bytes.simps
  by (simp_all add: drop_bit_eq_div div_mult2_eq [symmetric])

text \<open>Reading is taking the big-endian value of a prefix of the memory.\<close>

lemma mach_read_2: "2 \<le> length b \<Longrightarrow> mach_read_from_2 b = be_value (take 2 b)"
proof -
  assume "2 \<le> length b"
  then obtain x y bs where b: "b = x # y # bs" by (auto simp: Suc_le_length_iff numeral_eq_Suc)
  have "unat x * 256 + unat y < 65536" using unat_byte_less [of x] unat_byte_less [of y] by simp
  then show ?thesis using push_or [of "unat y" 8 "unat x"] unat_byte_less [of y]
    by (simp add: b mach_read_from_2_def be_value_Cons take_bit_eq_mod)
qed

lemma mach_read_3: "3 \<le> length b \<Longrightarrow> mach_read_from_3 b = be_value (take 3 b)"
proof -
  assume "3 \<le> length b"
  then obtain x y z bs where b: "b = x # y # z # bs" by (auto simp: Suc_le_length_iff numeral_eq_Suc)
  have "push_bit 8 (unat y) OR unat z = unat y * 256 + unat z" using push_or [of "unat z" 8] unat_byte_less [of z] by simp
  moreover have "unat y * 256 + unat z < 2 ^ 16" using unat_byte_less [of y] unat_byte_less [of z] by simp
  ultimately show ?thesis using push_or [of "unat y * 256 + unat z" 16 "unat x"]
    by (simp add: b mach_read_from_3_def be_value_Cons or.assoc)
qed

lemma mach_read_4: "4 \<le> length b \<Longrightarrow> mach_read_from_4 b = be_value (take 4 b)"
proof -
  assume "4 \<le> length b"
  then obtain w x y z bs where b: "b = w # x # y # z # bs" by (auto simp: Suc_le_length_iff numeral_eq_Suc)
  have a: "push_bit 8 (unat y) OR unat z = unat y * 256 + unat z" using push_or [of "unat z" 8] unat_byte_less [of z] by simp
  have l: "unat y * 256 + unat z < 2 ^ 16" using unat_byte_less [of y] unat_byte_less [of z] by simp
  have c: "push_bit 16 (unat x) OR (unat y * 256 + unat z) = unat x * 65536 + (unat y * 256 + unat z)"
    using push_or [OF l, of "unat x"] by simp
  have "unat x * 65536 + (unat y * 256 + unat z) < 2 ^ 24" using l unat_byte_less [of x] by simp
  from push_or [OF this, of "unat w"] show ?thesis using a c
    by (simp add: b mach_read_from_4_def be_value_Cons or.assoc)
qed

section \<open>Reading back what was written\<close>

lemma mach_fixed_round_trip [simp]:
  "mach_read_from_1 (mach_write_to_1 n @ r) = n mod 2 ^ 8"
  "mach_read_from_2 (mach_write_to_2 n @ r) = n mod 2 ^ 16"
  "mach_read_from_3 (mach_write_to_3 n @ r) = n mod 2 ^ 24"
  "mach_read_from_4 (mach_write_to_4 n @ r) = n mod 2 ^ 32"
  by (simp_all add: mach_write_bytes mach_read_2 mach_read_3 mach_read_4)
    (simp add: mach_read_from_1_def be_bytes_def unat_byte_of)

lemma length_mach_write [simp]:
  "length (mach_write_to_1 n) = 1" "length (mach_write_to_2 n) = 2"
  "length (mach_write_to_3 n) = 3" "length (mach_write_to_4 n) = 4"
  by (simp_all add: mach_write_bytes)

lemma join_high_low:
  assumes "high < 2 ^ 32" "low < 2 ^ 32"
  shows "take_bit 64 (push_bit 32 high) OR low = high * 2 ^ 32 + (low :: nat)"
proof -
  have "push_bit 32 high < 2 ^ 64" using assms(1) by (simp add: push_bit_eq_mult)
  then have "take_bit 64 (push_bit 32 high) = push_bit 32 high" by (rule take_bit_nat_eq_self)
  then show ?thesis using push_or [OF assms(2), of high] by simp
qed

lemma join_parts:
  assumes "n < 2 ^ 64"
  shows "take_bit 64 (push_bit 32 (n div 2 ^ 32)) OR n mod 2 ^ 32 = (n :: nat)"
proof -
  have "n div 2 ^ 32 < 2 ^ 32" using assms by (simp add: less_mult_imp_div_less)
  then show ?thesis using join_high_low [of "n div 2 ^ 32" "n mod 2 ^ 32"] by simp
qed

lemma mach_8_round_trip: "n < 2 ^ 64 \<Longrightarrow> mach_read_from_8 (mach_write_to_8 n @ r) = n"
proof -
  assume n: "n < 2 ^ 64"
  then have h: "n div 2 ^ 32 mod 2 ^ 32 = n div 2 ^ 32" by (simp add: less_mult_imp_div_less)
  have "mach_read_from_8 (mach_write_to_8 n @ r) =
    take_bit 64 (push_bit 32 (n div 2 ^ 32 mod 2 ^ 32)) OR n mod 2 ^ 32"
    unfolding mach_read_from_8_def mach_write_to_8_def append_assoc mach_fixed_round_trip drop_bit_eq_div by simp
  then show ?thesis unfolding h by (simp only: join_parts [OF n])
qed

lemma mach_7_round_trip: "n < 2 ^ 56 \<Longrightarrow> mach_read_from_7 (mach_write_to_7 n @ r) = n"
proof -
  assume n: "n < 2 ^ 56"
  then have h: "n div 2 ^ 32 mod 2 ^ 24 = n div 2 ^ 32" by (simp add: less_mult_imp_div_less)
  have "mach_read_from_7 (mach_write_to_7 n @ r) =
    take_bit 64 (push_bit 32 (n div 2 ^ 32 mod 2 ^ 24)) OR n mod 2 ^ 32"
    unfolding mach_read_from_7_def mach_write_to_7_def ut_ull_create_def append_assoc mach_fixed_round_trip drop_bit_eq_div by simp
  then show ?thesis unfolding h using join_parts [of n] n by simp
qed

lemma mach_6_round_trip: "n < 2 ^ 48 \<Longrightarrow> mach_read_from_6 (mach_write_to_6 n @ r) = n"
proof -
  assume n: "n < 2 ^ 48"
  then have h: "n div 2 ^ 32 mod 2 ^ 16 = n div 2 ^ 32" by (simp add: less_mult_imp_div_less)
  have "mach_read_from_6 (mach_write_to_6 n @ r) =
    take_bit 64 (push_bit 32 (n div 2 ^ 32 mod 2 ^ 16)) OR n mod 2 ^ 32"
    unfolding mach_read_from_6_def mach_write_to_6_def ut_ull_create_def append_assoc mach_fixed_round_trip drop_bit_eq_div by simp
  then show ?thesis unfolding h using join_parts [of n] n by simp
qed

text \<open>The tag bits of the compressed format.\<close>

lemma tag_bits:
  "n < 0x4000 \<Longrightarrow> n OR 0x8000 = 0x8000 + (n :: nat)"
  "n < 0x200000 \<Longrightarrow> n OR 0xC00000 = 0xC00000 + (n :: nat)"
  "n < 0x10000000 \<Longrightarrow> n OR 0xE0000000 = 0xE0000000 + (n :: nat)"
  using or_high [of n 14 2] or_high [of n 21 6] or_high [of n 28 14] by simp_all

lemma untag_bits:
  "n AND 0x3FFF = n mod 0x4000" "n AND 0x1FFFFF = n mod 0x200000" "n AND 0xFFFFFFF = (n :: nat) mod 0x10000000"
  "n AND 0xFFFFFFFF = n mod 0x100000000" "n AND 0xFF = n mod 0x100"
  using and_mask [of n 14] and_mask [of n 21] and_mask [of n 28] and_mask [of n 32] and_mask [of n 8]
  by (simp_all add: mask_eq_exp_minus_1)

lemma mod_tags:
  "n < 0x4000 \<Longrightarrow> (0x8000 + n) mod 0x4000 = (n :: nat)"
  "n < 0x200000 \<Longrightarrow> (0xC00000 + n) mod 0x200000 = (n :: nat)"
  "n < 0x10000000 \<Longrightarrow> (0xE0000000 + n) mod 0x10000000 = (n :: nat)"
  using mod_mult_self3 [of 2 "0x4000" n] mod_mult_self3 [of 6 "0x200000" n] mod_mult_self3 [of 14 "0x10000000" n]
  by simp_all

lemma first_byte:
  "mach_read_from_1 (mach_write_to_1 n @ r) = n mod 256"
  "mach_read_from_1 (mach_write_to_2 n @ r) = n div 256 mod 256"
  "mach_read_from_1 (mach_write_to_3 n @ r) = n div 65536 mod 256"
  "mach_read_from_1 (mach_write_to_4 n @ r) = n div 16777216 mod 256"
  by (simp_all add: mach_read_from_1_def mach_write_to_1_def mach_write_to_2_def mach_write_to_3_def
      mach_write_to_4_def unat_byte_of drop_bit_eq_div)

lemma mach_compressed_size:
  "fst (mach_write_compressed n) = mach_get_compressed_size n"
  "length (snd (mach_write_compressed n)) = mach_get_compressed_size n"
  by (simp_all add: mach_write_compressed_def mach_get_compressed_size_def)

text \<open>The five ranges of the compressed format.\<close>

lemma compressed_cases:
  assumes "n < 2 ^ 32"
  obtains (one) "n < 0x80" "snd (mach_write_compressed n) = mach_write_to_1 n"
  | (two) "0x80 \<le> n" "n < 0x4000" "snd (mach_write_compressed n) = mach_write_to_2 (0x8000 + n)"
  | (three) "0x4000 \<le> n" "n < 0x200000" "snd (mach_write_compressed n) = mach_write_to_3 (0xC00000 + n)"
  | (four) "0x200000 \<le> n" "n < 0x10000000" "snd (mach_write_compressed n) = mach_write_to_4 (0xE0000000 + n)"
  | (five) "0x10000000 \<le> n" "snd (mach_write_compressed n) = mach_write_to_1 0xF0 @ mach_write_to_4 n"
proof -
  consider "n < 0x80" | "0x80 \<le> n" "n < 0x4000" | "0x4000 \<le> n" "n < 0x200000"
    | "0x200000 \<le> n" "n < 0x10000000" | "0x10000000 \<le> n" by linarith
  then show thesis
    by cases (use that tag_bits [of n] in \<open>simp_all add: mach_write_compressed_def\<close>)
qed

lemma read_next_compressed_write:
  assumes n: "n < 2 ^ 32"
  shows "mach_read_next_compressed (snd (mach_write_compressed n) @ r) = (n, r)"
  using n
proof (cases rule: compressed_cases)
  case one
  then show ?thesis by (simp add: mach_read_next_compressed_def first_byte)
next
  case two
  moreover have "(0x8000 + n) div 256 mod 256 < 0xC0" "(0x8000 + n) div 256 mod 256 \<ge> 0x80" using two by simp_all
  ultimately show ?thesis by (simp add: mach_read_next_compressed_def first_byte untag_bits mod_tags Let_def)
next
  case three
  moreover have "(0xC00000 + n) div 65536 mod 256 < 0xE0" "(0xC00000 + n) div 65536 mod 256 \<ge> 0xC0" using three by simp_all
  ultimately show ?thesis by (simp add: mach_read_next_compressed_def first_byte untag_bits mod_tags Let_def)
next
  case four
  moreover have "(0xE0000000 + n) div 16777216 mod 256 < 0xF0" "(0xE0000000 + n) div 16777216 mod 256 \<ge> 0xE0"
    using four by simp_all
  ultimately show ?thesis by (simp add: mach_read_next_compressed_def first_byte untag_bits mod_tags Let_def)
next
  case five
  then show ?thesis using n by (simp add: mach_read_next_compressed_def first_byte Let_def)
qed

lemma read_compressed_next: "mach_read_compressed b = fst (mach_read_next_compressed b)"
  by (simp add: mach_read_compressed_def mach_read_next_compressed_def Let_def)

lemma mach_u64_round_trip:
  assumes n: "n < 2 ^ 64"
  shows "mach_u64_read_next_compressed (snd (mach_u64_write_compressed n) @ r) = (n, r)"
proof -
  have h: "n div 2 ^ 32 < 2 ^ 32" using n by (simp add: less_mult_imp_div_less)
  have "mach_u64_read_next_compressed (snd (mach_u64_write_compressed n) @ r) =
    (take_bit 64 (push_bit 32 (n div 2 ^ 32)) OR n mod 2 ^ 32, r)"
    using read_next_compressed_write [OF h, of "mach_write_to_4 n @ r"]
    by (simp add: mach_u64_read_next_compressed_def mach_u64_write_compressed_def drop_bit_eq_div split_def)
  then show ?thesis by (simp only: join_parts [OF n])
qed

text \<open>A number below \<open>2 ^ 32\<close> never starts with a byte above 0xF0.\<close>

lemma compressed_first_byte:
  assumes "n < 2 ^ 32"
  shows "mach_read_from_1 (snd (mach_write_compressed n) @ r) \<le> 0xF0"
  using assms by (cases rule: compressed_cases) (simp_all add: first_byte div_le_mono less_mult_imp_div_less)

lemma read_next_much_small:
  "mach_read_from_1 b \<le> 0xF0 \<Longrightarrow> mach_read_next_much_compressed b = mach_read_next_compressed b"
  by (auto simp: mach_read_next_much_compressed_def mach_read_next_compressed_def Let_def)

lemma much_compressed_round_trip:
  assumes n: "n < 2 ^ 64"
  shows "mach_read_next_much_compressed (snd (mach_u64_write_much_compressed n) @ r) = (n, r)"
    and "mach_u64_read_much_compressed (snd (mach_u64_write_much_compressed n) @ r) = n"
proof -
  let ?b = "snd (mach_u64_write_much_compressed n) @ r"
  have h: "n div 2 ^ 32 < 2 ^ 32" using n by (simp add: less_mult_imp_div_less)
  have l: "n mod 2 ^ 32 < 2 ^ 32" by simp
  have "mach_read_next_much_compressed ?b = (n, r) \<and> mach_u64_read_much_compressed ?b = n"
  proof (cases "n < 2 ^ 32")
    case True
    then have w: "?b = snd (mach_write_compressed n) @ r"
      by (simp add: mach_u64_write_much_compressed_def drop_bit_eq_div)
    have "mach_read_from_1 ?b \<le> 0xF0" using compressed_first_byte [OF True] w by simp
    moreover from this have "?b ! 0 \<noteq> 0xFF" by (auto simp: mach_read_from_1_def)
    ultimately show ?thesis
      using read_next_compressed_write [OF True, of r]
      by (simp add: read_next_much_small mach_u64_read_much_compressed_def read_compressed_next w)
  next
    case False
    let ?h = "snd (mach_write_compressed (n div 2 ^ 32))" and ?l = "snd (mach_write_compressed (n mod 2 ^ 32))"
    have "n div 2 ^ 32 \<noteq> 0" using False by simp
    then have w: "?b = 0xFF # ?h @ ?l @ r"
      using untag_bits(4) [of n] by (simp add: mach_u64_write_much_compressed_def drop_bit_eq_div split_def)
    show ?thesis
      unfolding w using read_next_compressed_write [OF h, of "?l @ r"] read_next_compressed_write [OF l, of r]
      by (simp add: mach_read_next_much_compressed_def mach_u64_read_much_compressed_def mach_read_from_1_def
          read_compressed_next join_parts [OF n, simplified])
  qed
  then show "mach_read_next_much_compressed ?b = (n, r)" "mach_u64_read_much_compressed ?b = n" by auto
qed

section \<open>SQL integers\<close>

lemma mod_linear: "(x mod m * c + d) mod m = (x * c + d) mod (m :: nat)"
  by (metis mod_add_left_eq mod_mult_left_eq)

lemma mach_write_n_le: "mach_write_to_n_little_endian k n = le_bytes k n"
proof (induction k n rule: mach_write_to_n_little_endian.induct)
  case (2 k n)
  have "byte_of (n AND 255) = byte_of n"
    unfolding untag_bits by (simp add: word_unat_eq_iff unat_byte_of)
  with 2 show ?case by (simp add: drop_bit_eq_div)
qed simp

lemma read_n_le_value:
  "k \<le> length buf \<Longrightarrow> acc < 2 ^ 64 \<Longrightarrow>
     read_n_little_endian buf k acc = (acc * 256 ^ k + le_value (take k buf)) mod 2 ^ 64"
proof (induction buf k acc rule: read_n_little_endian.induct)
  case (2 buf k n)
  let ?b = "unat (buf ! k)"
  have step: "take_bit 64 (take_bit 64 (push_bit 8 n) + ?b) = (n * 256 + ?b) mod 2 ^ 64"
    using mod_linear [of "n * 256" "2 ^ 64" 1 ?b] unfolding take_bit_eq_mod push_bit_eq_mult by simp
  have "read_n_little_endian buf (Suc k) n = ((n * 256 + ?b) mod 2 ^ 64 * 256 ^ k + le_value (take k buf)) mod 2 ^ 64"
    using 2 unfolding read_n_little_endian.simps step by simp
  also have "\<dots> = ((n * 256 + ?b) * 256 ^ k + le_value (take k buf)) mod 2 ^ 64"
    by (rule mod_linear)
  also have "(n * 256 + ?b) * 256 ^ k + le_value (take k buf) = n * 256 ^ Suc k + le_value (take (Suc k) buf)"
    using 2(2) by (simp add: take_Suc_conv_app_nth le_value_append add_mult_distrib)
  finally show ?case .
qed simp

lemma mach_n_le_round_trip:
  "k \<le> 8 \<Longrightarrow> n < 256 ^ k \<Longrightarrow> mach_read_from_n_little_endian (mach_write_to_n_little_endian k n @ r) k = n"
proof -
  assume k: "k \<le> 8" and n: "n < 256 ^ k"
  have "(256 :: nat) ^ k \<le> 256 ^ 8" using k by (rule power_increasing) simp
  with n have "n < 2 ^ 64" by simp
  then show ?thesis
    using n by (simp add: mach_read_from_n_little_endian_def mach_write_n_le read_n_le_value)
qed

lemma bit_high: "bit (0x80 :: byte) i \<longleftrightarrow> i = 7"
proof -
  have "(0x80 :: byte) = push_bit 7 1" by simp
  then show ?thesis using bit_push_bit_1_word [of 7 i, where 'a = 8] by simp
qed

lemma flip_high_bit: "unat ((b :: byte) XOR 0x80) = (unat b + 128) mod 256"
proof -
  have "b XOR 0x80 = b + 0x80"
  proof (cases "bit b 7")
    case False
    then have "b AND 0x80 = 0" unfolding word_and_eq_0_iff bit_high by auto
    then show ?thesis by (simp add: disjunctive_add_eq_xor)
  next
    case True
    let ?c = "b XOR 0x80"
    have "?c AND 0x80 = 0" using True unfolding word_and_eq_0_iff bit_xor_iff bit_high by auto
    then have "?c + 0x80 = ?c XOR 0x80" by (rule disjunctive_add_eq_xor)
    also have "\<dots> = b" by (simp add: xor.assoc)
    finally have "b + 0x80 = ?c + 0x80 + 0x80" by simp
    also have "\<dots> = ?c" by simp
    finally show ?thesis by simp
  qed
  then show ?thesis by (simp add: unat_word_ariths)
qed

lemma high_bit_set: "(b :: byte) AND 0x80 \<noteq> 0 \<longleftrightarrow> 128 \<le> unat b"
proof -
  have "b AND 0x80 = 0 \<longleftrightarrow> \<not> bit b 7" unfolding word_and_eq_0_iff bit_high by auto
  moreover have "bit b 7 \<longleftrightarrow> bit (unat b) 7" by (simp add: bit_unsigned_iff)
  moreover have "bit (unat b) 7 \<longleftrightarrow> odd (unat b div 2 ^ 7)" by (rule bit_iff_odd)
  moreover have "odd (unat b div 2 ^ 7) \<longleftrightarrow> 128 \<le> unat b"
  proof -
    have "unat b div 128 < 2" using unat_byte_less [of b] by (simp add: less_mult_imp_div_less)
    then have "unat b div 128 = 0 \<or> unat b div 128 = 1" by linarith
    then show ?thesis by (auto simp: div_eq_0_iff)
  qed
  ultimately show ?thesis by simp
qed

lemma read_int_loop_value:
  "ret < 2 ^ 64 \<Longrightarrow> read_int_loop bs ret = (ret * 256 ^ length bs + be_value bs) mod 2 ^ 64"
proof (induction bs ret rule: read_int_loop.induct)
  case (2 b bs ret)
  let ?r = "take_bit 64 (push_bit 8 ret)"
  have r: "?r = ret * 256 mod 2 ^ 64" by (simp add: take_bit_eq_mod push_bit_eq_mult)
  have "?r = (ret mod 2 ^ 56) * 256" unfolding r using mod_mult_mult2 [of ret 256 "2 ^ 56"] by simp
  then have or: "?r OR unat b = ret mod 2 ^ 56 * 256 + unat b"
    using push_or [of "unat b" 8 "ret mod 2 ^ 56"] unat_byte_less [of b] by (simp add: push_bit_eq_mult)
  have "ret mod 2 ^ 56 < 2 ^ 56" by simp
  then have lt: "?r OR unat b < 2 ^ 64" unfolding or using unat_byte_less [of b] by simp
  have cong: "(?r OR unat b) mod 2 ^ 64 = (ret * 256 + unat b) mod 2 ^ 64"
    unfolding or using r \<open>?r = (ret mod 2 ^ 56) * 256\<close> by (metis mod_add_left_eq)
  have "read_int_loop (b # bs) ret = ((?r OR unat b) * 256 ^ length bs + be_value bs) mod 2 ^ 64"
    using 2 lt by simp
  also have "\<dots> = ((ret * 256 + unat b) * 256 ^ length bs + be_value bs) mod 2 ^ 64"
    using cong by (metis mod_linear)
  also have "(ret * 256 + unat b) * 256 ^ length bs + be_value bs = ret * 256 ^ length (b # bs) + be_value (b # bs)"
    by (simp add: be_value_Cons algebra_simps)
  finally show ?case .
qed simp

lemma take_le_bytes: "j \<le> k \<Longrightarrow> take j (le_bytes k n) = le_bytes j n"
proof (induction j arbitrary: k n)
  case (Suc j)
  then show ?case by (cases k) auto
qed simp

lemma swap_le_bytes:
  assumes "1 \<le> len" "len \<le> 8"
  shows "mach_swap_byte_order (le_bytes 8 n) len = be_bytes len n"
proof -
  have "len AND 7 = len mod 8" using and_mask [of len 3] by (simp add: mask_eq_exp_minus_1)
  then have "(if len AND 7 = 0 then 8 else len AND 7) = len"
    using assms by (cases "len = 8") simp_all
  then show ?thesis using assms(2) unfolding mach_swap_byte_order_def be_bytes_def by (simp only: take_le_bytes)
qed

lemma be_value_flip:
  assumes "bs \<noteq> []"
  shows "be_value (bs[0 := bs ! 0 XOR 0x80]) = (be_value bs + 128 * 256 ^ (length bs - 1)) mod 256 ^ length bs"
proof -
  obtain b cs where bs: "bs = b # cs" using assms by (cases bs) auto
  let ?m = "256 ^ length cs :: nat"
  have lt: "be_value cs < ?m" by (rule be_value_less)
  have "be_value (bs[0 := bs ! 0 XOR 0x80]) = (unat b + 128) mod 256 * ?m + be_value cs"
    by (simp add: bs be_value_Cons flip_high_bit)
  also have "\<dots> = ((unat b + 128) * ?m + be_value cs) mod (?m * 256)"
    using lt mod_mult2_eq [of "(unat b + 128) * ?m + be_value cs" ?m 256] by simp
  also have "(unat b + 128) * ?m + be_value cs = be_value bs + 128 * ?m"
    by (simp add: bs be_value_Cons add_mult_distrib)
  finally show ?thesis by (simp add: bs mult.commute)
qed

text \<open>Half the range of \<open>len\<close> bytes.\<close>

lemma half_range:
  assumes "1 \<le> len"
  shows "256 ^ len = 2 * (2 :: 'a :: comm_semiring_1) ^ (8 * len - 1)" "128 * 256 ^ (len - 1) = (2 :: 'a) ^ (8 * len - 1)"
proof -
  have e: "8 * len = Suc (8 * len - 1)" "8 * len - 1 = 7 + 8 * (len - 1)" using assms by linarith+
  have "256 ^ len = ((2 :: 'a) ^ 8) ^ len" by simp
  also have "\<dots> = 2 ^ Suc (8 * len - 1)" unfolding power_mult [symmetric] using e(1) by simp
  finally show "256 ^ len = 2 * (2 :: 'a) ^ (8 * len - 1)" by simp
  have "(2 :: 'a) ^ (8 * len - 1) = 2 ^ 7 * (2 ^ 8) ^ (len - 1)"
    unfolding power_mult [symmetric] power_add [symmetric] using e(2) by simp
  then show "128 * 256 ^ (len - 1) = (2 :: 'a) ^ (8 * len - 1)" by simp
qed

lemma range_dvd: "len \<le> 8 \<Longrightarrow> (256 :: int) ^ len dvd 2 ^ 64"
  using le_imp_power_dvd [of len 8 "256 :: int"] by simp

text \<open>The stored form of a signed number of \<open>len\<close> bytes is its value plus half the range.\<close>

lemma write_signed_value:
  assumes len: "1 \<le> len" "len \<le> 8" and x: "- (2 ^ (8 * len - 1)) \<le> x" "x < 2 ^ (8 * len - 1)"
  shows "int (be_value (mach_write_ulonglong (nat (x mod 2 ^ 64)) len False)) = x + 2 ^ (8 * len - 1)"
proof -
  let ?n = "nat (x mod 2 ^ 64)" and ?H = "2 ^ (8 * len - 1) :: int" and ?L = "256 ^ len :: int"
  have ne: "be_bytes len ?n \<noteq> []" using len(1) by (metis length_be_bytes list.size(3) not_one_le_zero)
  have "be_value (mach_write_ulonglong ?n len False) = (?n mod 256 ^ len + 128 * 256 ^ (len - 1)) mod 256 ^ len"
    using be_value_flip [OF ne] by (simp add: mach_write_ulonglong_def swap_le_bytes [OF len] Let_def)
  then have "int (be_value (mach_write_ulonglong ?n len False)) = (x mod 2 ^ 64 mod ?L + 128 * 256 ^ (len - 1)) mod ?L"
    by (simp add: zmod_int)
  also have "\<dots> = (x + ?H) mod ?L"
    unfolding mod_mod_cancel [OF range_dvd [OF len(2)]] half_range(2) [OF len(1)] mod_add_left_eq ..
  also have "\<dots> = x + ?H"
    using x half_range(1) [OF len(1), where 'a = int] by (intro mod_pos_pos_trivial) auto
  finally show ?thesis .
qed

lemma read_signed_value:
  assumes len: "1 \<le> len" "len \<le> length src"
  shows "int (mach_read_int_type src len False) = (int (be_value (take len src)) - 2 ^ (8 * len - 1)) mod 2 ^ 64"
proof -
  obtain b cs where src: "src = b # cs" using len by (cases src) auto
  let ?ds = "take (len - 1) cs" and ?m = "256 ^ (len - 1) :: int"
  have ds: "length ?ds = len - 1" "take len src = b # ?ds" using len by (auto simp: src take_Cons')
  have rest: "drop 1 (take len src) = ?ds" using ds(2) by simp
  have val: "int (be_value (take len src)) = int (unat b) * ?m + int (be_value ?ds)"
    unfolding ds(2) be_value_Cons ds(1) by simp
  have half: "2 ^ (8 * len - 1) = 128 * ?m" using half_range(2) [OF len(1), where 'a = int] by simp
  show ?thesis
  proof (cases "128 \<le> unat b")
    case True
    then have "b AND 0x80 \<noteq> 0" by (simp add: high_bit_set)
    then have "mach_read_int_type src len False = read_int_loop ?ds (unat b - 128)"
      using True unat_byte_less [of b] rest
      by (simp add: mach_read_int_type_def src flip_high_bit mod_if)
    also have "\<dots> = ((unat b - 128) * 256 ^ (len - 1) + be_value ?ds) mod 2 ^ 64"
      using read_int_loop_value [of "unat b - 128" ?ds] unat_byte_less [of b] ds(1) by simp
    finally have "int (mach_read_int_type src len False) = ((int (unat b) - 128) * ?m + int (be_value ?ds)) mod 2 ^ 64"
      using True by (simp add: zmod_int of_nat_diff)
    also have "(int (unat b) - 128) * ?m + int (be_value ?ds) = int (unat b) * ?m + int (be_value ?ds) - 128 * ?m"
      by (simp add: left_diff_distrib)
    finally show ?thesis unfolding val half .
  next
    case False
    then have "b AND 0x80 = 0" using high_bit_set [of b] by blast
    moreover have "0xFFFFFFFFFFFFFF00 OR (unat b + 128) = 0xFFFFFFFFFFFFFF00 + (unat b + 128)"
      using or_high [of "unat b + 128" 8 "0xFFFFFFFFFFFFFF"] False by (simp add: or.commute)
    ultimately have "mach_read_int_type src len False = read_int_loop ?ds (0xFFFFFFFFFFFFFF80 + unat b)"
      using False rest by (simp add: mach_read_int_type_def src flip_high_bit)
    also have "\<dots> = ((0xFFFFFFFFFFFFFF80 + unat b) * 256 ^ (len - 1) + be_value ?ds) mod 2 ^ 64"
      using read_int_loop_value [of "0xFFFFFFFFFFFFFF80 + unat b" ?ds] False ds(1) by simp
    finally have "int (mach_read_int_type src len False) =
      ((0xFFFFFFFFFFFFFF80 + int (unat b)) * ?m + int (be_value ?ds)) mod 2 ^ 64" by (simp add: zmod_int)
    also have "(0xFFFFFFFFFFFFFF80 + int (unat b)) * ?m + int (be_value ?ds) =
      int (unat b) * ?m + int (be_value ?ds) - 128 * ?m + ?m * 2 ^ 64" by (simp add: distrib_right)
    finally show ?thesis unfolding val half by (simp only: mod_mult_self1)
  qed
qed

lemma read_unsigned_value:
  assumes len: "1 \<le> len" "len \<le> 8" "len \<le> length src"
  shows "mach_read_int_type src len True = be_value (take len src)"
proof -
  obtain b cs where src: "src = b # cs" using len by (cases src) auto
  let ?ds = "take (len - 1) cs"
  have ds: "length ?ds = len - 1" "take len src = b # ?ds" using len by (auto simp: src take_Cons')
  have "mach_read_int_type src len True = read_int_loop ?ds (unat b)"
    using ds(2) by (simp add: mach_read_int_type_def src)
  also have "\<dots> = be_value (take len src) mod 2 ^ 64"
    using read_int_loop_value [of "unat b" ?ds] unat_byte_less [of b] unfolding ds(2) be_value_Cons by simp
  also have "\<dots> = be_value (take len src)"
  proof -
    have "be_value (take len src) < 256 ^ len" using be_value_less [of "take len src"] len(3) by simp
    also have "\<dots> \<le> 256 ^ 8" using len(2) by (intro power_increasing) simp_all
    finally show ?thesis by simp
  qed
  finally show ?thesis .
qed

section \<open>Properties\<close>

text \<open>
  C24. Compressed integers: reading what was written gives the number and leaves exactly the
  memory after it, so that the formats can be concatenated; the size returned, the number of
  bytes written and \<open>mach_get_compressed_size\<close> agree. This holds for the 32 bit format, the 64
  bit one with a fixed low half, and the 64 bit one with both halves compressed.
\<close>

theorem mach_compressed_round_trip:
  assumes "n < 2 ^ 64"
  shows "mach_read_next_compressed (snd (mach_write_compressed (n mod 2 ^ 32)) @ r) = (n mod 2 ^ 32, r) \<and>
    mach_read_compressed (snd (mach_write_compressed (n mod 2 ^ 32)) @ r) = n mod 2 ^ 32 \<and>
    fst (mach_write_compressed n) = mach_get_compressed_size n \<and>
    length (snd (mach_write_compressed n)) = mach_get_compressed_size n \<and>
    mach_u64_read_next_compressed (snd (mach_u64_write_compressed n) @ r) = (n, r) \<and>
    mach_read_next_much_compressed (snd (mach_u64_write_much_compressed n) @ r) = (n, r) \<and>
    mach_u64_read_much_compressed (snd (mach_u64_write_much_compressed n) @ r) = n"
  using read_next_compressed_write [of "n mod 2 ^ 32" r] mach_compressed_size mach_u64_round_trip [OF assms]
    much_compressed_round_trip [OF assms]
  by (simp add: read_compressed_next)

theorem mach_compressed_round_trip_witness:
  "mach_read_next_much_compressed (snd (mach_u64_write_much_compressed 0x123456789AB) @ [7]) = (0x123456789AB, [7])"
  using mach_compressed_round_trip [of "0x123456789AB" "[7]"] by simp

text \<open>
  C25. Big-endian integers of 2, 3, 4, 6, 7 and 8 bytes, the canonical 16 bit format and
  little-endian integers of up to 8 bytes: reading what was written gives the number back.
\<close>

theorem mach_fixed_length_round_trip:
  assumes "n < 2 ^ 64"
  shows "mach_read_from_2 (mach_write_to_2 n @ r) = n mod 2 ^ 16 \<and>
    mach_read_from_3 (mach_write_to_3 n @ r) = n mod 2 ^ 24 \<and>
    mach_read_from_4 (mach_write_to_4 n @ r) = n mod 2 ^ 32 \<and>
    (n < 2 ^ 48 \<longrightarrow> mach_read_from_6 (mach_write_to_6 n @ r) = n) \<and>
    (n < 2 ^ 56 \<longrightarrow> mach_read_from_7 (mach_write_to_7 n @ r) = n) \<and>
    mach_read_from_8 (mach_write_to_8 n @ r) = n \<and>
    mach_decode_2 (mach_encode_2 n) = n mod 2 ^ 16 \<and>
    (k \<le> 8 \<and> n < 256 ^ k \<longrightarrow>
       mach_read_from_n_little_endian (mach_write_to_n_little_endian k n @ r) k = n)"
proof -
  have "le_bytes 2 (le_value (mach_write_to_2 n)) = mach_write_to_2 n"
    using le_bytes_le_value [of "mach_write_to_2 n"] by simp
  then have "mach_decode_2 (mach_encode_2 n) = n mod 2 ^ 16"
    using mach_fixed_round_trip(2) [of n "[]"] unfolding mach_decode_2_def mach_encode_2_def append_Nil2 by metis
  then show ?thesis
    using mach_8_round_trip [OF assms] mach_7_round_trip mach_6_round_trip mach_n_le_round_trip by auto
qed

theorem mach_fixed_length_round_trip_witness:
  "mach_read_from_6 (mach_write_to_6 0x123456789A @ [1]) = 0x123456789A \<and> mach_decode_2 (mach_encode_2 0x123456789A) = 0x789A"
  using mach_fixed_length_round_trip [of "0x123456789A" "[1]" 0] by simp

text \<open>
  C26. Signed SQL integers of 1 to 8 bytes: \<open>mach_read_int_type\<close> reads back what
  \<open>mach_write_ulonglong\<close> wrote, as a two's complement number of 64 bits, and the memory order of
  the stored bytes is the order of the numbers, which is what an index relies on.
\<close>

theorem mach_signed_order:
  assumes "1 \<le> len" "len \<le> 8" "- (2 ^ (8 * len - 1)) \<le> x" "x < 2 ^ (8 * len - 1)"
    and "- (2 ^ (8 * len - 1)) \<le> y" "y < (2 :: int) ^ (8 * len - 1)"
  shows "(memcmp (mach_write_ulonglong (nat (x mod 2 ^ 64)) len False) (mach_write_ulonglong (nat (y mod 2 ^ 64)) len False) < 0
      \<longleftrightarrow> x < y) \<and>
    mach_read_int_type (mach_write_ulonglong (nat (x mod 2 ^ 64)) len False @ r) len False = nat (x mod 2 ^ 64)"
proof -
  let ?w = "\<lambda>x. mach_write_ulonglong (nat (x mod 2 ^ 64)) len False"
  have len: "length (?w x) = len" for x
    using assms(1,2) by (simp add: mach_write_ulonglong_def swap_le_bytes Let_def)
  have vx: "int (be_value (?w x)) = x + 2 ^ (8 * len - 1)" and vy: "int (be_value (?w y)) = y + 2 ^ (8 * len - 1)"
    using write_signed_value assms by blast+
  have "memcmp (?w x) (?w y) < 0 \<longleftrightarrow> be_value (?w x) < be_value (?w y)" using memcmp_be_value len by simp
  also have "\<dots> \<longleftrightarrow> x < y" using vx vy by linarith
  finally have "memcmp (?w x) (?w y) < 0 \<longleftrightarrow> x < y" .
  moreover have "int (mach_read_int_type (?w x @ r) len False) = x mod 2 ^ 64"
    using read_signed_value [of len "?w x @ r"] assms(1) len vx by simp
  then have "mach_read_int_type (?w x @ r) len False = nat (x mod 2 ^ 64)" by (metis nat_int)
  ultimately show ?thesis by blast
qed

theorem mach_signed_order_witness:
  "memcmp (mach_write_ulonglong (nat (-5 mod 2 ^ 64)) 2 False) (mach_write_ulonglong (nat (3 mod 2 ^ 64)) 2 False) < 0 \<and>
   mach_read_int_type (mach_write_ulonglong (nat (-5 mod 2 ^ 64)) 2 False @ []) 2 False = nat (-5 mod 2 ^ 64)"
proof -
  have "- (2 ^ (8 * 2 - 1)) \<le> (-5 :: int)" "(-5 :: int) < 2 ^ (8 * 2 - 1)"
    "- (2 ^ (8 * 2 - 1)) \<le> (3 :: int)" "(3 :: int) < 2 ^ (8 * 2 - 1)" by simp_all
  from mach_signed_order [OF _ _ this, of "[]"] show ?thesis by simp
qed

end
