(* ===== verification/Redo_Log.thy ===== *)
theory Redo_Log
  imports Mach_Data
begin

text \<open>
  Writing the redo log of a mini-transaction, \<open>src/storage/innobase/include/mtr0log.h\<close> and
  \<open>mtr0mtr.cc\<close>, and decoding its integers and record headers, \<open>src/storage/innobase/log/log0recv.cc\<close>.
  A page is a list of bytes; the log is the list of the bytes written so far. Latches and the
  memo of a mini-transaction are left out, and its log buffer is a list.
\<close>

unbundle bit_operations_syntax

section \<open>Variable-length integers\<close>

definition MIN_2BYTE :: nat where "MIN_2BYTE = 128"
definition MIN_3BYTE :: nat where "MIN_3BYTE = MIN_2BYTE + 16384"
definition MIN_4BYTE :: nat where "MIN_4BYTE = MIN_3BYTE + 2097152"
definition MIN_5BYTE :: nat where "MIN_5BYTE = MIN_4BYTE + 268435456"

lemmas min_bytes = MIN_2BYTE_def MIN_3BYTE_def MIN_4BYTE_def MIN_5BYTE_def

definition mlog_encode_varint :: "nat \<Rightarrow> byte list" where
  "mlog_encode_varint i =
     (if i < MIN_2BYTE then [byte_of i]
      else if i < MIN_3BYTE then
        let i = i - MIN_2BYTE in [0x80 OR byte_of (drop_bit 8 i), byte_of i]
      else if i < MIN_4BYTE then
        let i = i - MIN_3BYTE in [0xC0 OR byte_of (drop_bit 16 i), byte_of (drop_bit 8 i), byte_of i]
      else if i < MIN_5BYTE then
        let i = i - MIN_4BYTE
        in [0xE0 OR byte_of (drop_bit 24 i), byte_of (drop_bit 16 i), byte_of (drop_bit 8 i), byte_of i]
      else
        let i = i - MIN_5BYTE
        in [0xF0, byte_of (drop_bit 24 i), byte_of (drop_bit 16 i), byte_of (drop_bit 8 i), byte_of i])"

text \<open>The loop of the portable variant; after eight doublings the tested bit is zero.\<close>

primrec leading_ones :: "nat \<Rightarrow> nat \<Rightarrow> nat" where
  "leading_ones 0 f = 0"
| "leading_ones (Suc k) f = (if f AND 0x80 \<noteq> 0 then Suc (leading_ones k (f * 2)) else 0)"

definition mlog_decode_varint_length :: "byte \<Rightarrow> nat" where
  "mlog_decode_varint_length first = 1 + leading_ones 8 (unat first)"

definition MLOG_DECODE_ERROR :: nat where
  "MLOG_DECODE_ERROR = 0xFFFFFFFF"

text \<open>Clearing the tag bits: the masks are the 32 bit complements of 0xC0, 0xE0 and 0xF0.\<close>

definition mlog_decode_varint :: "byte list \<Rightarrow> nat" where
  "mlog_decode_varint log =
     (let i = unat (log ! 0)
      in if i < MIN_2BYTE then i
         else if i < 0xC0 then
           MIN_2BYTE + (push_bit 8 (i AND 0xFFFFFF3F) OR unat (log ! 1))
         else if i < 0xE0 then
           MIN_3BYTE + (push_bit 16 (i AND 0xFFFFFF1F) OR push_bit 8 (unat (log ! 1)) OR unat (log ! 2))
         else if i < 0xF0 then
           MIN_4BYTE + (push_bit 24 (i AND 0xFFFFFF0F) OR push_bit 16 (unat (log ! 1)) OR
                        push_bit 8 (unat (log ! 2)) OR unat (log ! 3))
         else if i = 0xF0 \<and> mach_read_from_4 (drop 1 log) \<le> 0xFFFFFFFF - MIN_5BYTE
         then MIN_5BYTE + mach_read_from_4 (drop 1 log)
         else MLOG_DECODE_ERROR)"

text \<open>The length of the rest of the record, and the log after the length. The arithmetic is 32 bit.\<close>

definition parse_length :: "byte list \<Rightarrow> byte list \<times> nat" where
  "parse_length l =
     (let s = unat (l ! 0 AND 0xF);
          l = drop 1 l
      in if s = 0
         then let s = mlog_decode_varint_length (l ! 0);
                  addlen = mlog_decode_varint l
              in (drop s l, (addlen + 15 + 2 ^ 32 - s) mod 2 ^ 32)
         else (l, s))"

section \<open>The state of a mini-transaction\<close>

record page_id_t =
  space :: nat
  page_no :: nat

text \<open>
  A page of the buffer pool is known by its page identifier, so \<open>m_last\<close> is one. \<open>m_logged\<close> is
  the result of \<open>is_logged\<close>.
\<close>

record mtr_t =
  m_log :: "byte list"
  m_last :: "page_id_t option"
  m_last_offset :: nat
  m_logged :: bool

definition FREE_PAGE :: byte where "FREE_PAGE = 0"
definition INIT_PAGE :: byte where "INIT_PAGE = 0x10"
definition EXTENDED :: byte where "EXTENDED = 0x20"
definition WRITE :: byte where "WRITE = 0x30"
definition MEMSET :: byte where "MEMSET = 0x40"
definition MEMMOVE :: byte where "MEMMOVE = 0x50"
definition OPTION :: byte where "OPTION = 0x70"

lemmas record_types = FREE_PAGE_def INIT_PAGE_def EXTENDED_def WRITE_def MEMSET_def MEMMOVE_def OPTION_def

definition FIL_PAGE_TYPE :: nat where
  "FIL_PAGE_TYPE = 24"

text \<open>The length field of a record of more than 16 bytes.\<close>

definition long_length :: "nat \<Rightarrow> nat \<Rightarrow> nat" where
  "long_length len header =
     (let len = len + header - 15
      in if len \<ge> MIN_3BYTE - 1 then len + 2 else if len \<ge> MIN_2BYTE then len + 1 else len)"

text \<open>
  The header of a record with \<open>len\<close> further bytes: the bytes \<open>log_write\<close> writes. \<open>bpage\<close> says
  whether there is a buffer page, which then is the one of \<open>id\<close>.
\<close>

definition same_page_as :: "page_id_t \<Rightarrow> bool \<Rightarrow> mtr_t \<Rightarrow> bool" where
  "same_page_as idt bpage m \<longleftrightarrow> bpage \<and> m_last m = Some idt"

definition log_write :: "byte \<Rightarrow> page_id_t \<Rightarrow> bool \<Rightarrow> nat \<Rightarrow> nat \<Rightarrow> mtr_t \<Rightarrow> mtr_t" where
  "log_write type idt bpage len offset m =
     (let have_len = (type \<noteq> INIT_PAGE \<and> type \<noteq> FREE_PAGE);
          have_offset = (type = WRITE \<or> type = MEMSET \<or> type = MEMMOVE);
          (max_len, offset) =
            (if \<not> have_len then (1 + 5 + 5 :: nat, offset)
             else if \<not> have_offset then
               (if same_page_as idt bpage m then 1 + 3 else 1 + 3 + 5 + 5, offset)
             else if same_page_as idt bpage m \<and> m_last_offset m \<le> offset
             then (1 + 3 + 3, offset - m_last_offset m)
             else (1 + 3 + 5 + 5 + 3, offset));
          same_page = (if max_len < 1 + 5 + 5 then 0x80 else 0 :: byte);
          ids = (if same_page = 0 then mlog_encode_varint (space idt) @ mlog_encode_varint (page_no idt) else []);
          m = (if same_page = 0 then m\<lparr>m_last := (if bpage then Some idt else None)\<rparr> else m);
          body = (if have_offset then ids @ mlog_encode_varint offset else ids);
          header = 1 + length body;
          record =
            (if (have_offset \<or> 3 \<le> len) \<and> header + len > 16
             then [type OR same_page] @ mlog_encode_varint (long_length len header) @ body
             else [type OR same_page OR byte_of (header + len - 1)] @ body)
      in m\<lparr>m_log := m_log m @ record\<rparr>)"

section \<open>Changing and logging pages\<close>

text \<open>\<open>memcpy\<close> into a page.\<close>

definition put :: "nat \<Rightarrow> byte list \<Rightarrow> byte list \<Rightarrow> byte list" where
  "put offset data page = take offset page @ data @ drop (offset + length data) page"

text \<open>The buffer holds the same bytes whether or not they are allocated with the header.\<close>

definition memcpy_low :: "page_id_t \<Rightarrow> nat \<Rightarrow> byte list \<Rightarrow> mtr_t \<Rightarrow> mtr_t" where
  "memcpy_low idt offset data m =
     (if \<not> m_logged m then m
      else let m = log_write WRITE idt True (length data) offset m
           in m\<lparr>m_log := m_log m @ data, m_last_offset := (offset + length data) mod 2 ^ 16\<rparr>)"

datatype write_type = NORMAL | MAYBE_NOP | FORCED

fun same_prefix :: "byte list \<Rightarrow> byte list \<Rightarrow> nat" where
  "same_prefix (a # as) (b # bs) = (if a = b then Suc (same_prefix as bs) else 0)"
| "same_prefix _ _ = 0"

definition int_bytes :: "nat \<Rightarrow> nat \<Rightarrow> byte list" where
  "int_bytes l val =
     (if l = 1 then [byte_of val] else if l = 2 then mach_write_to_2 val
      else if l = 4 then mach_write_to_4 val else mach_write_to_8 val)"

definition mtr_write ::
  "nat \<Rightarrow> write_type \<Rightarrow> page_id_t \<Rightarrow> nat \<Rightarrow> nat \<Rightarrow> byte list \<times> mtr_t \<Rightarrow> bool \<times> byte list \<times> mtr_t" where
  "mtr_write l w idt ptr val = (\<lambda>(page, m).
     let buf = int_bytes l val;
         p = (if w \<noteq> FORCED \<and> m_logged m then same_prefix (drop ptr page) buf else 0)
     in if w \<noteq> FORCED \<and> m_logged m \<and> p = l then (False, page, m)
        else let page = put ptr buf page
             in (True, page, memcpy_low idt ((ptr + p) mod 2 ^ 16) (take (l - p) (drop (ptr + p) page)) m))"

definition log_memcpy :: "page_id_t \<Rightarrow> nat \<Rightarrow> nat \<Rightarrow> byte list \<times> mtr_t \<Rightarrow> mtr_t" where
  "log_memcpy idt offset len = (\<lambda>(page, m). memcpy_low idt (offset mod 2 ^ 16) (take len (drop offset page)) m)"

definition mtr_memcpy ::
  "write_type \<Rightarrow> page_id_t \<Rightarrow> nat \<Rightarrow> byte list \<Rightarrow> byte list \<times> mtr_t \<Rightarrow> byte list \<times> mtr_t" where
  "mtr_memcpy w idt dest str = (\<lambda>(page, m).
     let p = (if w \<noteq> FORCED \<and> m_logged m then same_prefix (drop dest page) str else 0)
     in if w \<noteq> FORCED \<and> m_logged m \<and> p = length str then (page, m)
        else let page = put (dest + p) (drop p str) page
             in (page, log_memcpy idt (dest + p) (length str - p) (page, m)))"

definition varint_size :: "nat \<Rightarrow> nat" where
  "varint_size n = (if n < MIN_2BYTE then 1 else if n < MIN_3BYTE then 2 else 3)"

definition log_memset :: "page_id_t \<Rightarrow> nat \<Rightarrow> nat \<Rightarrow> byte \<Rightarrow> mtr_t \<Rightarrow> mtr_t" where
  "log_memset idt ofs len val m =
     (if \<not> m_logged m then m
      else let m = log_write MEMSET idt True (varint_size len + 1) ofs m
           in m\<lparr>m_log := m_log m @ mlog_encode_varint len @ [val], m_last_offset := (ofs + len) mod 2 ^ 16\<rparr>)"

definition mtr_memset :: "page_id_t \<Rightarrow> nat \<Rightarrow> nat \<Rightarrow> byte \<Rightarrow> byte list \<times> mtr_t \<Rightarrow> byte list \<times> mtr_t" where
  "mtr_memset idt ofs len val = (\<lambda>(page, m). (put ofs (replicate len val) page, log_memset idt ofs len val m))"

definition log_memset_str :: "page_id_t \<Rightarrow> nat \<Rightarrow> nat \<Rightarrow> byte list \<Rightarrow> mtr_t \<Rightarrow> mtr_t" where
  "log_memset_str idt ofs len str m =
     (if \<not> m_logged m then m
      else let m = log_write MEMSET idt True (varint_size len + length str) ofs m
           in m\<lparr>m_log := m_log m @ mlog_encode_varint len @ str, m_last_offset := (ofs + len) mod 2 ^ 16\<rparr>)"

text \<open>The loop of the variant that changes the page adds the length of the area in each round.\<close>

function memset_str_loop :: "nat \<Rightarrow> nat \<Rightarrow> byte list \<Rightarrow> nat \<Rightarrow> byte list \<Rightarrow> nat \<times> byte list" where
  "memset_str_loop ofs len str s page =
     (if s < len then memset_str_loop ofs len str (s + len) (put (ofs + s) str page) else (s, page))"
  by pat_completeness auto
termination by (relation "measure (\<lambda>(ofs, len, str, s, page). len - s)") auto

definition mtr_memset_str :: "page_id_t \<Rightarrow> nat \<Rightarrow> nat \<Rightarrow> byte list \<Rightarrow> byte list \<times> mtr_t \<Rightarrow> byte list \<times> mtr_t" where
  "mtr_memset_str idt ofs len str = (\<lambda>(page, m).
     case memset_str_loop ofs len str 0 page of
       (s, page) \<Rightarrow> (put (ofs + s) (take (len - s) str) page, log_memset_str idt ofs len str m))"

definition log_memmove :: "page_id_t \<Rightarrow> nat \<Rightarrow> nat \<Rightarrow> nat \<Rightarrow> mtr_t \<Rightarrow> mtr_t" where
  "log_memmove idt d s len m =
     (if \<not> m_logged m then m
      else let s = (if s > d then push_bit 1 (s - d) else push_bit 1 (d - s) OR 1) - push_bit 1 1;
               m = log_write MEMMOVE idt True (varint_size len + varint_size s) d m
           in m\<lparr>m_log := m_log m @ mlog_encode_varint len @ mlog_encode_varint s,
                m_last_offset := (d + len) mod 2 ^ 16\<rparr>)"

text \<open>The callers move the bytes on the page themselves.\<close>

definition page_memmove :: "nat \<Rightarrow> nat \<Rightarrow> nat \<Rightarrow> byte list \<Rightarrow> byte list" where
  "page_memmove d s len page = put d (take len (drop s page)) page"

definition mtr_init :: "page_id_t \<Rightarrow> mtr_t \<Rightarrow> mtr_t" where
  "mtr_init idt m =
     (if \<not> m_logged m then m else (log_write INIT_PAGE idt True 0 0 m)\<lparr>m_last_offset := FIL_PAGE_TYPE\<rparr>)"

definition mtr_free :: "page_id_t \<Rightarrow> mtr_t \<Rightarrow> mtr_t" where
  "mtr_free idt m = (if m_logged m then log_write FREE_PAGE idt False 0 0 m else m)"

definition log_extended :: "page_id_t \<Rightarrow> bool \<Rightarrow> nat \<Rightarrow> byte list \<Rightarrow> mtr_t \<Rightarrow> mtr_t" where
  "log_extended idt bpage len payload m =
     (let m = log_write EXTENDED idt bpage len 0 m in m\<lparr>m_log := m_log m @ payload\<rparr>)"

definition log_write_extended :: "page_id_t \<Rightarrow> byte \<Rightarrow> mtr_t \<Rightarrow> mtr_t" where
  "log_write_extended idt type m =
     (if \<not> m_logged m then m else (log_extended idt True 1 [type] m)\<lparr>m_last_offset := FIL_PAGE_TYPE\<rparr>)"

definition page_create :: "page_id_t \<Rightarrow> bool \<Rightarrow> mtr_t \<Rightarrow> mtr_t" where
  "page_create idt compact m = log_write_extended idt (if compact then 1 else 0) m"

definition page_delete_redundant :: "page_id_t \<Rightarrow> nat \<Rightarrow> mtr_t \<Rightarrow> mtr_t" where
  "page_delete_redundant idt prev_rec m =
     (if \<not> m_logged m then m
      else (log_extended idt True (1 + varint_size prev_rec) ([8] @ mlog_encode_varint prev_rec) m)\<lparr>m_last_offset := FIL_PAGE_TYPE\<rparr>)"

definition page_delete_dynamic :: "page_id_t \<Rightarrow> nat \<Rightarrow> nat \<Rightarrow> nat \<Rightarrow> mtr_t \<Rightarrow> mtr_t" where
  "page_delete_dynamic idt prev_rec hdr_size data_size m =
     (if \<not> m_logged m then m
      else (log_extended idt True
              (1 + varint_size prev_rec + (if hdr_size < MIN_2BYTE then 1 else 2) + varint_size data_size)
              ([9] @ mlog_encode_varint prev_rec @ mlog_encode_varint hdr_size @ mlog_encode_varint data_size) m)
           \<lparr>m_last_offset := FIL_PAGE_TYPE\<rparr>)"

definition undo_create :: "page_id_t \<Rightarrow> mtr_t \<Rightarrow> mtr_t" where
  "undo_create idt m = log_write_extended idt 2 m"

definition undo_append :: "page_id_t \<Rightarrow> byte list \<Rightarrow> mtr_t \<Rightarrow> mtr_t" where
  "undo_append idt data m =
     (if \<not> m_logged m then m else (log_extended idt True (length data + 1) (3 # data) m)\<lparr>m_last_offset := FIL_PAGE_TYPE\<rparr>)"

definition trim_pages :: "page_id_t \<Rightarrow> mtr_t \<Rightarrow> mtr_t" where
  "trim_pages idt m = (if \<not> m_logged m then m else log_extended idt False 1 [10] m)"

declare memset_str_loop.simps [simp del]

section \<open>Decoding what was encoded\<close>

lemma unat_byte_or:
  assumes "(n :: nat) < 2 ^ k" "k \<le> 8" "a * 2 ^ k < 256"
  shows "unat (word_of_nat (a * 2 ^ k) OR byte_of n) = a * 2 ^ k + n"
proof -
  have "n < 256" using assms(1,2) power_increasing [of k 8 "2 :: nat"] by simp
  then have "unat (word_of_nat (a * 2 ^ k) OR byte_of n) = a * 2 ^ k OR n"
    using assms(3) unat_byte_of [of "a * 2 ^ k"] unat_byte_of [of n] by (simp add: unsigned_or_eq del: of_nat_mult of_nat_power)
  also have "\<dots> = a * 2 ^ k + n" using or_high [OF assms(1), of a] by (simp add: or.commute)
  finally show ?thesis .
qed

lemma tag_byte:
  "n < 64 \<Longrightarrow> unat ((0x80 :: byte) OR byte_of n) = 0x80 + n"
  "n < 32 \<Longrightarrow> unat ((0xC0 :: byte) OR byte_of n) = 0xC0 + n"
  "n < 16 \<Longrightarrow> unat ((0xE0 :: byte) OR byte_of n) = 0xE0 + n"
  using unat_byte_or [of n 6 2] unat_byte_or [of n 5 6] unat_byte_or [of n 4 14] by simp_all

text \<open>The five ranges, each with the first byte and the rest as a big-endian number.\<close>

lemma varint_cases:
  assumes "i < 2 ^ 32"
  obtains (one) "i < MIN_2BYTE" "mlog_encode_varint i = [byte_of i]"
  | (two) j where "i = MIN_2BYTE + j" "j < 2 ^ 14" "mlog_encode_varint i = (0x80 OR byte_of (j div 256)) # be_bytes 1 j"
  | (three) j where "i = MIN_3BYTE + j" "j < 2 ^ 21" "mlog_encode_varint i = (0xC0 OR byte_of (j div 65536)) # be_bytes 2 j"
  | (four) j where "i = MIN_4BYTE + j" "j < 2 ^ 28" "mlog_encode_varint i = (0xE0 OR byte_of (j div 16777216)) # be_bytes 3 j"
  | (five) j where "i = MIN_5BYTE + j" "j < 2 ^ 32" "mlog_encode_varint i = 0xF0 # be_bytes 4 j"
proof -
  consider "i < MIN_2BYTE" | "MIN_2BYTE \<le> i" "i < MIN_3BYTE" | "MIN_3BYTE \<le> i" "i < MIN_4BYTE"
    | "MIN_4BYTE \<le> i" "i < MIN_5BYTE" | "MIN_5BYTE \<le> i" by linarith
  then show thesis
  proof cases
    case 1
    then show ?thesis using one by (simp add: mlog_encode_varint_def)
  next
    case 2
    then show ?thesis using two [of "i - MIN_2BYTE"] unfolding mach_write_bytes [symmetric]
      by (simp add: mlog_encode_varint_def mach_write_to_1_def drop_bit_eq_div min_bytes Let_def)
  next
    case 3
    then show ?thesis using three [of "i - MIN_3BYTE"] unfolding mach_write_bytes [symmetric]
      by (simp add: mlog_encode_varint_def mach_write_to_2_def drop_bit_eq_div min_bytes Let_def)
  next
    case 4
    then show ?thesis using four [of "i - MIN_4BYTE"] unfolding mach_write_bytes [symmetric]
      by (simp add: mlog_encode_varint_def mach_write_to_3_def drop_bit_eq_div min_bytes Let_def)
  next
    case 5
    then show ?thesis using five [of "i - MIN_5BYTE"] assms unfolding mach_write_bytes [symmetric]
      by (simp add: mlog_encode_varint_def mach_write_to_4_def drop_bit_eq_div min_bytes Let_def)
  qed
qed

lemma clear_tag:
  assumes q: "(q :: nat) < 2 ^ k" and "a * 2 ^ k AND m = 0" "mask k AND m = mask k"
  shows "(a * 2 ^ k + q) AND m = q"
proof -
  have m: "q AND mask k = q" using q by (simp add: and_mask)
  have "(q AND mask k) AND m = q AND mask k" unfolding and.assoc assms(3) ..
  then have "q AND m = q" unfolding m .
  moreover have "(a * 2 ^ k + q) AND m = (q AND m) OR (a * 2 ^ k AND m)"
    unfolding or_high [OF q, of a, symmetric] by (intro bit_eqI) (auto simp: bit_and_iff bit_or_iff)
  ultimately show ?thesis using assms(2) by simp
qed

lemma clear_tags:
  "q < 64 \<Longrightarrow> (0x80 + q) AND 0xFFFFFF3F = (q :: nat)"
  "q < 32 \<Longrightarrow> (0xC0 + q) AND 0xFFFFFF1F = (q :: nat)"
  "q < 16 \<Longrightarrow> (0xE0 + q) AND 0xFFFFFF0F = (q :: nat)"
  using clear_tag [of q 6 2 "0xFFFFFF3F"] clear_tag [of q 5 6 "0xFFFFFF1F"] clear_tag [of q 4 14 "0xFFFFFF0F"]
  by (simp_all add: mask_eq_exp_minus_1)

lemma nat_and_eq_0: "(x :: nat) AND y = 0 \<longleftrightarrow> (\<forall>n. \<not> (bit x n \<and> bit y n))"
  by (auto simp: bit_eq_iff bit_and_iff)

lemma leading_bit: "(f :: nat) AND 0x80 = 0 \<longleftrightarrow> even (f div 128)"
proof -
  have b: "bit (push_bit 7 (1 :: nat)) n \<longleftrightarrow> n = 7" for n unfolding bit_push_bit_iff bit_1_iff by auto
  have "(0x80 :: nat) = push_bit 7 1" by simp
  moreover have "f AND push_bit 7 1 = 0 \<longleftrightarrow> \<not> bit f 7"
    unfolding nat_and_eq_0 b by auto
  ultimately show ?thesis by (simp add: bit_iff_odd)
qed

lemma leading_ones_step: "leading_ones (Suc k) f = (if even (f div 128) then 0 else Suc (leading_ones k (f * 2)))"
  by (simp add: leading_bit)

lemma doubled: "f * 2 div 128 = f div 64" "f * 2 * 2 div 128 = f div 32" "f * 2 * 2 * 2 div 128 = f div 16"
  "f * 2 * 2 * 2 * 2 div 128 = f div (8 :: nat)"
  using div_mult_mult1 [of 2 f 64] div_mult_mult1 [of 4 f 32] div_mult_mult1 [of 8 f 16] div_mult_mult1 [of 16 f 8]
  by (simp_all add: mult.commute [of f])

lemma leading_ones_ranges:
  "f < 0x80 \<Longrightarrow> leading_ones 8 f = 0"
  "0x80 \<le> f \<Longrightarrow> f < 0xC0 \<Longrightarrow> leading_ones 8 f = 1"
  "0xC0 \<le> f \<Longrightarrow> f < 0xE0 \<Longrightarrow> leading_ones 8 f = 2"
  "0xE0 \<le> f \<Longrightarrow> f < 0xF0 \<Longrightarrow> leading_ones 8 f = 3"
  "leading_ones 8 0xF0 = 4"
proof -
  have eight: "8 = Suc (Suc (Suc (Suc (Suc 3))))" by simp
  note steps = eight leading_ones_step doubled
  show "leading_ones 8 f = 0" if "f < 0x80" using that unfolding steps by simp
  show "leading_ones 8 f = 1" if "0x80 \<le> f" "f < 0xC0"
  proof -
    have "f div 128 = 1" "f div 64 = 2" using that by (simp_all add: div_nat_eqI)
    then show ?thesis unfolding steps by simp
  qed
  show "leading_ones 8 f = 2" if "0xC0 \<le> f" "f < 0xE0"
  proof -
    have "f div 128 = 1" "f div 64 = 3" "f div 32 = 6" using that by (simp_all add: div_nat_eqI)
    then show ?thesis unfolding steps by simp
  qed
  show "leading_ones 8 f = 3" if "0xE0 \<le> f" "f < 0xF0"
  proof -
    have "f div 128 = 1" "f div 64 = 3" "f div 32 = 7" "f div 16 = 14" using that by (simp_all add: div_nat_eqI)
    then show ?thesis unfolding steps by simp
  qed
  show "leading_ones 8 0xF0 = 4" unfolding steps by simp
qed

text \<open>Shifted bytes below a shifted number.\<close>

lemma join_bytes:
  "push_bit 8 a OR unat b = a * 256 + be_value [b]"
  "push_bit 16 a OR push_bit 8 (unat b) OR unat c = a * 65536 + be_value [b, c]"
  "push_bit 24 a OR push_bit 16 (unat b) OR push_bit 8 (unat c) OR unat d = a * 16777216 + be_value [b, c, d]"
proof -
  have 1: "push_bit 8 x OR unat y = x * 256 + unat y" for x and y :: byte
    using push_or [of "unat y" 8 x] unat_byte_less [of y] by simp
  have l: "unat x * 256 + unat y < 2 ^ 16" for x y :: byte using unat_byte_less [of x] unat_byte_less [of y] by simp
  have 2: "push_bit 16 x OR (unat y * 256 + unat z) = x * 65536 + (unat y * 256 + unat z)" for x and y z :: byte
    using push_or [OF l, of x y z] by simp
  have "unat b * 65536 + (unat c * 256 + unat d) < 2 ^ 24" using l [of c d] unat_byte_less [of b] by simp
  from push_or [OF this, of a] have 3: "push_bit 24 a OR (unat b * 65536 + (unat c * 256 + unat d)) =
    a * 16777216 + (unat b * 65536 + (unat c * 256 + unat d))" by simp
  show "push_bit 8 a OR unat b = a * 256 + be_value [b]" by (simp add: 1 be_value_Cons)
  show "push_bit 16 a OR push_bit 8 (unat b) OR unat c = a * 65536 + be_value [b, c]"
    by (simp add: 1 2 be_value_Cons)
  show "push_bit 24 a OR push_bit 16 (unat b) OR push_bit 8 (unat c) OR unat d = a * 16777216 + be_value [b, c, d]"
    by (simp add: 1 2 3 be_value_Cons)
qed

lemma length_Suc_nth: "length xs = 2 \<Longrightarrow> xs = [xs ! 0, xs ! 1]" "length xs = 3 \<Longrightarrow> xs = [xs ! 0, xs ! 1, xs ! 2]"
  by (auto intro!: nth_equalityI simp: less_Suc_eq numeral_eq_Suc)

lemma varint_round_trip:
  assumes "i < 2 ^ 32"
  shows "mlog_decode_varint (mlog_encode_varint i @ r) = i"
    and "mlog_decode_varint_length ((mlog_encode_varint i @ r) ! 0) = length (mlog_encode_varint i)"
proof -
  have "mlog_decode_varint (mlog_encode_varint i @ r) = i \<and>
    mlog_decode_varint_length ((mlog_encode_varint i @ r) ! 0) = length (mlog_encode_varint i)"
    using assms
  proof (cases rule: varint_cases)
    case one
    then show ?thesis
      by (simp add: mlog_decode_varint_def mlog_decode_varint_length_def unat_byte_of min_bytes leading_ones_ranges)
  next
    case (two j)
    have q: "j div 256 < 64" using two(2) by (simp add: less_mult_imp_div_less)
    have f: "unat (0x80 OR byte_of (j div 256)) = 0x80 + j div 256" by (rule tag_byte(1) [OF q])
    have "be_bytes 1 j = [byte_of j]" by (simp add: be_bytes_def)
    then show ?thesis
      unfolding two(3) mlog_decode_varint_def mlog_decode_varint_length_def Let_def append_Cons nth_Cons_0 f
      using q two(1) clear_tags(1) [OF q] join_bytes(1) [of "j div 256" "byte_of j"]
      by (simp add: min_bytes leading_ones_ranges be_value_Cons unat_byte_of)
  next
    case (three j)
    have q: "j div 65536 < 32" using three(2) by (simp add: less_mult_imp_div_less)
    have f: "unat (0xC0 OR byte_of (j div 65536)) = 0xC0 + j div 65536" by (rule tag_byte(2) [OF q])
    let ?b = "be_bytes 2 j"
    have b: "?b = [?b ! 0, ?b ! 1]" by (rule length_Suc_nth) simp
    have v: "be_value [?b ! 0, ?b ! 1] = j mod 65536" using be_value_be_bytes [of 2 j] b by simp
    then show ?thesis
      unfolding three(3) mlog_decode_varint_def mlog_decode_varint_length_def Let_def append_Cons nth_Cons_0 f
      using q three(1) clear_tags(2) [OF q] join_bytes(2) [of "j div 65536" "?b ! 0" "?b ! 1"]
      by (simp add: min_bytes leading_ones_ranges nth_append)
  next
    case (four j)
    have q: "j div 16777216 < 16" using four(2) by (simp add: less_mult_imp_div_less)
    have f: "unat (0xE0 OR byte_of (j div 16777216)) = 0xE0 + j div 16777216" by (rule tag_byte(3) [OF q])
    let ?b = "be_bytes 3 j"
    have b: "?b = [?b ! 0, ?b ! 1, ?b ! 2]" by (rule length_Suc_nth) simp
    have v: "be_value [?b ! 0, ?b ! 1, ?b ! 2] = j mod 16777216" using be_value_be_bytes [of 3 j] b by simp
    then show ?thesis
      unfolding four(3) mlog_decode_varint_def mlog_decode_varint_length_def Let_def append_Cons nth_Cons_0 f
      using q four(1) clear_tags(3) [OF q] join_bytes(3) [of "j div 16777216" "?b ! 0" "?b ! 1" "?b ! 2"]
      by (simp add: min_bytes leading_ones_ranges nth_append)
  next
    case (five j)
    have "mach_read_from_4 (be_bytes 4 j @ r) = j"
      using mach_fixed_round_trip(4) [of j r] five(2) by (simp add: mach_write_bytes)
    then show ?thesis
      unfolding five(3) using five(1) assms
      by (simp add: mlog_decode_varint_def mlog_decode_varint_length_def min_bytes leading_ones_ranges)
  qed
  then show "mlog_decode_varint (mlog_encode_varint i @ r) = i"
    "mlog_decode_varint_length ((mlog_encode_varint i @ r) ! 0) = length (mlog_encode_varint i)" by auto
qed

lemma length_varint:
  "i < MIN_4BYTE \<Longrightarrow> length (mlog_encode_varint i) = varint_size i"
  "length (mlog_encode_varint i) \<le> 5" "1 \<le> length (mlog_encode_varint i)"
  by (auto simp: mlog_encode_varint_def varint_size_def Let_def)

lemma varint_drop [simp]: "drop (length (mlog_encode_varint i)) (mlog_encode_varint i @ r) = r"
  by simp

section \<open>Record headers\<close>

definition log_types :: "byte set" where
  "log_types = {FREE_PAGE, INIT_PAGE, EXTENDED, WRITE, MEMSET, MEMMOVE, OPTION}"

lemma nibble:
  assumes "k < 16"
  shows "byte_of k AND 0xF = byte_of k" "byte_of k AND 0x70 = 0" "byte_of k AND 0x80 = 0"
proof -
  show low: "byte_of k AND 0xF = byte_of k"
  proof (rule word_unat_eq_iff [THEN iffD2])
    have "unat (byte_of k AND 0xF) = k AND 15" using assms by (simp add: unsigned_and_eq unat_byte_of)
    also have "\<dots> = k" using assms and_mask [of k 4] by (simp add: mask_eq_exp_minus_1)
    finally show "unat (byte_of k AND 0xF) = unat (byte_of k)" using assms by (simp add: unat_byte_of)
  qed
  have high: "byte_of k AND x = 0" if "(0xF :: byte) AND x = 0" for x
    using low that by (metis and.assoc and_zero_eq)
  show "byte_of k AND 0x70 = 0" "byte_of k AND 0x80 = 0" by (simp_all add: high)
qed

lemma first_byte_parts:
  assumes "t \<in> log_types" "same = 0 \<or> same = 0x80" "k < 16"
  shows "(t OR same OR byte_of k) AND 0xF = byte_of k" "(t OR same OR byte_of k) AND 0x70 = t"
    "(t OR same OR byte_of k) AND 0x80 = same"
  using assms nibble [OF assms(3)]
  by (auto simp: word_ao_dist log_types_def record_types)

text \<open>The parts of a header: its page and its position are known from the state of the writer.\<close>

definition rel_page :: "byte \<Rightarrow> page_id_t \<Rightarrow> bool \<Rightarrow> nat \<Rightarrow> mtr_t \<Rightarrow> bool" where
  "rel_page type idt bpage offset m \<longleftrightarrow>
     type \<noteq> INIT_PAGE \<and> type \<noteq> FREE_PAGE \<and> same_page_as idt bpage m \<and>
     (type \<in> {WRITE, MEMSET, MEMMOVE} \<longrightarrow> m_last_offset m \<le> offset)"

definition id_bytes :: "page_id_t \<Rightarrow> byte list" where
  "id_bytes idt = mlog_encode_varint (space idt) @ mlog_encode_varint (page_no idt)"

definition header_body :: "byte \<Rightarrow> page_id_t \<Rightarrow> bool \<Rightarrow> nat \<Rightarrow> mtr_t \<Rightarrow> byte list" where
  "header_body type idt bpage offset m =
     (if rel_page type idt bpage offset m then [] else id_bytes idt) @
     (if type \<in> {WRITE, MEMSET, MEMMOVE}
      then mlog_encode_varint (if rel_page type idt bpage offset m then offset - m_last_offset m else offset) else [])"

definition header_bytes :: "byte \<Rightarrow> page_id_t \<Rightarrow> bool \<Rightarrow> nat \<Rightarrow> nat \<Rightarrow> mtr_t \<Rightarrow> byte list" where
  "header_bytes type idt bpage len offset m =
     (let same = (if rel_page type idt bpage offset m then 0x80 else 0);
          body = header_body type idt bpage offset m;
          header = 1 + length body
      in if (type \<in> {WRITE, MEMSET, MEMMOVE} \<or> 3 \<le> len) \<and> header + len > 16
         then (type OR same) # mlog_encode_varint (long_length len header) @ body
         else (type OR same OR byte_of (header + len - 1)) # body)"

lemma record_types_distinct:
  "INIT_PAGE \<notin> {WRITE, MEMSET, MEMMOVE}" "FREE_PAGE \<notin> {WRITE, MEMSET, MEMMOVE}"
  by (simp_all add: record_types)

lemma log_write_eq:
  "log_write type idt bpage len offset m =
     m\<lparr>m_log := m_log m @ header_bytes type idt bpage len offset m,
       m_last := (if rel_page type idt bpage offset m then m_last m else if bpage then Some idt else None)\<rparr>"
proof -
  consider (nolen) "type = INIT_PAGE \<or> type = FREE_PAGE"
    | (nooffset) "type \<noteq> INIT_PAGE" "type \<noteq> FREE_PAGE" "type \<notin> {WRITE, MEMSET, MEMMOVE}"
    | (offset) "type \<in> {WRITE, MEMSET, MEMMOVE}" "type \<noteq> INIT_PAGE" "type \<noteq> FREE_PAGE"
    using record_types_distinct by blast
  then show ?thesis
  proof cases
    case nolen
    then have "type \<notin> {WRITE, MEMSET, MEMMOVE}" "\<not> rel_page type idt bpage offset m"
      using record_types_distinct by (auto simp: rel_page_def)
    with nolen show ?thesis by (auto simp: log_write_def header_bytes_def header_body_def id_bytes_def Let_def)
  next
    case nooffset
    then have "rel_page type idt bpage offset m = same_page_as idt bpage m" by (simp add: rel_page_def)
    with nooffset show ?thesis
      by (cases "same_page_as idt bpage m") (simp_all add: log_write_def header_bytes_def header_body_def id_bytes_def Let_def)
  next
    case offset
    then have "rel_page type idt bpage offset m = (same_page_as idt bpage m \<and> m_last_offset m \<le> offset)"
      by (auto simp: rel_page_def)
    with offset show ?thesis
      by (cases "same_page_as idt bpage m \<and> m_last_offset m \<le> offset")
        (auto simp: log_write_def header_bytes_def header_body_def id_bytes_def Let_def)
  qed
qed

lemma header_body_length:
  "length (header_body type idt bpage offset m) \<le> 15"
  "type \<notin> {WRITE, MEMSET, MEMMOVE} \<Longrightarrow> length (header_body type idt bpage offset m) \<le> 10"
proof -
  let ?o = "mlog_encode_varint (if rel_page type idt bpage offset m then offset - m_last_offset m else offset)"
  have i: "length (id_bytes idt) \<le> 10" using length_varint(2) [of "space idt"] length_varint(2) [of "page_no idt"]
    by (simp add: id_bytes_def)
  have "length ?o \<le> 5" by (rule length_varint)
  then have o: "length (if P then ?o else []) \<le> 5" for P by simp
  have "length (if P then [] else id_bytes idt) \<le> 10" for P using i by simp
  from add_le_mono [OF this o] show "length (header_body type idt bpage offset m) \<le> 15"
    unfolding header_body_def length_append by simp
  show "type \<notin> {WRITE, MEMSET, MEMMOVE} \<Longrightarrow> length (header_body type idt bpage offset m) \<le> 10"
    using i by (simp add: header_body_def)
qed

lemma header_bytes_length: "length (header_bytes type idt bpage len offset m) \<le> 21"
  using header_body_length(1) [of type idt bpage offset m]
    length_varint(2) [of "long_length len (1 + length (header_body type idt bpage offset m))"]
  by (simp add: header_bytes_def Let_def)

lemma long_length_ok:
  assumes "header + len > 16" "len + header < 2 ^ 20"
  shows "long_length len header < MIN_4BYTE"
    and "long_length len header = len + header - 16 + length (mlog_encode_varint (long_length len header))"
proof -
  show lt: "long_length len header < MIN_4BYTE"
    using assms by (auto simp: long_length_def min_bytes Let_def)
  show "long_length len header = len + header - 16 + length (mlog_encode_varint (long_length len header))"
    unfolding length_varint(1) [OF lt]
    using assms(1) by (auto simp: long_length_def varint_size_def min_bytes Let_def)
qed

lemma parse_short:
  assumes "b AND 0xF = byte_of k" "0 < k" "k < 16"
  shows "parse_length (b # r) = (r, k)"
  using assms by (simp add: parse_length_def unat_byte_of)

lemma low_nibble_nonzero:
  assumes "b AND 0xF = byte_of k" "0 < k" "k < 16"
  shows "b \<noteq> 0"
proof
  assume "b = 0"
  then have "unat (byte_of k) = 0" using assms(1) by (metis and_zero_eq and.commute unsigned_0)
  then show False using assms(2,3) by (simp add: unat_byte_of)
qed

lemma parse_long:
  assumes "b AND 0xF = 0" "n < MIN_4BYTE"
  shows "parse_length (b # mlog_encode_varint n @ r) = (r, n + 15 - length (mlog_encode_varint n))"
proof -
  have n: "n < 2 ^ 32" using assms(2) by (simp add: min_bytes)
  let ?l = "length (mlog_encode_varint n)"
  have "?l \<le> 5" by (rule length_varint)
  then have "n + 15 + 2 ^ 32 - ?l = n + 15 - ?l + 2 ^ 32" by linarith
  moreover have "n + 15 - ?l < 2 ^ 32" using assms(2) by (simp add: min_bytes)
  ultimately have "(n + 15 + 2 ^ 32 - ?l) mod 2 ^ 32 = n + 15 - ?l" by (simp only: mod_add_self2 mod_less)
  then show ?thesis
    using assms(1) varint_round_trip [OF n, of r] unfolding parse_length_def by simp
qed

lemma header_form:
  assumes t: "type \<in> log_types" and len: "len < 2 ^ 18" "0 < len \<or> header_body type idt bpage offset m \<noteq> []"
    and none: "type = INIT_PAGE \<or> type = FREE_PAGE \<Longrightarrow> len = 0"
  defines "body \<equiv> header_body type idt bpage offset m" and "h \<equiv> header_bytes type idt bpage len offset m"
  defines "same \<equiv> if rel_page type idt bpage offset m then 0x80 else 0 :: byte"
  obtains (long) n b where "h = b # mlog_encode_varint n @ body" "b AND 0xF = 0" "b \<noteq> 0" "n < MIN_4BYTE"
      "n + 15 - length (mlog_encode_varint n) = length body + len" "b AND 0x70 = type" "b AND 0x80 = same"
    | (short) b where "h = b # body" "b AND 0xF = byte_of (length body + len)" "0 < length body + len" "length body + len < 16"
      "b \<noteq> 0" "b AND 0x70 = type" "b AND 0x80 = same"
proof -
  let ?long = "(type \<in> {WRITE, MEMSET, MEMMOVE} \<or> 3 \<le> len) \<and> 1 + length body + len > 16"
  note bl = header_body_length [of type idt bpage offset m, folded body_def]
  have sm: "same = 0 \<or> same = 0x80" by (simp add: same_def)
  show ?thesis
  proof (cases ?long)
    case True
    have fb: "(type OR same) AND 0xF = 0" "(type OR same) AND 0x70 = type" "(type OR same) AND 0x80 = same"
      using first_byte_parts [OF t sm, of 0] by simp_all
    have "type \<noteq> INIT_PAGE" "type \<noteq> FREE_PAGE" using True none record_types_distinct by auto
    then have nz: "type OR same \<noteq> 0" using fb(2) by (auto simp: FREE_PAGE_def)
    have ll: "len + (1 + length body) < 2 ^ 20" using len bl by simp
    note lo = long_length_ok [OF conjunct2 [OF True] ll]
    define n where "n = long_length len (1 + length body)"
    have "h = (type OR same) # mlog_encode_varint n @ body"
      using True unfolding h_def header_bytes_def Let_def same_def [symmetric] body_def [symmetric] n_def
      by (simp only: if_True simp_thms)
    moreover have "n + 15 - length (mlog_encode_varint n) = length body + len"
      using lo(2) True unfolding n_def by linarith
    ultimately show ?thesis using long fb nz lo(1) [folded n_def] by blast
  next
    case False
    let ?k = "length body + len"
    have "?k < 16"
    proof (cases "type \<in> {WRITE, MEMSET, MEMMOVE} \<or> 3 \<le> len")
      case True
      then show ?thesis using False by linarith
    next
      case False
      then show ?thesis using bl(2) by auto
    qed
    moreover have "0 < ?k" using len(2) by (auto simp: body_def)
    ultimately have k: "0 < ?k" "?k < 16" by auto
    note fb = first_byte_parts [OF t sm k(2)]
    have "1 + length body + len - 1 = ?k" by simp
    then have "h = (type OR same OR byte_of ?k) # body"
      unfolding h_def header_bytes_def Let_def same_def [symmetric] body_def [symmetric] using False by (simp only: if_False)
    moreover have "type OR same OR byte_of ?k \<noteq> 0" by (rule low_nibble_nonzero [OF fb(1) k])
    ultimately show ?thesis using short fb k by blast
  qed
qed

lemma header_parse:
  assumes t: "type \<in> log_types" and len: "len < 2 ^ 18" "0 < len \<or> header_body type idt bpage offset m \<noteq> []"
    and none: "type = INIT_PAGE \<or> type = FREE_PAGE \<Longrightarrow> len = 0"
  shows "parse_length (header_bytes type idt bpage len offset m @ r) =
      (header_body type idt bpage offset m @ r, length (header_body type idt bpage offset m) + len)"
    and "header_bytes type idt bpage len offset m ! 0 AND 0x70 = type"
    and "header_bytes type idt bpage len offset m ! 0 AND 0x80 = (if rel_page type idt bpage offset m then 0x80 else 0)"
    and "header_bytes type idt bpage len offset m ! 0 \<noteq> 0"
proof -
  let ?body = "header_body type idt bpage offset m" and ?bytes = "header_bytes type idt bpage len offset m"
  let ?same = "if rel_page type idt bpage offset m then 0x80 else 0 :: byte"
  have *: "parse_length (?bytes @ r) = (?body @ r, length ?body + len) \<and> ?bytes ! 0 AND 0x70 = type \<and>
    ?bytes ! 0 AND 0x80 = ?same \<and> ?bytes ! 0 \<noteq> 0"
  proof (cases rule: header_form [OF t len none, case_names none long short])
    case none
    then show ?case by assumption
  next
    case (long n b)
    then show ?thesis using parse_long [OF long(2,4), of "?body @ r"] by (simp split del: if_split)
  next
    case (short b)
    then show ?thesis using parse_short [OF short(2-4)] by (simp split del: if_split)
  qed
  then show "parse_length (?bytes @ r) = (?body @ r, length ?body + len)" "?bytes ! 0 AND 0x70 = type"
    "?bytes ! 0 AND 0x80 = ?same" "?bytes ! 0 \<noteq> 0" by auto
qed

end
