(* ===== verification/Redo_Pages.thy ===== *)
theory Redo_Pages
  imports Redo_Log
begin

text \<open>
  The changes of whole pages that are logged by their name only, and run again at recovery:
  \<open>fsp_apply_init_file_page\<close> (\<open>src/storage/innobase/fsp/fsp0fsp.cc\<close>), \<open>page_create_low\<close>
  (\<open>src/storage/innobase/page/page0page.cc\<close>), \<open>trx_undo_page_init\<close>
  (\<open>src/storage/innobase/trx/trx0undo.cc\<close>), and the two ends of appending an undo log record,
  \<open>trx_undo_page_set_next_prev_and_add\<close> (\<open>src/storage/innobase/trx/trx0rec.cc\<close>) and
  \<open>log_phys_t::undo_append\<close> (\<open>src/storage/innobase/log/log0recv.cc\<close>).
\<close>

unbundle bit_operations_syntax

section \<open>Layout of pages\<close>

abbreviation (input) FIL_PAGE_DATA :: nat where "FIL_PAGE_DATA \<equiv> 38"
abbreviation (input) FIL_PAGE_DATA_END :: nat where "FIL_PAGE_DATA_END \<equiv> 8"
abbreviation (input) FIL_PAGE_INDEX :: nat where "FIL_PAGE_INDEX \<equiv> 17855"
abbreviation (input) FIL_PAGE_UNDO_LOG :: nat where "FIL_PAGE_UNDO_LOG \<equiv> 2"
abbreviation (input) PAGE_HEADER :: nat where "PAGE_HEADER \<equiv> 38"
abbreviation (input) PAGE_DATA :: nat where "PAGE_DATA \<equiv> 94"
abbreviation (input) PAGE_OLD_INFIMUM :: nat where "PAGE_OLD_INFIMUM \<equiv> 101"
abbreviation (input) PAGE_OLD_SUPREMUM :: nat where "PAGE_OLD_SUPREMUM \<equiv> 116"
abbreviation (input) PAGE_OLD_SUPREMUM_END :: nat where "PAGE_OLD_SUPREMUM_END \<equiv> 125"
abbreviation (input) PAGE_NEW_INFIMUM :: nat where "PAGE_NEW_INFIMUM \<equiv> 99"
abbreviation (input) PAGE_NEW_SUPREMUM :: nat where "PAGE_NEW_SUPREMUM \<equiv> 112"
abbreviation (input) PAGE_NEW_SUPREMUM_END :: nat where "PAGE_NEW_SUPREMUM_END \<equiv> 120"
abbreviation (input) TRX_UNDO_PAGE_HDR :: nat where "TRX_UNDO_PAGE_HDR \<equiv> 38"
abbreviation (input) TRX_UNDO_PAGE_FREE :: nat where "TRX_UNDO_PAGE_FREE \<equiv> 4"
abbreviation (input) TRX_UNDO_PAGE_HDR_SIZE :: nat where "TRX_UNDO_PAGE_HDR_SIZE \<equiv> 18"
abbreviation (input) TRX_UNDO_SEG_HDR :: nat where "TRX_UNDO_SEG_HDR \<equiv> 56"
abbreviation (input) TRX_UNDO_SEG_HDR_SIZE :: nat where "TRX_UNDO_SEG_HDR_SIZE \<equiv> 30"

section \<open>Creating pages\<close>

definition fsp_apply_init_file_page :: "page_id_t \<Rightarrow> byte list \<Rightarrow> byte list" where
  "fsp_apply_init_file_page idt page =
     (let page = replicate (length page) 0;
          page = put 4 (mach_write_to_4 (page_no idt)) page;
          page = put 8 (replicate 8 0xFF) page
      in put 34 (mach_write_to_4 (space idt)) page)"

definition fsp_init_file_page :: "page_id_t \<Rightarrow> byte list \<times> mtr_t \<Rightarrow> byte list \<times> mtr_t" where
  "fsp_init_file_page idt = (\<lambda>(page, m). (fsp_apply_init_file_page idt page, mtr_init idt m))"

definition infimum_supremum_redundant :: "byte list" where
  "infimum_supremum_redundant =
     [0x08, 0x01, 0x00, 0x00, 0x03, 0x00, 0x74, 0x69, 0x6E, 0x66, 0x69, 0x6D, 0x75, 0x6D, 0,
      0x09, 0x01, 0x00, 0x08, 0x03, 0x00, 0x00, 0x73, 0x75, 0x70, 0x72, 0x65, 0x6D, 0x75, 0x6D, 0]"

definition infimum_supremum_compact :: "byte list" where
  "infimum_supremum_compact =
     [0x01, 0x00, 0x02, 0x00, 0x0D, 0x69, 0x6E, 0x66, 0x69, 0x6D, 0x75, 0x6D, 0,
      0x01, 0x00, 0x0B, 0x00, 0x00, 0x73, 0x75, 0x70, 0x72, 0x65, 0x6D, 0x75, 0x6D]"

definition page_create_low :: "bool \<Rightarrow> byte list \<Rightarrow> byte list" where
  "page_create_low compact page =
     (let srv_page_size = length page;
          page = put 24 (mach_write_to_2 FIL_PAGE_INDEX) page;
          page = put PAGE_HEADER (replicate 26 0) page;
          page = page[PAGE_HEADER + 0 + 1 := 2];
          page = page[PAGE_HEADER + 12 := 0];
          page = page[PAGE_HEADER + 13 := 5]
      in if compact then
           let page = page[PAGE_HEADER + 4 := 0x80];
               page = page[PAGE_HEADER + 4 + 1 := 2];
               page = page[PAGE_HEADER + 2 + 1 := byte_of PAGE_NEW_SUPREMUM_END];
               page = put PAGE_DATA infimum_supremum_compact page;
               page = put PAGE_NEW_SUPREMUM_END (replicate (srv_page_size - 8 - PAGE_NEW_SUPREMUM_END) 0) page;
               page = page[srv_page_size - 8 - 2 * 2 + 1 := byte_of PAGE_NEW_SUPREMUM]
           in page[srv_page_size - 8 - 2 + 1 := byte_of PAGE_NEW_INFIMUM]
         else
           let page = page[PAGE_HEADER + 4 + 1 := 2];
               page = page[PAGE_HEADER + 2 + 1 := byte_of PAGE_OLD_SUPREMUM_END];
               page = put PAGE_DATA infimum_supremum_redundant page;
               page = put PAGE_OLD_SUPREMUM_END (replicate (srv_page_size - 8 - PAGE_OLD_SUPREMUM_END) 0) page;
               page = page[srv_page_size - 8 - 2 * 2 + 1 := byte_of PAGE_OLD_SUPREMUM]
           in page[srv_page_size - 8 - 2 + 1 := byte_of PAGE_OLD_INFIMUM])"

definition page_create_logged :: "page_id_t \<Rightarrow> bool \<Rightarrow> byte list \<times> mtr_t \<Rightarrow> byte list \<times> mtr_t" where
  "page_create_logged idt compact = (\<lambda>(page, m). (page_create_low compact page, page_create idt compact m))"

section \<open>Undo log pages\<close>

definition trx_undo_page_init :: "byte list \<Rightarrow> byte list" where
  "trx_undo_page_init page =
     (let srv_page_size = length page;
          page = put 24 (mach_write_to_2 FIL_PAGE_UNDO_LOG) page;
          page = put (TRX_UNDO_PAGE_HDR + 0) (replicate 2 0) page;
          page = put (TRX_UNDO_PAGE_HDR + 2) (mach_write_to_2 (TRX_UNDO_PAGE_HDR + TRX_UNDO_PAGE_HDR_SIZE)) page;
          page = put (TRX_UNDO_PAGE_HDR + TRX_UNDO_PAGE_FREE) (take 2 (drop (TRX_UNDO_PAGE_HDR + 2) page)) page;
          page = put (TRX_UNDO_PAGE_HDR + 6 + 0 + 0) (replicate 4 0xFF) page;
          page = put (TRX_UNDO_PAGE_HDR + 6 + 0 + 4) (replicate 2 0) page;
          page = put (TRX_UNDO_PAGE_HDR + 6 + 6 + 0) (replicate 4 0xFF) page;
          page = put (TRX_UNDO_PAGE_HDR + 6 + 6 + 4) (replicate 2 0) page
      in put (TRX_UNDO_SEG_HDR + TRX_UNDO_SEG_HDR_SIZE)
           (replicate (srv_page_size - (TRX_UNDO_SEG_HDR + TRX_UNDO_SEG_HDR_SIZE + FIL_PAGE_DATA_END)) 0) page)"

definition undo_page_create :: "page_id_t \<Rightarrow> byte list \<times> mtr_t \<Rightarrow> byte list \<times> mtr_t" where
  "undo_page_create idt = (\<lambda>(page, m). (trx_undo_page_init page, undo_create idt m))"

definition trx_undo_left :: "nat \<Rightarrow> nat \<Rightarrow> nat" where
  "trx_undo_left srv_page_size ptr = srv_page_size - ptr - (10 + FIL_PAGE_DATA_END)"

definition undo_page_free :: "byte list \<Rightarrow> nat" where
  "undo_page_free page = mach_read_from_2 (drop (TRX_UNDO_PAGE_HDR + TRX_UNDO_PAGE_FREE) page)"

definition trx_undo_page_set_next_prev_and_add ::
  "page_id_t \<Rightarrow> nat \<Rightarrow> byte list \<times> mtr_t \<Rightarrow> nat \<times> byte list \<times> mtr_t" where
  "trx_undo_page_set_next_prev_and_add idt ptr = (\<lambda>(page, m).
     if trx_undo_left (length page) ptr < 2 then (0, page, m)
     else let free_p = TRX_UNDO_PAGE_HDR + TRX_UNDO_PAGE_FREE;
              first_free = undo_page_free page;
              page = put ptr (take 2 (drop free_p page)) page;
              ptr = ptr + 2;
              page = put free_p (mach_write_to_2 (ptr mod 2 ^ 16)) page;
              page = put first_free (take 2 (drop free_p page)) page;
              start = first_free + 2
          in (first_free, page, undo_append idt (take (ptr - start - 2) (drop start page)) m))"

text \<open>The undo record is written behind the place of its next pointer before that function is called.\<close>

definition undo_page_add :: "page_id_t \<Rightarrow> byte list \<Rightarrow> byte list \<times> mtr_t \<Rightarrow> byte list \<times> mtr_t" where
  "undo_page_add idt data = (\<lambda>(page, m).
     let start = undo_page_free page + 2
     in snd (trx_undo_page_set_next_prev_and_add idt (start + length data) (put start data page, m)))"

text \<open>At recovery: whether the page is inconsistent, and the page.\<close>

definition log_phys_undo_append :: "byte list \<Rightarrow> byte list \<Rightarrow> bool \<times> byte list" where
  "log_phys_undo_append data page =
     (let free_p = TRX_UNDO_PAGE_HDR + TRX_UNDO_PAGE_FREE;
          free = undo_page_free page;
          len = length data
      in if free < TRX_UNDO_PAGE_HDR + TRX_UNDO_PAGE_HDR_SIZE \<or> free + len + 6 \<ge> length page - FIL_PAGE_DATA_END
         then (True, page)
         else let page = put free_p (mach_write_to_2 (free + 4 + len)) page;
                  page = put free (take 2 (drop free_p page)) page;
                  page = put (free + 2) data page
              in (False, put (free + 2 + len) (mach_write_to_2 free) page))"

section \<open>Areas of a page\<close>

lemma length_put [simp]: "offset + length data \<le> length page \<Longrightarrow> length (put offset data page) = length page"
  by (simp add: put_def)

lemma nth_put:
  "offset + length data \<le> length page \<Longrightarrow> i < length page \<Longrightarrow>
   put offset data page ! i = (if offset \<le> i \<and> i < offset + length data then data ! (i - offset) else page ! i)"
  by (auto simp: put_def nth_append)

lemma put_adjacent: "offset \<le> length page \<Longrightarrow> put (offset + length a) b (put offset a page) = put offset (a @ b) page"
  by (simp add: put_def ac_simps)

lemma drop_put: "offset \<le> length page \<Longrightarrow> take (length data) (drop offset (put offset data page)) = data"
  by (simp add: put_def)

lemma put_commute:
  assumes "a + length x \<le> length page" "b + length y \<le> length page" "a + length x \<le> b \<or> b + length y \<le> a"
  shows "put a x (put b y page) = put b y (put a x page)"
  by (rule nth_equalityI) (use assms in \<open>auto simp: nth_put\<close>)

lemma area_put:
  assumes "a + n \<le> length page" "b + length y \<le> length page" "a + n \<le> b \<or> b + length y \<le> a"
  shows "take n (drop a (put b y page)) = take n (drop a page)"
  by (rule nth_equalityI) (use assms in \<open>auto simp: nth_put\<close>)

lemma length_mach_write_2 [simp]: "length (mach_write_to_2 n) = 2"
  by (simp add: mach_write_to_2_def)

lemma mach_write_read_2: "2 \<le> length b \<Longrightarrow> mach_write_to_2 (mach_read_from_2 b) = take 2 b"
  using le_bytes_le_value [of "rev (take 2 b)"]
  by (simp add: mach_read_2 mach_write_bytes be_bytes_def be_value_def)

lemma mach_read_2_less: "2 \<le> length b \<Longrightarrow> mach_read_from_2 b < 2 ^ 16"
  using be_value_less [of "take 2 b"] by (simp add: mach_read_2)

lemma mach_read_2_cong:
  "take 2 a = take 2 b \<Longrightarrow> 2 \<le> length a \<Longrightarrow> 2 \<le> length b \<Longrightarrow> mach_read_from_2 a = mach_read_from_2 b"
  by (simp add: mach_read_2)

text \<open>The two ends of appending an undo record change the page in the same way.\<close>

definition undo_room :: "byte list \<Rightarrow> byte list \<Rightarrow> bool" where
  "undo_room data page \<longleftrightarrow> 2 < length data \<and> length page \<le> 2 ^ 16 \<and>
     TRX_UNDO_PAGE_HDR + TRX_UNDO_PAGE_HDR_SIZE \<le> undo_page_free page \<and>
     2 \<le> trx_undo_left (length page) (undo_page_free page + 2 + length data)"

lemma undo_page_add_eq:
  assumes "undo_room data page"
  shows "undo_page_add idt data (page, m) =
    (snd (log_phys_undo_append data page), undo_append idt data m)"
    and "\<not> fst (log_phys_undo_append data page)"
    and "length (snd (log_phys_undo_append data page)) = length page"
proof -
  define f where "f = undo_page_free page"
  define e where "e = mach_write_to_2 (f + 4 + length data)"
  let ?n = "length data" and ?p1 = "put (f + 2) data page"
  have r: "56 \<le> f" "f + ?n + 22 \<le> length page" "length page \<le> 2 ^ 16"
    using assms by (auto simp: undo_room_def trx_undo_left_def f_def)
  have le: "length e = 2" by (simp add: e_def)
  have area: "take 2 (drop 42 ?p1) = take 2 (drop 42 page)" using r by (simp add: area_put)
  then have f1: "take 2 (drop 42 ?p1) = mach_write_to_2 f"
    using r mach_write_read_2 [of "drop 42 page"] by (simp add: f_def undo_page_free_def)
  have f2: "undo_page_free ?p1 = f"
    using r mach_read_2_cong [OF area] by (simp add: f_def undo_page_free_def)
  let ?p2 = "put (f + 2 + ?n) (mach_write_to_2 f) ?p1"
  let ?p3 = "put 42 e ?p2" and ?q = "put f e (put 42 e page)"
  have e3: "take 2 (drop 42 ?p3) = e" using drop_put [of 42 ?p2 e] r le by simp
  have lp: "length ?p2 = length page" "length ?p3 = length page" "length ?q = length page" using r le by simp_all
  have d: "take ?n (drop (f + 2) (put f e ?p3)) = data"
  proof -
    have "take ?n (drop (f + 2) (put f e ?p3)) = take ?n (drop (f + 2) ?p1)"
      using r le lp by (simp add: area_put)
    then show ?thesis using r drop_put [of "f + 2" page data] by simp
  qed
  have same: "put f e ?p3 = put (f + 2 + ?n) (mach_write_to_2 f) (put (f + 2) data ?q)"
    by (rule nth_equalityI) (use r le lp in \<open>auto simp: nth_put\<close>)
  have rd: "log_phys_undo_append data page = (False, put (f + 2 + ?n) (mach_write_to_2 f) (put (f + 2) data ?q))"
    using r drop_put [of 42 page e] le by (simp add: log_phys_undo_append_def Let_def f_def [symmetric] e_def [symmetric])
  have md: "(f + 2 + ?n + 2) mod 2 ^ 16 = f + 4 + ?n" using r by simp
  have left: "\<not> trx_undo_left (length ?p1) (f + 2 + ?n) < 2" using r by (simp add: trx_undo_left_def)
  have "undo_page_add idt data (page, m) = (put f e ?p3, undo_append idt data m)"
    using f1 f2 e3 d md left
    by (simp add: undo_page_add_def trx_undo_page_set_next_prev_and_add_def Let_def f_def [symmetric] e_def [symmetric]
        split del: if_split)
  then show "undo_page_add idt data (page, m) = (snd (log_phys_undo_append data page), undo_append idt data m)"
    using same rd by simp
  show "\<not> fst (log_phys_undo_append data page)" "length (snd (log_phys_undo_append data page)) = length page"
    using rd r lp by simp_all
qed

end
