(* ===== verification/Index_Page.thy ===== *)
theory Index_Page
  imports Redo_Pages "HOL-Library.Monad_Syntax"
begin

text \<open>
  Index pages: the accessors of records and of the page directory (\<open>rem0rec.inl\<close>, \<open>page0page.h\<close>,
  \<open>page0page.inl\<close> under \<open>src/storage/innobase/include\<close>), splitting and balancing the slots of the directory, freeing
  records, and the functions of \<open>src/storage/innobase/page/page0cur.cc\<close> that insert and delete records at recovery.
  Pointers are offsets in the page. The result None stands for a read or a write outside of the page, or a walk along the records
  that does not end.
\<close>

unbundle bit_operations_syntax

section \<open>Memory of a page\<close>

text \<open>The bytes at \<open>k\<close> bytes below the origin of a record.\<close>

definition get_bytes :: "nat \<Rightarrow> byte list \<Rightarrow> nat \<Rightarrow> nat \<Rightarrow> byte list option" where
  "get_bytes n page r k = (if k \<le> r \<and> r - k + n \<le> length page then Some (take n (drop (r - k) page)) else None)"

definition set_bytes :: "nat \<Rightarrow> nat \<Rightarrow> byte list \<Rightarrow> byte list \<Rightarrow> byte list option" where
  "set_bytes r k b page = (if k \<le> r \<and> r - k + length b \<le> length page then Some (put (r - k) b page) else None)"

definition get_1 :: "byte list \<Rightarrow> nat \<Rightarrow> nat \<Rightarrow> byte option" where
  "get_1 page r k = map_option hd (get_bytes 1 page r k)"

definition get_2 :: "byte list \<Rightarrow> nat \<Rightarrow> nat \<Rightarrow> nat option" where
  "get_2 page r k = map_option mach_read_from_2 (get_bytes 2 page r k)"

abbreviation set_1 :: "nat \<Rightarrow> nat \<Rightarrow> byte \<Rightarrow> byte list \<Rightarrow> byte list option" where
  "set_1 r k b \<equiv> set_bytes r k [b]"

abbreviation set_2 :: "nat \<Rightarrow> nat \<Rightarrow> nat \<Rightarrow> byte list \<Rightarrow> byte list option" where
  "set_2 r k n \<equiv> set_bytes r k (mach_write_to_2 n)"

section \<open>The page header and the directory\<close>

abbreviation (input) PAGE_N_DIR_SLOTS :: nat where "PAGE_N_DIR_SLOTS \<equiv> 0"
abbreviation (input) PAGE_HEAP_TOP :: nat where "PAGE_HEAP_TOP \<equiv> 2"
abbreviation (input) PAGE_N_HEAP :: nat where "PAGE_N_HEAP \<equiv> 4"
abbreviation (input) PAGE_FREE :: nat where "PAGE_FREE \<equiv> 6"
abbreviation (input) PAGE_GARBAGE :: nat where "PAGE_GARBAGE \<equiv> 8"
abbreviation (input) PAGE_LAST_INSERT :: nat where "PAGE_LAST_INSERT \<equiv> 10"
abbreviation (input) PAGE_DIRECTION_B :: nat where "PAGE_DIRECTION_B \<equiv> 13"
abbreviation (input) PAGE_N_DIRECTION :: nat where "PAGE_N_DIRECTION \<equiv> 14"
abbreviation (input) PAGE_N_RECS :: nat where "PAGE_N_RECS \<equiv> 16"
abbreviation (input) PAGE_LEVEL :: nat where "PAGE_LEVEL \<equiv> 26"
abbreviation (input) PAGE_DIR :: nat where "PAGE_DIR \<equiv> 8"
abbreviation (input) PAGE_DIR_SLOT_MAX_N_OWNED :: nat where "PAGE_DIR_SLOT_MAX_N_OWNED \<equiv> 8"
abbreviation (input) PAGE_DIR_SLOT_MIN_N_OWNED :: nat where "PAGE_DIR_SLOT_MIN_N_OWNED \<equiv> 4"
abbreviation (input) REC_N_OLD_EXTRA_BYTES :: nat where "REC_N_OLD_EXTRA_BYTES \<equiv> 6"
abbreviation (input) REC_N_NEW_EXTRA_BYTES :: nat where "REC_N_NEW_EXTRA_BYTES \<equiv> 5"
abbreviation (input) REC_MAX_N_FIELDS :: nat where "REC_MAX_N_FIELDS \<equiv> 1023"
abbreviation (input) REC_NEXT :: nat where "REC_NEXT \<equiv> 2"

definition page_header_get_field :: "byte list \<Rightarrow> nat \<Rightarrow> nat" where
  "page_header_get_field page field = mach_read_from_2 (drop (PAGE_HEADER + field) page)"

definition page_header_set_field :: "nat \<Rightarrow> nat \<Rightarrow> byte list \<Rightarrow> byte list" where
  "page_header_set_field field val page = put (PAGE_HEADER + field) (mach_write_to_2 val) page"

definition page_is_comp :: "byte list \<Rightarrow> bool" where
  "page_is_comp page \<longleftrightarrow> page ! (PAGE_HEADER + PAGE_N_HEAP) AND 0x80 \<noteq> 0"

definition page_is_leaf :: "byte list \<Rightarrow> bool" where
  "page_is_leaf page \<longleftrightarrow> page_header_get_field page PAGE_LEVEL = 0"

definition page_get_page_no :: "byte list \<Rightarrow> nat" where
  "page_get_page_no page = mach_read_from_4 (drop 4 page)"

definition page_get_n_recs :: "byte list \<Rightarrow> nat" where
  "page_get_n_recs page = page_header_get_field page PAGE_N_RECS"

definition page_dir_get_n_slots :: "byte list \<Rightarrow> nat" where
  "page_dir_get_n_slots page = page_header_get_field page PAGE_N_DIR_SLOTS"

definition page_dir_get_n_heap :: "byte list \<Rightarrow> nat" where
  "page_dir_get_n_heap page = page_header_get_field page PAGE_N_HEAP AND 0x7FFF"

definition fil_page_type_is_index :: "nat \<Rightarrow> bool" where
  "fil_page_type_is_index page_type \<longleftrightarrow> page_type \<in> {18, 17855, 17854}"

definition fil_page_index_page_check :: "byte list \<Rightarrow> bool" where
  "fil_page_index_page_check page \<longleftrightarrow> fil_page_type_is_index (mach_read_from_2 (drop FIL_PAGE_TYPE page))"

text \<open>
  The slots of the directory are counted from the end of the page. A number of slots that is too big for the page would
  put the last slot before it, hence a comparison with a slot is written as a sum.
\<close>

definition page_dir_get_nth_slot :: "byte list \<Rightarrow> nat \<Rightarrow> nat" where
  "page_dir_get_nth_slot page n = length page - (PAGE_DIR + 2) - n * 2"

definition behind_slot :: "byte list \<Rightarrow> nat \<Rightarrow> nat \<Rightarrow> bool" where
  "behind_slot page n p \<longleftrightarrow> length page < p + n * 2 + (PAGE_DIR + 2)"

section \<open>Records\<close>

definition rec_get_bit_field_1 :: "byte list \<Rightarrow> nat \<Rightarrow> nat \<Rightarrow> byte \<Rightarrow> nat \<Rightarrow> byte option" where
  "rec_get_bit_field_1 page r offs msk shift = do {
     b \<leftarrow> get_1 page r offs;
     Some (drop_bit shift (b AND msk))
   }"

definition rec_set_bit_field_1 :: "nat \<Rightarrow> nat \<Rightarrow> nat \<Rightarrow> byte \<Rightarrow> nat \<Rightarrow> byte list \<Rightarrow> byte list option" where
  "rec_set_bit_field_1 r val offs msk shift page = do {
     b \<leftarrow> get_1 page r offs;
     set_1 r offs ((b AND NOT msk) OR byte_of (push_bit shift val)) page
   }"

definition rec_get_bit_field_2 :: "byte list \<Rightarrow> nat \<Rightarrow> nat \<Rightarrow> nat \<Rightarrow> nat \<Rightarrow> nat option" where
  "rec_get_bit_field_2 page r offs msk shift = do {
     n \<leftarrow> get_2 page r offs;
     Some (drop_bit shift (n AND msk))
   }"

definition rec_set_bit_field_2 :: "nat \<Rightarrow> nat \<Rightarrow> nat \<Rightarrow> nat \<Rightarrow> nat \<Rightarrow> byte list \<Rightarrow> byte list option" where
  "rec_set_bit_field_2 r val offs msk shift page = do {
     n \<leftarrow> get_2 page r offs;
     set_2 r offs ((n AND (0xFFFF XOR msk)) OR push_bit shift val) page
   }"

definition rec_get_next_offs :: "byte list \<Rightarrow> nat \<Rightarrow> bool \<Rightarrow> nat option" where
  "rec_get_next_offs page r is_comp = do {
     field_value \<leftarrow> get_2 page r REC_NEXT;
     Some (if is_comp then if field_value = 0 then 0 else (r + field_value) mod length page else field_value)
   }"

definition rec_get_n_fields_old :: "byte list \<Rightarrow> nat \<Rightarrow> nat option" where
  "rec_get_n_fields_old page r = rec_get_bit_field_2 page r 4 0x7FE 1"

definition rec_set_n_fields_old :: "nat \<Rightarrow> nat \<Rightarrow> byte list \<Rightarrow> byte list option" where
  "rec_set_n_fields_old r n_fields page = rec_set_bit_field_2 r n_fields 4 0x7FE 1 page"

definition rec_get_n_owned_old :: "byte list \<Rightarrow> nat \<Rightarrow> nat option" where
  "rec_get_n_owned_old page r = map_option unat (rec_get_bit_field_1 page r 6 0x0F 0)"

definition rec_get_n_owned_new :: "byte list \<Rightarrow> nat \<Rightarrow> nat option" where
  "rec_get_n_owned_new page r = map_option unat (rec_get_bit_field_1 page r 5 0x0F 0)"

definition rec_get_info_bits :: "byte list \<Rightarrow> nat \<Rightarrow> bool \<Rightarrow> byte option" where
  "rec_get_info_bits page r is_comp = rec_get_bit_field_1 page r (if is_comp then 5 else 6) 0xF0 0"

definition rec_get_status :: "byte list \<Rightarrow> nat \<Rightarrow> byte option" where
  "rec_get_status page r = do {
     b \<leftarrow> get_1 page r 3;
     Some (b AND 7)
   }"

definition rec_get_info_and_status_bits :: "byte list \<Rightarrow> nat \<Rightarrow> bool \<Rightarrow> byte option" where
  "rec_get_info_and_status_bits page r is_comp =
     (if is_comp then do {
        info \<leftarrow> rec_get_info_bits page r True;
        status \<leftarrow> rec_get_status page r;
        Some (info OR status)
      } else rec_get_info_bits page r False)"

definition rec_get_heap_no_old :: "byte list \<Rightarrow> nat \<Rightarrow> nat option" where
  "rec_get_heap_no_old page r = rec_get_bit_field_2 page r 5 0xFFF8 3"

definition rec_get_heap_no_new :: "byte list \<Rightarrow> nat \<Rightarrow> nat option" where
  "rec_get_heap_no_new page r = rec_get_bit_field_2 page r 4 0xFFF8 3"

definition rec_get_1byte_offs_flag :: "byte list \<Rightarrow> nat \<Rightarrow> bool option" where
  "rec_get_1byte_offs_flag page r = map_option (\<lambda>b. b \<noteq> 0) (rec_get_bit_field_1 page r 3 1 0)"

definition rec_set_1byte_offs_flag :: "nat \<Rightarrow> bool \<Rightarrow> byte list \<Rightarrow> byte list option" where
  "rec_set_1byte_offs_flag r flag page = rec_set_bit_field_1 r (of_bool flag) 3 1 0 page"

definition rec_1_get_field_start_offs :: "byte list \<Rightarrow> nat \<Rightarrow> nat \<Rightarrow> nat option" where
  "rec_1_get_field_start_offs page r n =
     (if n = 0 then Some 0
      else do {
        b \<leftarrow> get_1 page r (REC_N_OLD_EXTRA_BYTES + n);
        Some (unat (b AND NOT 0x80))
      })"

definition rec_2_get_field_start_offs :: "byte list \<Rightarrow> nat \<Rightarrow> nat \<Rightarrow> nat option" where
  "rec_2_get_field_start_offs page r n =
     (if n = 0 then Some 0
      else do {
        v \<leftarrow> get_2 page r (REC_N_OLD_EXTRA_BYTES + 2 * n);
        Some (v AND 0x3FFF)
      })"

definition rec_get_field_start_offs :: "byte list \<Rightarrow> nat \<Rightarrow> nat \<Rightarrow> nat option" where
  "rec_get_field_start_offs page r n =
     (if n = 0 then Some 0
      else do {
        short \<leftarrow> rec_get_1byte_offs_flag page r;
        if short then rec_1_get_field_start_offs page r n else rec_2_get_field_start_offs page r n
      })"

definition rec_get_data_size_old :: "byte list \<Rightarrow> nat \<Rightarrow> nat option" where
  "rec_get_data_size_old page r = do {
     n \<leftarrow> rec_get_n_fields_old page r;
     rec_get_field_start_offs page r n
   }"

text \<open>The code chooses between the two functions by the format of the page.\<close>

definition rec_get_n_owned :: "bool \<Rightarrow> byte list \<Rightarrow> nat \<Rightarrow> nat option" where
  "rec_get_n_owned is_comp page r = (if is_comp then rec_get_n_owned_new page r else rec_get_n_owned_old page r)"

definition page_rec_set_n_owned :: "nat \<Rightarrow> nat \<Rightarrow> bool \<Rightarrow> byte list \<Rightarrow> byte list option" where
  "page_rec_set_n_owned r n_owned is_comp page = do {
     b \<leftarrow> get_1 page r (if is_comp then 5 else 6);
     set_1 r (if is_comp then 5 else 6) ((b AND NOT 0x0F) OR byte_of n_owned) page
   }"

text \<open>The next record: the inner None is the null pointer for a corrupted page.\<close>

definition page_rec_get_next_low :: "byte list \<Rightarrow> nat \<Rightarrow> bool \<Rightarrow> nat option option" where
  "page_rec_get_next_low page r is_comp = do {
     offs \<leftarrow> rec_get_next_offs page r is_comp;
     Some (if offs < (if is_comp then PAGE_NEW_SUPREMUM else PAGE_OLD_SUPREMUM) \<or>
              offs > page_header_get_field page PAGE_HEAP_TOP then None else Some offs)
   }"

definition page_dir_slot_get_rec :: "byte list \<Rightarrow> nat \<Rightarrow> nat option" where
  "page_dir_slot_get_rec page slot = get_2 page slot 0"

definition page_dir_slot_get_rec_validate :: "byte list \<Rightarrow> nat \<Rightarrow> nat option option" where
  "page_dir_slot_get_rec_validate page slot = do {
     s \<leftarrow> get_2 page slot 0;
     Some (if PAGE_NEW_INFIMUM \<le> s \<and> s \<le> page_header_get_field page PAGE_HEAP_TOP then Some s else None)
   }"

definition page_dir_slot_get_n_owned :: "byte list \<Rightarrow> nat \<Rightarrow> nat option" where
  "page_dir_slot_get_n_owned page slot = do {
     r \<leftarrow> page_dir_slot_get_rec page slot;
     rec_get_n_owned (page_is_comp page) page r
   }"

section \<open>The page directory\<close>

text \<open>Splitting the slot at an offset, whose record owns nine records; the result tells whether the page is corrupted.\<close>

primrec skip_records :: "nat \<Rightarrow> byte list \<Rightarrow> nat option \<Rightarrow> nat option option" where
  "skip_records 0 page r = Some r"
| "skip_records (Suc i) page r =
     (case r of None \<Rightarrow> Some None
      | Some r \<Rightarrow> do {
          r' \<leftarrow> page_rec_get_next_low page r (page_is_comp page);
          skip_records i page r'
        })"

definition page_dir_split_slot :: "nat \<Rightarrow> byte list \<Rightarrow> (bool \<times> byte list) option" where
  "page_dir_split_slot slot page = do {
     first \<leftarrow> page_dir_slot_get_rec_validate page (slot + 2);
     found \<leftarrow> skip_records ((PAGE_DIR_SLOT_MAX_N_OWNED + 1) div 2) page first;
     (case found of None \<Rightarrow> Some (True, page)
      | Some r \<Rightarrow>
          let n_owned = PAGE_DIR_SLOT_MAX_N_OWNED + 1;
              n_slots = page_dir_get_n_slots page
          in if slot + n_slots * 2 + (PAGE_DIR + 2) < length page then Some (True, page)
             else if length page < n_slots * 2 + (PAGE_DIR + 2) then None
             else let last_slot = page_dir_get_nth_slot page n_slots in do {
               moved \<leftarrow> get_bytes (slot - last_slot) page (last_slot + 2) 0;
               page \<leftarrow> set_bytes last_slot 0 moved page;
               let page = page_header_set_field PAGE_N_DIR_SLOTS (n_slots + 1) page;
               page \<leftarrow> set_2 slot 0 r page;
               let is_comp = page_is_comp page;
               lower \<leftarrow> page_dir_slot_get_rec page slot;
               page \<leftarrow> page_rec_set_n_owned lower (n_owned div 2) is_comp page;
               upper \<leftarrow> get_2 page slot 2;
               page \<leftarrow> page_rec_set_n_owned upper (n_owned - n_owned div 2) is_comp page;
               Some (False, page)
             })
   }"

definition page_dir_balance_slot :: "nat \<Rightarrow> byte list \<Rightarrow> byte list option" where
  "page_dir_balance_slot s page =
     (let is_comp = page_is_comp page;
          n_slots = page_dir_get_n_slots page
      in if s + 1 = n_slots then Some page
         else let slot = page_dir_get_nth_slot page s in do {
           up_rec \<leftarrow> get_2 page slot 2;
           slot_rec \<leftarrow> page_dir_slot_get_rec page slot;
           up_n_owned \<leftarrow> rec_get_n_owned is_comp page up_rec;
           if up_n_owned \<le> PAGE_DIR_SLOT_MIN_N_OWNED then do {
             page \<leftarrow> page_rec_set_n_owned slot_rec 0 is_comp page;
             page \<leftarrow> page_rec_set_n_owned up_rec (up_n_owned + (PAGE_DIR_SLOT_MIN_N_OWNED - 1)) is_comp page;
             let last_slot = page_dir_get_nth_slot page (n_slots - 1);
             moved \<leftarrow> (if length page < (n_slots - 1) * 2 + (PAGE_DIR + 2) \<or> slot < last_slot then None
                       else get_bytes (slot - last_slot) page last_slot 0);
             page \<leftarrow> set_bytes (last_slot + 2) 0 moved page;
             page \<leftarrow> set_bytes last_slot 0 [0, 0] page;
             Some (page_header_set_field PAGE_N_DIR_SLOTS (n_slots - 1) page)
           }
           else do {
             new_rec \<leftarrow> page_rec_get_next_low page slot_rec is_comp;
             (case new_rec of None \<Rightarrow> Some page
              | Some new_rec \<Rightarrow> do {
                  page \<leftarrow> page_rec_set_n_owned slot_rec 0 is_comp page;
                  page \<leftarrow> page_rec_set_n_owned new_rec PAGE_DIR_SLOT_MIN_N_OWNED is_comp page;
                  page \<leftarrow> page_rec_set_n_owned up_rec (up_n_owned - 1) is_comp page;
                  set_2 slot 0 new_rec page
                })
           }
         })"

section \<open>Freeing a record\<close>

text \<open>The differences of unsigned 64-bit integers wrap around; two bytes of them are stored.\<close>

definition free_in_header :: "bool \<Rightarrow> nat \<Rightarrow> nat \<Rightarrow> nat \<Rightarrow> nat \<Rightarrow> byte list \<Rightarrow> byte list" where
  "free_in_header deleting_top n_heap r data_size extra_size page =
     (let page =
        (if deleting_top then
           let heap_top = page_header_get_field page PAGE_HEAP_TOP;
               extra_savings = (heap_top + 2 ^ 64 - (r + data_size)) mod 2 ^ 64;
               page = page_header_set_field PAGE_HEAP_TOP (r - extra_size) page;
               page = page_header_set_field PAGE_N_HEAP n_heap page
           in if extra_savings \<noteq> 0
              then page_header_set_field PAGE_GARBAGE
                     ((page_header_get_field page PAGE_GARBAGE + 2 ^ 64 - extra_savings) mod 2 ^ 64) page
              else page
         else
           let page = page_header_set_field PAGE_FREE r page
           in page_header_set_field PAGE_GARBAGE
                (page_header_get_field page PAGE_GARBAGE + extra_size + data_size) page);
          page = page_header_set_field PAGE_LAST_INSERT 0 page
      in page_header_set_field PAGE_N_RECS (page_get_n_recs page + 2 ^ 64 - 1) page)"

definition page_mem_free :: "nat \<Rightarrow> nat \<Rightarrow> nat \<Rightarrow> byte list \<Rightarrow> byte list option" where
  "page_mem_free r data_size extra_size page =
     (let free = page_header_get_field page PAGE_FREE;
          n_heap = (page_header_get_field page PAGE_N_HEAP + 2 ^ 16 - 1) mod 2 ^ 16
      in do {
        deleting_top \<leftarrow> (if n_heap AND 0x8000 \<noteq> 0
           then map_option (\<lambda>heap_no. n_heap = heap_no OR 0x8000) (rec_get_heap_no_new page r)
           else map_option (\<lambda>heap_no. n_heap = heap_no) (rec_get_heap_no_old page r));
        let page = free_in_header deleting_top n_heap r data_size extra_size page;
        if \<not> deleting_top then do {
          page \<leftarrow> set_2 r REC_NEXT
            (if free \<noteq> 0 then if n_heap AND 0x8000 \<noteq> 0 then (free + 2 ^ 16 - r) mod 2 ^ 16 else free else 0) page;
          set_bytes r 0 (replicate data_size 0) page
        }
        else set_bytes r extra_size (replicate (extra_size + data_size) 0) page
      })"

section \<open>The direction of insertions\<close>

text \<open>The same code in the insertion of a record and in both functions of recovery.\<close>

definition set_direction :: "byte \<Rightarrow> byte list \<Rightarrow> byte list" where
  "set_direction d page =
     page[PAGE_HEADER + PAGE_DIRECTION_B := (page ! (PAGE_HEADER + PAGE_DIRECTION_B) AND NOT 7) OR d]"

definition update_direction :: "nat \<Rightarrow> nat \<Rightarrow> nat \<Rightarrow> byte list \<Rightarrow> byte list" where
  "update_direction last_insert prev_rec next_rec page =
     (let dir = page ! (PAGE_HEADER + PAGE_DIRECTION_B) AND 7;
          n = page_header_get_field page PAGE_N_DIRECTION
      in if page ! (FIL_PAGE_TYPE + 1) = byte_of 17854 then page
         else if last_insert = 0 then page_header_set_field PAGE_N_DIRECTION 0 (set_direction 5 page)
         else if last_insert = prev_rec \<and> dir \<noteq> 1
         then page_header_set_field PAGE_N_DIRECTION (n + 1) (set_direction 2 page)
         else if next_rec = last_insert \<and> dir \<noteq> 2
         then page_header_set_field PAGE_N_DIRECTION (n + 1) (set_direction 1 page)
         else page_header_set_field PAGE_N_DIRECTION 0 (set_direction 5 page))"

section \<open>Inserting a record at recovery\<close>

text \<open>Where the code goes to the label \<open>corrupted\<close>: the page is left alone, and reported.\<close>

abbreviation corrupted_page :: "byte list \<Rightarrow> (bool \<times> byte list) option" where
  "corrupted_page page \<equiv> Some (True, page)"

text \<open>
  The walk to the record that owns a given one, at most \<open>ns\<close> records further: its offset and the number of records that it owns.
  The inner None is for a corrupted list.
\<close>

fun owner_dynamic :: "byte list \<Rightarrow> nat \<Rightarrow> nat \<Rightarrow> nat \<Rightarrow> (nat \<times> nat) option option" where
  "owner_dynamic page heap_top ns n = do {
     n_owned \<leftarrow> rec_get_n_owned_new page n;
     if n_owned \<noteq> 0 then Some (Some (n, n_owned))
     else do {
       offs \<leftarrow> get_2 page n REC_NEXT;
       let n = (n + offs) mod 2 ^ 16;
       if n \<noteq> PAGE_NEW_SUPREMUM \<and> (PAGE_NEW_SUPREMUM_END + REC_N_NEW_EXTRA_BYTES > n \<or> n > heap_top) then Some None
       else (case ns of 0 \<Rightarrow> Some None | Suc ns \<Rightarrow> owner_dynamic page heap_top ns n)
     }
   }"

fun owner_redundant :: "byte list \<Rightarrow> nat \<Rightarrow> nat \<Rightarrow> nat \<Rightarrow> (nat \<times> nat) option option" where
  "owner_redundant page heap_top ns n = do {
     n_owned \<leftarrow> rec_get_n_owned_old page n;
     if n_owned \<noteq> 0 then Some (Some (n, n_owned))
     else do {
       n \<leftarrow> get_2 page n REC_NEXT;
       if n \<noteq> PAGE_OLD_SUPREMUM \<and> (PAGE_OLD_SUPREMUM_END + REC_N_OLD_EXTRA_BYTES > n \<or> n > heap_top) then Some None
       else (case ns of 0 \<Rightarrow> Some None | Suc ns \<Rightarrow> owner_redundant page heap_top ns n)
     }
   }"

declare owner_dynamic.simps [simp del] owner_redundant.simps [simp del]

text \<open>The search for the slot of a record, from a slot towards the first one, which is not searched.\<close>

primrec find_slot :: "byte list \<Rightarrow> nat \<Rightarrow> nat \<Rightarrow> nat option" where
  "find_slot page r 0 = None"
| "find_slot page r (Suc s) =
     (if take 2 (drop (page_dir_get_nth_slot page (Suc s)) page) = mach_write_to_2 r then Some (Suc s)
      else find_slot page r s)"

text \<open>What follows the record: the owner, the direction, the number of records and the directory.\<close>

definition finish_insert :: "bool \<Rightarrow> nat \<Rightarrow> nat \<Rightarrow> nat \<Rightarrow> nat \<Rightarrow> nat \<Rightarrow> nat \<Rightarrow> byte list \<Rightarrow> (bool \<times> byte list) option" where
  "finish_insert is_comp last_insert prev_rec next_rec owner_rec n_owned owner_slot page = do {
     page \<leftarrow> rec_set_bit_field_1 owner_rec (n_owned + 1) (if is_comp then 5 else 6) 0x0F 0 page;
     let page = update_direction last_insert prev_rec next_rec page;
     let page = page_header_set_field PAGE_N_RECS (page_get_n_recs page + 1) page;
     if n_owned = PAGE_DIR_SLOT_MAX_N_OWNED
     then page_dir_split_slot (page_dir_get_nth_slot page owner_slot) page
     else Some (False, page)
   }"

subsection \<open>In the formats COMPACT and DYNAMIC\<close>

text \<open>
  Taking the space for a record, from the list of free records or from the heap: the start of the space, the heap number and the page,
  where the inner None is for corruption.
\<close>

definition apply_alloc_dynamic ::
  "bool \<Rightarrow> nat \<Rightarrow> nat \<Rightarrow> nat \<Rightarrow> byte list \<Rightarrow> (nat \<times> nat \<times> byte list) option option" where
  "apply_alloc_dynamic reuse shift extra_size data_size page =
     (let heap_top = page_header_get_field page PAGE_HEAP_TOP;
          h = page_header_get_field page PAGE_N_HEAP;
          rec_size = extra_size + data_size
      in if reuse then
           let free_rec = page_header_get_field page PAGE_FREE;
               garbage = page_header_get_field page PAGE_GARBAGE;
               up = (if odd shift then 0 else drop_bit 1 shift);
               down = extra_size + (if odd shift then drop_bit 1 shift else 0)
           in if PAGE_NEW_SUPREMUM_END + REC_N_NEW_EXTRA_BYTES > free_rec \<or> free_rec > heap_top then Some None
              else if free_rec + up < PAGE_NEW_SUPREMUM_END + down \<or> free_rec + up - down + rec_size > heap_top
              then Some None
              else if garbage < rec_size then Some None
              else do {
                offs \<leftarrow> get_2 page free_rec REC_NEXT;
                let n = (if offs = 0 then 0 else (offs + free_rec) mod 2 ^ 16);
                if offs \<noteq> 0 \<and> (n < PAGE_NEW_SUPREMUM_END + REC_N_NEW_EXTRA_BYTES \<or> heap_top < n) then Some None
                else do {
                  let page = page_header_set_field PAGE_FREE n page;
                  let page = page_header_set_field PAGE_GARBAGE (garbage - rec_size) page;
                  heap_no \<leftarrow> rec_get_heap_no_new page free_rec;
                  Some (Some (free_rec + up - down, heap_no, page))
                }
              }
         else if behind_slot page (page_dir_get_n_slots page - 1) (heap_top + rec_size) then Some None
         else let page = page_header_set_field PAGE_N_HEAP (h + 1) page;
                  page = page_header_set_field PAGE_HEAP_TOP (heap_top + rec_size) page
              in Some (Some (heap_top, h AND 0x7FFF, page)))"

definition apply_record_dynamic ::
  "nat \<Rightarrow> nat \<Rightarrow> nat \<Rightarrow> nat \<Rightarrow> nat \<Rightarrow> nat \<Rightarrow> nat \<Rightarrow> byte list \<Rightarrow> byte list \<Rightarrow> byte list option" where
  "apply_record_dynamic buf h prev_rec next_rec enc_hdr_l hdr_c data_c data page = do {
     let hdr_l = drop_bit 3 enc_hdr_l;
     page \<leftarrow> set_bytes buf 0 (take hdr_l data) page;
     let buf = buf + hdr_l;
     hdr \<leftarrow> get_bytes hdr_c page prev_rec (REC_N_NEW_EXTRA_BYTES + hdr_c);
     page \<leftarrow> set_bytes buf 0 hdr page;
     let buf = buf + hdr_c;
     page \<leftarrow> set_bytes buf 0
       [byte_of (push_bit 4 (enc_hdr_l AND 3)), byte_of (drop_bit 5 h),
        byte_of (push_bit 3 (h AND 31) OR (if page_is_leaf page then enc_hdr_l AND 4 else 1))] page;
     let buf = buf + 3 + REC_NEXT;
     page \<leftarrow> set_2 buf REC_NEXT ((next_rec + 2 ^ 16 - buf) mod 2 ^ 16) page;
     let page = page_header_set_field PAGE_LAST_INSERT buf page;
     page \<leftarrow> set_2 prev_rec REC_NEXT ((buf + 2 ^ 16 - prev_rec) mod 2 ^ 16) page;
     common \<leftarrow> get_bytes data_c page prev_rec 0;
     page \<leftarrow> set_bytes buf 0 common page;
     set_bytes (buf + data_c) 0 (drop hdr_l data) page
   }"

definition page_apply_insert_dynamic ::
  "page_id_t \<Rightarrow> bool \<Rightarrow> nat \<Rightarrow> nat \<Rightarrow> nat \<Rightarrow> nat \<Rightarrow> nat \<Rightarrow> byte list \<Rightarrow> byte list \<Rightarrow> (bool \<times> byte list) option" where
  "page_apply_insert_dynamic idt reuse prev shift enc_hdr_l hdr_c data_c data page =
     (let n_slots = page_dir_get_n_slots page;
          h = page_header_get_field page PAGE_N_HEAP;
          heap_top = page_header_get_field page PAGE_HEAP_TOP;
          heap_bot = PAGE_NEW_SUPREMUM_END;
          prev_rec = (PAGE_NEW_INFIMUM + prev) mod 2 ^ 16;
          hdr_l = drop_bit 3 enc_hdr_l
      in if n_slots < 2 \<or> h < 0x8002 \<or> h AND 0x7FFF \<ge> length page div REC_N_NEW_EXTRA_BYTES \<or> h AND 0x7FFF < n_slots \<or>
            \<not> fil_page_index_page_check page \<or> page_get_page_no page \<noteq> page_no idt \<or>
            mach_read_from_2 (drop (PAGE_NEW_SUPREMUM - REC_NEXT) page) \<noteq> 0 \<or>
            (enc_hdr_l AND 4 \<noteq> 0 \<and> \<not> page_is_leaf page) \<or> hdr_l > length data
         then corrupted_page page
         else if heap_bot > heap_top \<or> behind_slot page (n_slots - 1) heap_top then corrupted_page page
         else if mach_read_from_2 (drop (page_dir_get_nth_slot page (n_slots - 1)) page) \<noteq> PAGE_NEW_SUPREMUM
         then corrupted_page page
         else if mach_read_from_2 (drop (page_dir_get_nth_slot page 0) page) \<noteq> PAGE_NEW_INFIMUM then corrupted_page page
         else do {
           offs \<leftarrow> get_2 page prev_rec REC_NEXT;
           let next_rec = (prev_rec + offs) mod 2 ^ 16;
           if prev \<noteq> 0 \<and> (heap_bot + REC_N_NEW_EXTRA_BYTES > prev_rec \<or> prev_rec > heap_top) then corrupted_page page
           else if next_rec \<noteq> PAGE_NEW_SUPREMUM \<and> (heap_bot + REC_N_NEW_EXTRA_BYTES > next_rec \<or> next_rec > heap_top)
           then corrupted_page page
           else do {
             owner \<leftarrow> owner_dynamic page heap_top PAGE_DIR_SLOT_MAX_N_OWNED next_rec;
             (case owner of None \<Rightarrow> corrupted_page page
              | Some (owner_rec, n_owned) \<Rightarrow>
                  if n_owned > PAGE_DIR_SLOT_MAX_N_OWNED then corrupted_page page
                  else (case find_slot page owner_rec (n_slots - 1) of None \<Rightarrow> corrupted_page page
                        | Some owner_slot \<Rightarrow> do {
                            place \<leftarrow> apply_alloc_dynamic reuse shift (REC_N_NEW_EXTRA_BYTES + hdr_c + hdr_l)
                              (data_c + (length data - hdr_l)) page;
                            (case place of None \<Rightarrow> corrupted_page page
                             | Some (buf, heap_no, page) \<Rightarrow> do {
                                 let last_insert = page_header_get_field page PAGE_LAST_INSERT;
                                 page \<leftarrow> apply_record_dynamic buf heap_no prev_rec next_rec enc_hdr_l hdr_c data_c data page;
                                 finish_insert True last_insert prev_rec next_rec owner_rec n_owned owner_slot page
                               })
                          }))
           }
         })"

subsection \<open>In the format REDUNDANT\<close>

definition rec_extra_size_old :: "byte list \<Rightarrow> nat \<Rightarrow> nat option" where
  "rec_extra_size_old page r = do {
     n_fields \<leftarrow> rec_get_n_fields_old page r;
     short \<leftarrow> rec_get_1byte_offs_flag page r;
     Some (REC_N_OLD_EXTRA_BYTES + (if short then n_fields else n_fields * 2))
   }"

text \<open>The header of the record, which is built outside of the page, and the size of its data.\<close>

definition insert_buf_redundant ::
  "nat \<Rightarrow> nat \<Rightarrow> nat \<Rightarrow> nat \<Rightarrow> byte list \<Rightarrow> byte list \<Rightarrow> (byte list \<times> nat) option" where
  "insert_buf_redundant enc_hdr extra_size hdr_c prev_rec data page = do {
     common \<leftarrow> get_bytes hdr_c page prev_rec hdr_c;
     let insert_buf = take (extra_size - hdr_c) data @ common;
     insert_buf \<leftarrow> rec_set_bit_field_1 extra_size (push_bit 4 (enc_hdr AND 3)) 6 0xF0 0 insert_buf;
     insert_buf \<leftarrow> rec_set_1byte_offs_flag extra_size (odd (drop_bit 2 enc_hdr)) insert_buf;
     insert_buf \<leftarrow> rec_set_n_fields_old extra_size (drop_bit 3 enc_hdr + 1) insert_buf;
     insert_buf \<leftarrow> rec_set_bit_field_1 extra_size 0 6 0x0F 0 insert_buf;
     data_size \<leftarrow> rec_get_data_size_old insert_buf extra_size;
     Some (insert_buf, data_size)
   }"

definition apply_alloc_redundant ::
  "bool \<Rightarrow> nat \<Rightarrow> nat \<Rightarrow> byte list \<Rightarrow> byte list \<Rightarrow> (nat \<times> byte list \<times> byte list) option option" where
  "apply_alloc_redundant reuse extra_size data_size insert_buf page =
     (let heap_top = page_header_get_field page PAGE_HEAP_TOP;
          heap_bot = PAGE_OLD_SUPREMUM_END;
          h = page_header_get_field page PAGE_N_HEAP;
          rec_size = extra_size + data_size
      in if reuse then
           let free_rec = page_header_get_field page PAGE_FREE;
               garbage = page_header_get_field page PAGE_GARBAGE
           in if heap_bot + REC_N_OLD_EXTRA_BYTES > free_rec \<or> free_rec > heap_top then Some None
              else do {
                fextra_size \<leftarrow> rec_extra_size_old page free_rec;
                if free_rec < heap_bot + fextra_size then Some None
                else do {
                  fdata_size \<leftarrow> rec_get_data_size_old page free_rec;
                  next_free \<leftarrow> get_2 page free_rec REC_NEXT;
                  if free_rec + fdata_size > heap_top \<or> rec_size > fextra_size + fdata_size \<or>
                     garbage < fextra_size + fdata_size \<or>
                     (next_free \<noteq> 0 \<and> (next_free < heap_bot + (REC_N_OLD_EXTRA_BYTES + 1) \<or> heap_top < next_free))
                  then Some None
                  else do {
                    let page = page_header_set_field PAGE_GARBAGE (garbage - rec_size) page;
                    heap_no \<leftarrow> rec_get_heap_no_old page free_rec;
                    insert_buf \<leftarrow> rec_set_bit_field_2 extra_size heap_no 5 0xFFF8 3 insert_buf;
                    let page = page_header_set_field PAGE_FREE next_free page;
                    Some (Some (free_rec - fextra_size, insert_buf, page))
                  }
                }
              }
         else if behind_slot page (page_dir_get_n_slots page - 1) (heap_top + rec_size) then Some None
         else do {
           insert_buf \<leftarrow> rec_set_bit_field_2 extra_size h 5 0xFFF8 3 insert_buf;
           let page = page_header_set_field PAGE_N_HEAP (h + 1) page;
           let page = page_header_set_field PAGE_HEAP_TOP (heap_top + rec_size) page;
           Some (Some (heap_top, insert_buf, page))
         })"

text \<open>The checks of the predecessor; the result is the next record.\<close>

definition check_prev_redundant :: "nat \<Rightarrow> nat \<Rightarrow> byte list \<Rightarrow> nat option option" where
  "check_prev_redundant prev_rec hdr_c page =
     (let heap_top = page_header_get_field page PAGE_HEAP_TOP;
          heap_bot = PAGE_OLD_SUPREMUM_END
      in if prev_rec \<noteq> PAGE_OLD_INFIMUM \<and> (heap_bot + (REC_N_OLD_EXTRA_BYTES + 1) > prev_rec \<or> prev_rec > heap_top)
         then Some None
         else do {
           pn_fields \<leftarrow> rec_get_n_fields_old page prev_rec;
           if pn_fields = 0 \<or> pn_fields > REC_MAX_N_FIELDS then Some None
           else do {
             pextra_size \<leftarrow> rec_extra_size_old page prev_rec;
             if (prev_rec \<noteq> PAGE_OLD_INFIMUM \<and> prev_rec < heap_bot + pextra_size) \<or>
                (hdr_c \<noteq> 0 \<and> prev_rec < heap_bot + hdr_c)
             then Some None
             else do {
               pdata_size \<leftarrow> rec_get_data_size_old page prev_rec;
               next_rec \<leftarrow> get_2 page prev_rec REC_NEXT;
               Some (if prev_rec + pdata_size > heap_top \<or>
                        (next_rec \<noteq> PAGE_OLD_SUPREMUM \<and>
                         (heap_bot + REC_N_OLD_EXTRA_BYTES > next_rec \<or> next_rec > heap_top))
                     then None else Some next_rec)
             }
           }
         })"

definition page_apply_insert_redundant ::
  "page_id_t \<Rightarrow> bool \<Rightarrow> nat \<Rightarrow> nat \<Rightarrow> nat \<Rightarrow> nat \<Rightarrow> byte list \<Rightarrow> byte list \<Rightarrow> (bool \<times> byte list) option" where
  "page_apply_insert_redundant idt reuse prev enc_hdr hdr_c data_c data page =
     (let n_slots = page_dir_get_n_slots page;
          h = page_header_get_field page PAGE_N_HEAP;
          heap_top = page_header_get_field page PAGE_HEAP_TOP;
          prev_rec = PAGE_OLD_INFIMUM + prev;
          n_fields = drop_bit 3 enc_hdr + 1;
          extra_size = REC_N_OLD_EXTRA_BYTES + (if odd (drop_bit 2 enc_hdr) then n_fields else n_fields * 2);
          hdr_n = hdr_c + REC_N_OLD_EXTRA_BYTES
      in if n_slots < 2 \<or> h < n_slots \<or> h < 2 \<or> h \<ge> length page div REC_N_OLD_EXTRA_BYTES \<or>
            \<not> fil_page_index_page_check page \<or> page_get_page_no page \<noteq> page_no idt \<or>
            mach_read_from_2 (drop (PAGE_OLD_SUPREMUM - REC_NEXT) page) \<noteq> 0
         then corrupted_page page
         else if PAGE_OLD_SUPREMUM_END > heap_top \<or> behind_slot page (n_slots - 1) heap_top then corrupted_page page
         else if mach_read_from_2 (drop (page_dir_get_nth_slot page (n_slots - 1)) page) \<noteq> PAGE_OLD_SUPREMUM
         then corrupted_page page
         else if mach_read_from_2 (drop (page_dir_get_nth_slot page 0) page) \<noteq> PAGE_OLD_INFIMUM then corrupted_page page
         else do {
           checked \<leftarrow> check_prev_redundant prev_rec hdr_c page;
           (case checked of None \<Rightarrow> corrupted_page page
            | Some next_rec \<Rightarrow>
                if n_fields > REC_MAX_N_FIELDS \<or> hdr_n > extra_size \<or> extra_size - hdr_n > length data
                then corrupted_page page
                else do {
                  owner \<leftarrow> owner_redundant page heap_top PAGE_DIR_SLOT_MAX_N_OWNED next_rec;
                  (case owner of None \<Rightarrow> corrupted_page page
                   | Some (owner_rec, n_owned) \<Rightarrow>
                       if n_owned > PAGE_DIR_SLOT_MAX_N_OWNED then corrupted_page page
                       else (case find_slot page owner_rec (n_slots - 1) of None \<Rightarrow> corrupted_page page
                             | Some owner_slot \<Rightarrow> do {
                                 (insert_buf, data_size) \<leftarrow> insert_buf_redundant enc_hdr extra_size hdr_n prev_rec data page;
                                 if data_c > data_size \<or> extra_size - hdr_n + data_size - data_c \<noteq> length data
                                 then corrupted_page page
                                 else do {
                                   place \<leftarrow> apply_alloc_redundant reuse extra_size data_size insert_buf page;
                                   (case place of None \<Rightarrow> corrupted_page page
                                    | Some (buf, insert_buf, page) \<Rightarrow> do {
                                        let last_insert = page_header_get_field page PAGE_LAST_INSERT;
                                        page \<leftarrow> set_bytes buf 0 insert_buf page;
                                        let buf = buf + extra_size;
                                        let page = page_header_set_field PAGE_LAST_INSERT buf page;
                                        page \<leftarrow> set_2 prev_rec REC_NEXT (page_header_get_field page PAGE_LAST_INSERT) page;
                                        common \<leftarrow> get_bytes data_c page prev_rec 0;
                                        page \<leftarrow> set_bytes buf 0 common page;
                                        page \<leftarrow> set_bytes (buf + data_c) 0 (drop (extra_size - hdr_n) data) page;
                                        finish_insert False last_insert prev_rec next_rec owner_rec n_owned owner_slot page
                                      })
                                 }
                               }))
                })
         })"

section \<open>Deleting a record at recovery\<close>

text \<open>The walk to the owner, at most \<open>i\<close> records further.\<close>

fun delete_owner :: "bool \<Rightarrow> byte list \<Rightarrow> nat \<Rightarrow> nat \<Rightarrow> nat \<Rightarrow> (nat \<times> nat) option option" where
  "delete_owner is_comp page n_slots i n = do {
     n_owned \<leftarrow> rec_get_n_owned is_comp page n;
     if n_owned \<noteq> 0 then Some (Some (n, n_owned))
     else do {
       offs \<leftarrow> get_2 page n REC_NEXT;
       if is_comp \<and> (offs < REC_N_NEW_EXTRA_BYTES \<or> offs > 2 ^ 16 - REC_N_NEW_EXTRA_BYTES) then Some None
       else do {
         let n = (if is_comp then (n + offs) mod 2 ^ 16 else offs);
         if n \<noteq> (if is_comp then PAGE_NEW_SUPREMUM else PAGE_OLD_SUPREMUM) \<and>
            (n < (if is_comp then PAGE_NEW_SUPREMUM_END + REC_N_NEW_EXTRA_BYTES
                  else PAGE_OLD_SUPREMUM_END + REC_N_OLD_EXTRA_BYTES) \<or> behind_slot page (n_slots - 1) n)
         then Some None
         else (case i of 0 \<Rightarrow> Some None | Suc i \<Rightarrow> delete_owner is_comp page n_slots i n)
       }
     }
   }"

declare delete_owner.simps [simp del]

text \<open>
  The changes: the slot points to the predecessor if the record was its owner, the record is unlinked and freed, and the
  directory is balanced. The next pointer is relative in the formats COMPACT and DYNAMIC.
\<close>

definition unlink_record ::
  "bool \<Rightarrow> nat \<Rightarrow> nat \<Rightarrow> nat \<Rightarrow> nat \<Rightarrow> nat \<Rightarrow> nat \<Rightarrow> nat \<Rightarrow> nat \<Rightarrow> byte list \<Rightarrow> byte list option" where
  "unlink_record is_comp prev_rec r next_rec s slot_no slot_owned data_size extra_size page = do {
     let slot = page_dir_get_nth_slot page slot_no;
     (s, page) \<leftarrow> (if r = s then map_option (Pair prev_rec) (set_2 slot 0 prev_rec page) else Some (s, page));
     page \<leftarrow> set_2 prev_rec REC_NEXT (if is_comp then (next_rec + 2 ^ 16 - prev_rec) mod 2 ^ 16 else next_rec) page;
     page \<leftarrow> page_rec_set_n_owned s slot_owned is_comp page;
     page \<leftarrow> page_mem_free r data_size extra_size page;
     if slot_owned < PAGE_DIR_SLOT_MIN_N_OWNED then page_dir_balance_slot slot_no page else Some page
   }"

definition apply_delete ::
  "bool \<Rightarrow> nat \<Rightarrow> nat \<Rightarrow> nat \<Rightarrow> nat \<Rightarrow> nat \<Rightarrow> byte list \<Rightarrow> (bool \<times> byte list) option" where
  "apply_delete is_comp prev_rec r next_rec data_size extra_size page = do {
     let n_slots = page_dir_get_n_slots page;
     owner \<leftarrow> delete_owner is_comp page n_slots (page_get_n_recs page) r;
     (case owner of None \<Rightarrow> corrupted_page page
      | Some (s, n_owned) \<Rightarrow>
          (case find_slot page s (n_slots - 1) of None \<Rightarrow> corrupted_page page
           | Some slot_no \<Rightarrow>
               map_option (Pair False)
                 (unlink_record is_comp prev_rec r next_rec s slot_no (n_owned - 1) data_size extra_size page)))
   }"

definition page_apply_delete_redundant :: "page_id_t \<Rightarrow> nat \<Rightarrow> byte list \<Rightarrow> (bool \<times> byte list) option" where
  "page_apply_delete_redundant idt prev page =
     (let n_slots = page_dir_get_n_slots page;
          prev_rec = PAGE_OLD_INFIMUM + prev;
          user_low = PAGE_OLD_SUPREMUM_END + REC_N_OLD_EXTRA_BYTES
      in if page_get_n_recs page = 0 \<or> n_slots < 2 \<or> \<not> fil_page_index_page_check page \<or>
            page_get_page_no page \<noteq> page_no idt \<or>
            mach_read_from_2 (drop (PAGE_OLD_SUPREMUM - REC_NEXT) page) \<noteq> 0 \<or> page_is_comp page
         then corrupted_page page
         else if behind_slot page (n_slots - 1) prev_rec then corrupted_page page
         else do {
           r \<leftarrow> get_2 page prev_rec REC_NEXT;
           if r < user_low \<or> behind_slot page (n_slots - 1) r then corrupted_page page
           else do {
             extra_size \<leftarrow> rec_extra_size_old page r;
             data_size \<leftarrow> rec_get_data_size_old page r;
             if r < PAGE_OLD_SUPREMUM_END + extra_size \<or> behind_slot page (n_slots - 1) (r + data_size)
             then corrupted_page page
             else do {
               next_rec \<leftarrow> get_2 page r REC_NEXT;
               if next_rec \<noteq> PAGE_OLD_SUPREMUM \<and> (next_rec < user_low \<or> behind_slot page (n_slots - 1) next_rec)
               then corrupted_page page
               else apply_delete False prev_rec r next_rec data_size extra_size page
             }
           }
         })"

definition page_apply_delete_dynamic :: "page_id_t \<Rightarrow> nat \<Rightarrow> nat \<Rightarrow> nat \<Rightarrow> byte list \<Rightarrow> (bool \<times> byte list) option" where
  "page_apply_delete_dynamic idt prev hdr_size data_size page =
     (let n_slots = page_dir_get_n_slots page;
          prev_rec = (PAGE_NEW_INFIMUM + prev) mod 2 ^ 16;
          user_low = PAGE_NEW_SUPREMUM_END + REC_N_NEW_EXTRA_BYTES;
          extra_size = REC_N_NEW_EXTRA_BYTES + hdr_size
      in if page_get_n_recs page = 0 \<or> n_slots < 2 \<or> \<not> fil_page_index_page_check page \<or>
            page_get_page_no page \<noteq> page_no idt \<or>
            mach_read_from_2 (drop (PAGE_NEW_SUPREMUM - REC_NEXT) page) \<noteq> 0 \<or> \<not> page_is_comp page
         then corrupted_page page
         else if behind_slot page (n_slots - 1) prev_rec then corrupted_page page
         else do {
           offs \<leftarrow> get_2 page prev_rec REC_NEXT;
           let r = (prev_rec + offs) mod 2 ^ 16;
           if r < user_low \<or> behind_slot page (n_slots - 1) r then corrupted_page page
           else if r < PAGE_NEW_SUPREMUM_END + extra_size \<or> behind_slot page (n_slots - 1) (r + data_size)
           then corrupted_page page
           else do {
             offs \<leftarrow> get_2 page r REC_NEXT;
             let next_rec = (r + offs) mod 2 ^ 16;
             if next_rec \<noteq> PAGE_NEW_SUPREMUM \<and> (next_rec < user_low \<or> behind_slot page (n_slots - 1) next_rec)
             then corrupted_page page
             else apply_delete True prev_rec r next_rec data_size extra_size page
           }
         })"

section \<open>The size of the page\<close>

named_theorems page_size

lemma set_bytes_size [page_size]: "set_bytes r k b page = Some page' \<Longrightarrow> length page' = length page"
  by (auto simp: set_bytes_def split: if_splits)

lemma set_bit_field_size [page_size]:
  "rec_set_bit_field_1 r val offs msk shift page = Some page' \<Longrightarrow> length page' = length page"
  "rec_set_bit_field_2 r val offs m2 shift page = Some page' \<Longrightarrow> length page' = length page"
  "page_rec_set_n_owned r n_owned is_comp page = Some page' \<Longrightarrow> length page' = length page"
  by (auto simp: rec_set_bit_field_1_def rec_set_bit_field_2_def page_rec_set_n_owned_def
      split: Option.bind_splits dest: set_bytes_size)

lemma header_set_size [simp]:
  "66 \<le> length page \<Longrightarrow> field \<le> 26 \<Longrightarrow> length (page_header_set_field field val page) = length page"
  by (simp add: page_header_set_field_def)

lemma direction_size [simp]: "66 \<le> length page \<Longrightarrow> length (update_direction a b c page) = length page"
  by (simp add: update_direction_def set_direction_def Let_def)

lemma split_size [page_size]:
  assumes "page_dir_split_slot slot page = Some (failed, page')" "66 \<le> length page"
  shows "length page' = length page"
  using assms
  by (auto simp: page_dir_split_slot_def Let_def split: Option.bind_splits option.splits if_splits
      dest!: set_bytes_size set_bit_field_size(3))

lemma balance_size [page_size]:
  assumes "page_dir_balance_slot s page = Some page'" "66 \<le> length page"
  shows "length page' = length page"
  using assms
  by (auto simp: page_dir_balance_slot_def Let_def split: Option.bind_splits option.splits if_splits
      dest!: set_bytes_size set_bit_field_size(3))

lemma free_in_header_size [simp]: "66 \<le> length page \<Longrightarrow> length (free_in_header t n r d e page) = length page"
  by (cases t) (simp_all add: free_in_header_def Let_def del: One_nat_def)

text \<open>A page that a computation may return has a given size.\<close>

definition sized :: "nat \<Rightarrow> byte list option \<Rightarrow> bool" where
  "sized n x \<longleftrightarrow> (\<forall>page. x = Some page \<longrightarrow> length page = n)"

definition sized_result :: "nat \<Rightarrow> (bool \<times> byte list) option \<Rightarrow> bool" where
  "sized_result n x \<longleftrightarrow> (\<forall>failed page. x = Some (failed, page) \<longrightarrow> length page = n)"

lemma sized_bind:
  "(\<And>y. m = Some y \<Longrightarrow> sized n (f y)) \<Longrightarrow> sized n (m \<bind> f)"
  "(\<And>y. m = Some y \<Longrightarrow> sized_result n (g y)) \<Longrightarrow> sized_result n (m \<bind> g)"
  by (auto simp: sized_def sized_result_def split: Option.bind_splits)

lemma sized_if:
  "sized n x \<Longrightarrow> sized n y \<Longrightarrow> sized n (if b then x else y)"
  "sized_result n v \<Longrightarrow> sized_result n w \<Longrightarrow> sized_result n (if b then v else w)"
  by simp_all

lemma sized_case:
  "sized_result n v \<Longrightarrow> (\<And>y. x = Some y \<Longrightarrow> sized_result n (f y)) \<Longrightarrow> sized_result n (case x of None \<Rightarrow> v | Some y \<Rightarrow> f y)"
  "(\<And>a b. z = (a, b) \<Longrightarrow> sized_result n (g a b)) \<Longrightarrow> sized_result n (case z of (a, b) \<Rightarrow> g a b)"
  "(\<And>a b. z = (a, b) \<Longrightarrow> sized n (h a b)) \<Longrightarrow> sized n (case z of (a, b) \<Rightarrow> h a b)"
  by (simp_all split: option.split prod.split)

lemma sized_set: "length page = n \<Longrightarrow> sized n (set_bytes r k b page)"
  "sized n x \<Longrightarrow> sized_result n (map_option (Pair f) x)"
  by (auto simp: sized_def sized_result_def dest: set_bytes_size)

lemma sized_corrupted: "sized_result (length page) (Some (f, page))" "length page = n \<Longrightarrow> sized n (Some page)"
  "length page = n \<Longrightarrow> sized_result n (Some (f, page))"
  by (simp_all add: sized_result_def sized_def)

lemmas sized_intros = sized_corrupted(1) sized_bind sized_if sized_case sized_set

lemma mem_free_size [page_size]:
  assumes "66 \<le> length page"
  shows "sized (length page) (page_mem_free r data_size extra_size page)"
  unfolding page_mem_free_def Let_def by (intro sized_intros) (use assms in \<open>simp_all add: set_bytes_size\<close>)

lemma finish_insert_size [page_size]:
  assumes "66 \<le> length page"
  shows "sized_result (length page) (finish_insert is_comp li p n owner n_owned slot page)"
proof -
  have split: "sized_result (length page) (page_dir_split_slot s q)" if "length q = length page" for s q
    using split_size [of s q] that assms by (auto simp: sized_result_def)
  show ?thesis
    unfolding finish_insert_def Let_def
    by (intro sized_bind sized_if split sized_corrupted(3)) (use assms in \<open>simp_all add: set_bit_field_size\<close>)
qed

lemma alloc_size [page_size]:
  assumes "66 \<le> length page"
  shows "apply_alloc_dynamic reuse shift e d page = Some (Some (buf, h, page')) \<Longrightarrow> length page' = length page"
    and "apply_alloc_redundant reuse e d ib page = Some (Some (buf, ib', page')) \<Longrightarrow> length page' = length page"
  using assms
  by (auto simp: apply_alloc_dynamic_def apply_alloc_redundant_def Let_def split: Option.bind_splits if_splits)

lemma record_dynamic_size [page_size]:
  assumes "66 \<le> length page"
  shows "sized (length page) (apply_record_dynamic buf h p n enc hdr_c data_c data page)"
  unfolding apply_record_dynamic_def Let_def
  by (intro sized_intros) (use assms in \<open>simp add: set_bytes_size\<close>)

lemma insert_dynamic_size [page_size]:
  assumes "66 \<le> length page"
  shows "sized_result (length page) (page_apply_insert_dynamic idt reuse prev shift enc hdr_c data_c data page)"
proof -
  have fin: "sized_result (length page) (finish_insert True li p n owner n_owned slot q)" if "length q = length page"
    for li p n owner n_owned slot q
    using finish_insert_size [of q] that assms by simp
  have rec: "length q' = length page"
    if "apply_record_dynamic buf h p n enc hdr_c data_c data q = Some q'" "length q = length page" for buf h p n q q'
    using record_dynamic_size [of q] that assms by (auto simp: sized_def)
  show ?thesis
    unfolding page_apply_insert_dynamic_def Let_def
    by (intro sized_corrupted(1) sized_bind(2) sized_if(2) sized_case(1,2) fin)
      (use alloc_size(1) [OF assms] rec in \<open>blast\<close>)
qed

lemma insert_redundant_size [page_size]:
  assumes "66 \<le> length page"
  shows "sized_result (length page) (page_apply_insert_redundant idt reuse prev enc hdr_c data_c data page)"
proof -
  have fin: "sized_result (length page) (finish_insert False li p n owner n_owned slot q)" if "length q = length page"
    for li p n owner n_owned slot q
    using finish_insert_size [of q] that assms by simp
  show ?thesis
    unfolding page_apply_insert_redundant_def Let_def
    by (intro sized_corrupted(1) sized_bind(2) sized_if(2) sized_case(1,2) fin)
      (use alloc_size(2) [OF assms] assms in \<open>simp add: set_bytes_size\<close>)
qed

lemma unlink_size [page_size]:
  assumes "66 \<le> length page"
  shows "sized (length page) (unlink_record is_comp p r n s slot owned d e page)"
proof -
  have bal: "sized (length page) (page_dir_balance_slot slot q)" if "length q = length page" for q
    using balance_size [of slot q] that assms by (auto simp: sized_def)
  have free: "length q' = length page" if "page_mem_free r d e q = Some q'" "length q = length page" for q q'
    using mem_free_size [of q r d e] that assms by (simp add: sized_def)
  have first: "length q = length page"
    if "(if r = s then map_option (Pair p) (set_2 slot' 0 p page) else Some (s, page)) = Some (s', q)" for s' q slot'
    using that by (auto split: if_splits dest: set_bytes_size)
  show ?thesis
    unfolding unlink_record_def Let_def
    by (intro sized_bind(1) sized_if(1) sized_case(3) bal sized_corrupted(2))
      (simp add: free set_bit_field_size(3) set_bytes_size first)+
qed

lemma delete_size [page_size]:
  assumes "66 \<le> length page"
  shows "sized_result (length page) (page_apply_delete_redundant idt prev page)"
    and "sized_result (length page) (page_apply_delete_dynamic idt prev hdr_size data_size page)"
proof -
  have del: "sized_result (length page) (apply_delete is_comp p r n d e page)" for is_comp p r n d e
    unfolding apply_delete_def Let_def
    by (intro sized_intros unlink_size [OF assms])
  show "sized_result (length page) (page_apply_delete_redundant idt prev page)"
    "sized_result (length page) (page_apply_delete_dynamic idt prev hdr_size data_size page)"
    unfolding page_apply_delete_redundant_def page_apply_delete_dynamic_def Let_def
    by (intro sized_corrupted(1) sized_bind(2) sized_if(2) del)+
qed

end
