(* ===== verification/Redo_Apply.thy ===== *)
theory Redo_Apply
  imports Index_Page
begin

text \<open>
  Applying the redo log to a page at recovery, \<open>log_phys_t::apply\<close> in
  \<open>src/storage/innobase/log/log0recv.cc\<close>: the loop over the records of a page, and every record type and subtype.
  The CRC-32C function is a parameter.
\<close>

unbundle bit_operations_syntax

section \<open>State\<close>

datatype apply_status = APPLIED_NO | APPLIED_YES | APPLIED_TO_ENCRYPTION | APPLIED_TO_FSP_HEADER | APPLIED_CORRUPTED

text \<open>
  What the handler of an EXTENDED record finds: None for a corrupted record, otherwise whether the page
  was inconsistent, and the page it leaves, where the inner None is for an access outside of the page.
\<close>

type_synonym ext_result = "(bool \<times> byte list) option option"

record block_env =
  block_id :: page_id_t
  zipped :: bool
  force_recovery :: bool
  encryption_offset :: nat
  my_crc32c :: "nat \<Rightarrow> byte list \<Rightarrow> nat"

record recv_page =
  frame :: "byte list"
  last_offset :: nat
  applied :: apply_status
  log_corrupted :: bool

text \<open>One record: go on with the next, return, or no defined result (a read or write outside the page, or a loop).\<close>

datatype verdict = Next recv_page | Return apply_status recv_page | Undefined

section \<open>One record\<close>

definition record_corrupted :: "block_env \<Rightarrow> recv_page \<Rightarrow> verdict" where
  "record_corrupted env st =
     (if \<not> force_recovery env then Return (applied st) (st\<lparr>log_corrupted := True\<rparr>)
      else Next (st\<lparr>last_offset := 1\<rparr>))"

definition next_after_applying :: "recv_page \<Rightarrow> verdict" where
  "next_after_applying st = Next (st\<lparr>applied := (if applied st = APPLIED_NO then APPLIED_YES else applied st)\<rparr>)"

definition next_after_applying_write :: "nat \<Rightarrow> recv_page \<Rightarrow> verdict" where
  "next_after_applying_write llen st = next_after_applying (st\<lparr>last_offset := (last_offset st + llen) mod 2 ^ 16\<rparr>)"

text \<open>
  The loop that repeats a string, and the copy of the remaining bytes after it: their number is
  computed in an unsigned integer, so that it is huge when the loop ran over the end.
\<close>

function memset_repeat :: "nat \<Rightarrow> nat \<Rightarrow> byte list \<Rightarrow> nat \<Rightarrow> byte list \<Rightarrow> byte list option" where
  "memset_repeat offset llen str s page =
     (if s < llen then
        if str = [] then None
        else memset_repeat offset llen str (s + length str) (put (offset + s) str page)
      else if s = llen then Some page else None)"
  by pat_completeness auto
termination by (relation "measure (\<lambda>(offset, llen, str, s, page). llen - s)") (auto intro: diff_less_mono2)

text \<open>WRITE to page 0 of a tablespace may change its encryption data or its header.\<close>

definition write_status :: "block_env \<Rightarrow> nat \<Rightarrow> nat \<Rightarrow> apply_status \<Rightarrow> apply_status" where
  "write_status env offset llen s =
     (if page_no (block_id env) \<noteq> 0 then s
      else if llen = 11 + 16 \<and> offset = 38 + 6 + encryption_offset env then APPLIED_TO_ENCRYPTION
      else if offset < 38 + 24 + 0 + 4 \<and> offset + llen \<ge> 38 + 8 then APPLIED_TO_FSP_HEADER
      else s)"

definition apply_memset :: "byte list \<Rightarrow> nat \<Rightarrow> nat \<Rightarrow> recv_page \<Rightarrow> verdict" where
  "apply_memset l rlen len st =
     (if rlen \<noteq> 1 then
        case memset_repeat (last_offset st) len (take rlen l) 0 (frame st) of
          None \<Rightarrow> Undefined
        | Some page \<Rightarrow> next_after_applying_write len (st\<lparr>frame := page\<rparr>)
      else next_after_applying_write len (st\<lparr>frame := put (last_offset st) (replicate len (l ! 0)) (frame st)\<rparr>))"

text \<open>The source offset and the bound on it are 32 bit numbers.\<close>

definition apply_memmove :: "block_env \<Rightarrow> byte list \<Rightarrow> nat \<Rightarrow> nat \<Rightarrow> recv_page \<Rightarrow> verdict" where
  "apply_memmove env l rlen len st =
     (let slen = mlog_decode_varint_length (l ! 0)
      in if slen \<noteq> rlen \<or> slen > 3 then record_corrupted env st
         else let s = mlog_decode_varint l;
                  s = (if s AND 1 \<noteq> 0 then (last_offset st + 2 ^ 32 - drop_bit 1 s - 1) mod 2 ^ 32
                       else (last_offset st + drop_bit 1 s + 1) mod 2 ^ 32)
              in if s \<ge> 8 \<and> (s + len) mod 2 ^ 32 \<le> length (frame st)
                 then if s + len \<le> length (frame st)
                      then next_after_applying_write len
                             (st\<lparr>frame := page_memmove (last_offset st) s len (frame st)\<rparr>)
                      else Undefined
                 else record_corrupted env st)"

text \<open>After the offset: the data of WRITE, or a length and then the data of MEMSET or the source of MEMMOVE.\<close>

definition apply_data :: "block_env \<Rightarrow> byte \<Rightarrow> byte list \<Rightarrow> nat \<Rightarrow> recv_page \<Rightarrow> verdict" where
  "apply_data env type l rlen st =
     (if type = WRITE then
        if rlen + last_offset st > length (frame st) then record_corrupted env st
        else next_after_applying_write rlen
               (st\<lparr>frame := put (last_offset st) (take rlen l) (frame st),
                   applied := write_status env (last_offset st) rlen (applied st)\<rparr>)
      else
        let llen = mlog_decode_varint_length (l ! 0);
            len = mlog_decode_varint l
        in if llen > rlen \<or> llen > 3 \<or> len + last_offset st > length (frame st) then record_corrupted env st
           else if type = MEMSET then apply_memset (drop llen l) (rlen - llen) len st
           else apply_memmove env (drop llen l) (rlen - llen) len st)"

definition apply_at_offset :: "block_env \<Rightarrow> byte \<Rightarrow> byte list \<Rightarrow> nat \<Rightarrow> recv_page \<Rightarrow> verdict" where
  "apply_at_offset env type l rlen st =
     (let size = length (frame st);
          olen = mlog_decode_varint_length (l ! 0);
          offset = mlog_decode_varint l
      in if last_offset st = 1 \<or> olen \<ge> rlen \<or> olen > 3 then record_corrupted env st
         else if offset \<ge> size \<or> offset + last_offset st < 8 \<or> offset + last_offset st \<ge> size
         then record_corrupted env st
         else apply_data env type (drop olen l) (rlen - olen)
                (st\<lparr>last_offset := (last_offset st + offset) mod 2 ^ 16\<rparr>))"

text \<open>
  A variable length integer of an EXTENDED record of which \<open>rlen\<close> bytes are left, if its length is at most
  \<open>n\<close> and satisfies what the reader demands of it and \<open>rlen\<close>; and the rest of the record.
\<close>

definition ext_varint :: "nat \<Rightarrow> (nat \<Rightarrow> nat \<Rightarrow> bool) \<Rightarrow> byte list \<times> nat \<Rightarrow> (nat \<times> byte list \<times> nat) option" where
  "ext_varint n ok = (\<lambda>(l, rlen).
     let ll = mlog_decode_varint_length (l ! 0)
     in if ll > n \<or> \<not> ok ll rlen then None else Some (mlog_decode_varint l, drop ll l, rlen - ll))"

definition ext_insert_dynamic :: "block_env \<Rightarrow> bool \<Rightarrow> nat \<Rightarrow> byte list \<times> nat \<Rightarrow> byte list \<Rightarrow> ext_result" where
  "ext_insert_dynamic env reuse prev_rec x page = do {
     (shift, x) \<leftarrow> (if reuse then ext_varint 3 (<) x else Some (0, x));
     (enc_hdr_l, x) \<leftarrow> ext_varint 3 (<) x;
     (hdr_c, x) \<leftarrow> ext_varint 2 (<) x;
     (data_c, l, rlen) \<leftarrow> ext_varint 3 (\<le>) x;
     Some (page_apply_insert_dynamic (block_id env) reuse prev_rec shift enc_hdr_l hdr_c data_c (take rlen l) page)
   }"

definition ext_insert_redundant :: "block_env \<Rightarrow> bool \<Rightarrow> nat \<Rightarrow> byte list \<times> nat \<Rightarrow> byte list \<Rightarrow> ext_result" where
  "ext_insert_redundant env reuse prev_rec x page = do {
     (header, x) \<leftarrow> ext_varint 2 (<) x;
     (hdr_c, x) \<leftarrow> ext_varint 2 (<) x;
     (data_c, l, rlen) \<leftarrow> ext_varint 2 (\<le>) x;
     Some (page_apply_insert_redundant (block_id env) reuse prev_rec header hdr_c data_c (take rlen l) page)
   }"

definition ext_delete_dynamic :: "block_env \<Rightarrow> byte list \<times> nat \<Rightarrow> byte list \<Rightarrow> ext_result" where
  "ext_delete_dynamic env x page = do {
     (prev_rec, x) \<leftarrow> ext_varint 3 (<) x;
     (hdr_size, x) \<leftarrow> ext_varint 2 (<) x;
     (data_size, l, rlen) \<leftarrow> ext_varint 3 (=) x;
     Some (page_apply_delete_dynamic (block_id env) prev_rec hdr_size data_size page)
   }"

definition extended_subtype :: "block_env \<Rightarrow> byte \<Rightarrow> byte list \<times> nat \<Rightarrow> byte list \<Rightarrow> ext_result" where
  "extended_subtype env subtype x page =
     (if subtype = 0 \<or> subtype = 1 then
        if snd x \<noteq> 0 then None else Some (Some (False, page_create_low (subtype \<noteq> 0) page))
      else if subtype = 2 then
        if snd x \<noteq> 0 then None else Some (Some (False, trx_undo_page_init page))
      else if subtype = 3 then
        if snd x + 1 \<le> 3 then None else Some (Some (log_phys_undo_append (take (snd x) (fst x)) page))
      else if subtype \<in> {4, 5, 6, 7} then
        if snd x + 1 < 2 then None
        else do {
          (prev_rec, x) \<leftarrow> ext_varint 3 (<) x;
          if subtype AND 2 \<noteq> 0 then ext_insert_dynamic env (subtype AND 1 \<noteq> 0) prev_rec x page
          else ext_insert_redundant env (subtype AND 1 \<noteq> 0) prev_rec x page
        }
      else if subtype = 8 then
        if snd x + 1 < 2 \<or> snd x + 1 > 4 then None
        else do {
          (prev_rec, x) \<leftarrow> ext_varint 3 (=) x;
          Some (page_apply_delete_redundant (block_id env) prev_rec page)
        }
      else if subtype = 9 then
        if snd x + 1 < 2 then None else ext_delete_dynamic env x page
      else None)"

definition apply_extended :: "block_env \<Rightarrow> byte list \<Rightarrow> nat \<Rightarrow> recv_page \<Rightarrow> verdict" where
  "apply_extended env l rlen st =
     (if page_no (block_id env) < 3 \<or> zipped env \<or> rlen = 0 then record_corrupted env st
      else case extended_subtype env (l ! 0) (drop 1 l, rlen - 1) (frame st) of
             None \<Rightarrow> record_corrupted env st
           | Some None \<Rightarrow> Undefined
           | Some (Some (failed, page)) \<Rightarrow>
               if failed \<and> \<not> force_recovery env then Return APPLIED_CORRUPTED (st\<lparr>frame := page\<rparr>)
               else next_after_applying (st\<lparr>frame := page, last_offset := FIL_PAGE_TYPE\<rparr>))"

definition page_checksum :: "block_env \<Rightarrow> byte list \<Rightarrow> byte list \<Rightarrow> bool" where
  "page_checksum env page l =
     (if my_crc32c env
           (my_crc32c env (my_crc32c env 0 (take (16 - 4) (drop 4 page))) (take 2 (drop FIL_PAGE_TYPE page)))
           (take (length page - (34 + 8)) (drop 34 page)) = mach_read_from_4 l
      then False else \<not> force_recovery env)"

definition apply_record :: "block_env \<Rightarrow> byte \<Rightarrow> byte list \<Rightarrow> nat \<Rightarrow> recv_page \<Rightarrow> verdict" where
  "apply_record env type l rlen st =
     (if type = FREE_PAGE then Next (st\<lparr>last_offset := 1\<rparr>)
      else if type = INIT_PAGE then
        if rlen = 0
        then next_after_applying
               (st\<lparr>frame := fsp_apply_init_file_page (block_id env) (frame st), last_offset := FIL_PAGE_TYPE\<rparr>)
        else record_corrupted env st
      else if type = OPTION then
        if page_checksum env (frame st) (drop 1 l) then Return APPLIED_CORRUPTED st else next_after_applying st
      else if type = EXTENDED then apply_extended env l rlen st
      else if type = WRITE \<or> type = MEMSET \<or> type = MEMMOVE then apply_at_offset env type l rlen st
      else record_corrupted env st)"

section \<open>The loop\<close>

text \<open>The page identifier of a record that is not for the same page as the one before is skipped.\<close>

definition skip_id :: "byte \<Rightarrow> byte list \<times> nat \<Rightarrow> recv_page \<Rightarrow> (byte list \<times> nat) \<times> recv_page" where
  "skip_id b = (\<lambda>(l, rlen) st.
     if b AND 0x80 = 0
     then let idlen = mlog_decode_varint_length (l ! 0);
              l = drop idlen l;
              rlen = rlen - idlen;
              idlen = mlog_decode_varint_length (l ! 0)
          in ((drop idlen l, rlen - idlen), st\<lparr>last_offset := 0\<rparr>)
     else ((l, rlen), st))"

lemma parse_length_shorter: "l \<noteq> [] \<Longrightarrow> length (fst (parse_length l)) < length l"
  by (cases l) (auto simp: parse_length_def Let_def)

lemma skip_id_shorter: "length (fst (fst (skip_id b x st))) \<le> length (fst x)"
  by (cases x) (simp add: skip_id_def Let_def)

function log_apply :: "block_env \<Rightarrow> byte list \<Rightarrow> recv_page \<Rightarrow> (apply_status \<times> recv_page) option" where
  "log_apply env l st =
     (if l = [] \<or> l ! 0 = 0 then Some (applied st, st)
      else case skip_id (l ! 0) (parse_length l) st of
             ((l', rlen), st') \<Rightarrow>
               (case apply_record env (l ! 0 AND 0x70) l' rlen st' of
                  Undefined \<Rightarrow> None
                | Return status st'' \<Rightarrow> Some (status, st'')
                | Next st'' \<Rightarrow> log_apply env (drop rlen l') st''))"
  by pat_completeness auto
termination
proof (relation "measure (\<lambda>(env, l, st). length l)", goal_cases)
  case (2 env l st x st' l' rlen st'')
  then have "x = fst (skip_id (l ! 0) (parse_length l) st)" by (metis fst_conv)
  moreover have "l' = fst x" using 2 by (metis fst_conv)
  ultimately show ?case
    using 2(1) parse_length_shorter [of l] skip_id_shorter [of "l ! 0" "parse_length l" st] by auto
qed simp

declare log_apply.simps [simp del] memset_repeat.simps [simp del]

section \<open>Replaying what was logged\<close>

text \<open>
  The reader follows the writer: it has the page, and while records are for the same page
  it knows the offset the next one is relative to.
\<close>

definition follows :: "page_id_t \<Rightarrow> byte list \<times> mtr_t \<Rightarrow> recv_page \<Rightarrow> bool" where
  "follows idt = (\<lambda>(page, m) st.
     frame st = page \<and> \<not> log_corrupted st \<and>
     (m_last m = Some idt \<longrightarrow>
        last_offset st = m_last_offset m \<and> m_last_offset m \<noteq> 1 \<and> m_last_offset m < 2 ^ 16))"

definition page_ok :: "page_id_t \<Rightarrow> byte list \<Rightarrow> bool" where
  "page_ok idt page \<longleftrightarrow> space idt < 2 ^ 32 \<and> page_no idt < 2 ^ 32 \<and> length page \<le> 2 ^ 16"

lemma skip_id_bytes:
  assumes "space idt < 2 ^ 32" "page_no idt < 2 ^ 32" "b AND 0x80 = 0"
  shows "skip_id b (id_bytes idt @ l, length (id_bytes idt) + n) st = ((l, n), st\<lparr>last_offset := 0\<rparr>)"
  using assms varint_round_trip(2) [OF assms(1), of "mlog_encode_varint (page_no idt) @ l"]
    varint_round_trip(2) [OF assms(2), of l]
  by (simp add: skip_id_def id_bytes_def Let_def)

lemma skip_id_same: "b AND 0x80 \<noteq> 0 \<Longrightarrow> skip_id b x st = (x, st)"
  by (cases x) (simp add: skip_id_def)

lemma apply_at_offset_logged:
  assumes "offset + last_offset st = off" "8 \<le> off" "off < length (frame st)" "length (frame st) \<le> 2 ^ 16"
    and "last_offset st \<noteq> 1" "0 < n"
  shows "apply_at_offset env type (mlog_encode_varint offset @ l) (length (mlog_encode_varint offset) + n) st =
    apply_data env type l n (st\<lparr>last_offset := off\<rparr>)"
proof -
  have o: "offset < 2 ^ 32" "offset < MIN_4BYTE" using assms(1,3,4) by (simp_all add: min_bytes)
  have "length (mlog_encode_varint offset) \<le> 3" using length_varint(1) [OF o(2)] by (simp add: varint_size_def)
  then show ?thesis
    using assms varint_round_trip [OF o(1), of l] by (simp add: apply_at_offset_def add.commute)
qed

text \<open>What the reader does with one record of the writer.\<close>

definition offset_bytes :: "byte \<Rightarrow> page_id_t \<Rightarrow> nat \<Rightarrow> mtr_t \<Rightarrow> byte list" where
  "offset_bytes type idt off m =
     (if type \<in> {WRITE, MEMSET, MEMMOVE}
      then mlog_encode_varint (if rel_page type idt True off m then off - m_last_offset m else off) else [])"

lemma log_apply_header:
  assumes pg: "page_ok idt page" and t: "type \<in> log_types"
    and len: "length p < 2 ^ 18" "0 < length p \<or> header_body type idt True off m \<noteq> []"
    and none: "type = INIT_PAGE \<or> type = FREE_PAGE \<Longrightarrow> length p = 0"
  shows "log_apply env (header_bytes type idt True (length p) off m @ p @ r) st =
    (case apply_record env type (offset_bytes type idt off m @ p @ r) (length (offset_bytes type idt off m) + length p)
            (if rel_page type idt True off m then st else st\<lparr>last_offset := 0\<rparr>) of
       Undefined \<Rightarrow> None | Return status st' \<Rightarrow> Some (status, st') | Next st' \<Rightarrow> log_apply env r st')"
proof -
  let ?b = "header_bytes type idt True (length p) off m" and ?rel = "rel_page type idt True off m"
  let ?o = "offset_bytes type idt off m" and ?st = "if ?rel then st else st\<lparr>last_offset := 0\<rparr>"
  note h = header_parse [OF t len none]
  have body: "header_body type idt True off m = (if ?rel then [] else id_bytes idt) @ ?o"
    by (simp add: header_body_def offset_bytes_def)
  have ne: "?b \<noteq> []" by (simp add: header_bytes_def Let_def)
  then have nth: "(?b @ p @ r) ! 0 = ?b ! 0" by (simp add: nth_append)
  have skip: "skip_id (?b ! 0) (parse_length (?b @ p @ r)) st = ((?o @ p @ r, length ?o + length p), ?st)"
  proof (cases ?rel)
    case True
    then show ?thesis using h(1) [of "p @ r"] h(3) by (simp add: body skip_id_same)
  next
    case False
    then show ?thesis
      using h(1) [of "p @ r"] h(3) pg by (simp add: body skip_id_bytes page_ok_def add.assoc)
  qed
  have "drop (length a + length p) (a @ p @ r) = r" for a :: "byte list" by simp
  moreover have "(?b @ p @ r = [] \<or> (?b @ p @ r) ! 0 = 0) = False" using ne nth h(4) by simp
  ultimately show ?thesis
    by (subst log_apply.simps) (simp only: nth skip h(2) if_False prod.case)
qed

lemma log_apply_record:
  assumes pg: "page_ok idt page" and f: "follows idt (page, m) st" and t: "type \<in> {WRITE, MEMSET, MEMMOVE}"
    and off: "8 \<le> off" "off < length page" and p: "0 < length p" "length p < 2 ^ 18"
  shows "log_apply env (header_bytes type idt True (length p) off m @ p @ r) st =
    (case apply_data env type (p @ r) (length p)
            (st\<lparr>last_offset := off\<rparr>) of
       Undefined \<Rightarrow> None | Return status st' \<Rightarrow> Some (status, st') | Next st' \<Rightarrow> log_apply env r st')"
proof -
  let ?rel = "rel_page type idt True off m"
  let ?o = "if ?rel then off - m_last_offset m else off" and ?st = "if ?rel then st else st\<lparr>last_offset := 0\<rparr>"
  have types: "type \<in> log_types" "type \<noteq> INIT_PAGE" "type \<noteq> FREE_PAGE" "type \<noteq> OPTION" "type \<noteq> EXTENDED"
    using t by (auto simp: log_types_def record_types)
  have none: "type = INIT_PAGE \<or> type = FREE_PAGE \<Longrightarrow> length p = 0" using types by blast
  have rel: "?o + last_offset ?st = off" "last_offset ?st \<noteq> 1" "frame ?st = page"
    using f t by (auto simp: follows_def rel_page_def same_page_as_def)
  have ob: "offset_bytes type idt off m = mlog_encode_varint ?o" using t by (simp add: offset_bytes_def)
  have "apply_record env type (mlog_encode_varint ?o @ p @ r) (length (mlog_encode_varint ?o) + length p) ?st =
    apply_data env type (p @ r) (length p) (?st\<lparr>last_offset := off\<rparr>)"
    using types t apply_at_offset_logged [OF rel(1) off(1) _ _ rel(2) p(1), of env type "p @ r"] off(2) pg rel(3)
    by (auto simp: apply_record_def page_ok_def)
  moreover have "?st\<lparr>last_offset := off\<rparr> = st\<lparr>last_offset := off\<rparr>" by simp
  ultimately show ?thesis
    using log_apply_header [OF pg types(1) p(2) disjI1 [OF p(1)] none, where off = off and m = m] unfolding ob by simp
qed

text \<open>One step of the writer that the reader can follow, whatever comes after it in the log.\<close>

definition replays :: "block_env \<Rightarrow> page_id_t \<Rightarrow> byte list \<times> mtr_t \<Rightarrow> byte list \<times> mtr_t \<Rightarrow> recv_page \<Rightarrow> bool" where
  "replays env idt s s' st \<longleftrightarrow>
     (\<exists>rec st'. m_log (snd s') = m_log (snd s) @ rec \<and> m_logged (snd s') = m_logged (snd s) \<and> follows idt s' st' \<and>
        (\<forall>r. log_apply env (rec @ r) st = log_apply env r st'))"

lemma replays_refl: "follows idt s st \<Longrightarrow> replays env idt s s st"
  unfolding replays_def by (rule exI [of _ "[]"], rule exI [of _ st]) simp

lemma replays_trans:
  assumes "replays env idt s1 s2 st" "\<And>st'. follows idt s2 st' \<Longrightarrow> replays env idt s2 s3 st'"
  shows "replays env idt s1 s3 st"
proof -
  obtain r1 st1 where r1: "m_log (snd s2) = m_log (snd s1) @ r1" "m_logged (snd s2) = m_logged (snd s1)"
    "follows idt s2 st1" "\<forall>r. log_apply env (r1 @ r) st = log_apply env r st1" using assms(1) by (auto simp: replays_def)
  obtain r2 st2 where r2: "m_log (snd s3) = m_log (snd s2) @ r2" "m_logged (snd s3) = m_logged (snd s2)"
    "follows idt s3 st2" "\<forall>r. log_apply env (r2 @ r) st1 = log_apply env r st2"
    using assms(2) [OF r1(3)] by (auto simp: replays_def)
  show ?thesis unfolding replays_def
    by (rule exI [of _ "r1 @ r2"], rule exI [of _ st2]) (use r1 r2 in simp)
qed

lemma replay_record:
  assumes pg: "page_ok idt page" and f: "follows idt (page, m) st" and t: "type \<in> {WRITE, MEMSET, MEMMOVE}"
    and off: "8 \<le> off" "off < length page" and p: "0 < length p" "length p < 2 ^ 18"
    and n: "0 < n" "off + n \<le> length page" and m': "m' = (log_write type idt True (length p) off m)
      \<lparr>m_log := m_log (log_write type idt True (length p) off m) @ p, m_last_offset := (off + n) mod 2 ^ 16\<rparr>"
    and ad: "\<And>r. apply_data env type (p @ r) (length p) (st\<lparr>last_offset := off\<rparr>) =
      next_after_applying_write n (st\<lparr>last_offset := off, frame := page', applied := a\<rparr>)"
  shows "replays env idt (page, m) (page', m') st"
proof -
  let ?rec = "header_bytes type idt True (length p) off m @ p"
  let ?st = "st\<lparr>last_offset := (off + n) mod 2 ^ 16, frame := page',
    applied := (if a = APPLIED_NO then APPLIED_YES else a)\<rparr>"
  have nx: "next_after_applying_write n (st\<lparr>last_offset := off, frame := page', applied := a\<rparr>) = Next ?st"
    by (simp add: next_after_applying_write_def next_after_applying_def)
  have "log_apply env (?rec @ r) st = log_apply env r ?st" for r
    using log_apply_record [OF pg f t off p, of env r] ad [of r] nx by simp
  moreover have "(off + n) mod 2 ^ 16 \<noteq> 1"
  proof -
    have "off + n = 2 ^ 16 \<or> off + n < 2 ^ 16" using n pg by (auto simp: page_ok_def)
    then show ?thesis using off(1) by auto
  qed
  then have "follows idt (page', m') ?st"
    unfolding m' log_write_eq using f by (simp add: follows_def rel_page_def same_page_as_def)
  moreover have "m_log m' = m_log m @ ?rec" "m_logged m' = m_logged m" unfolding m' log_write_eq by simp_all
  ultimately show ?thesis unfolding replays_def snd_conv by blast
qed

lemma replay_memcpy_low:
  assumes pg: "page_ok idt page" and f: "follows idt (page, m) st" and on: "m_logged m"
    and d: "data \<noteq> []" "8 \<le> off" "off + length data \<le> length page"
  shows "replays env idt (page, m) (put off data page, memcpy_low idt off data m) st"
proof (rule replay_record [OF pg f, where type = WRITE and off = off and p = data and n = "length data"])
  fix r
  have "frame st = page" using f by (simp add: follows_def)
  then show "apply_data env WRITE (data @ r) (length data) (st\<lparr>last_offset := off\<rparr>) =
    next_after_applying_write (length data)
      (st\<lparr>last_offset := off, frame := put off data page, applied := write_status env off (length data) (applied st)\<rparr>)"
    using d(3) by (simp add: apply_data_def)
  show "length data < 2 ^ 18" using d pg by (simp add: page_ok_def)
  have "off < length page" using d by (cases data) auto
  then show "off < length page" .
qed (use d on in \<open>auto simp: memcpy_low_def Let_def\<close>)

section \<open>Every operation can be replayed\<close>

lemma replay_memset:
  assumes pg: "page_ok idt page" and f: "follows idt (page, m) st" and on: "m_logged m"
    and len: "0 < len" "8 \<le> off" "off + len \<le> length page"
  shows "replays env idt (page, m) (mtr_memset idt off len val (page, m)) st"
proof -
  let ?p = "mlog_encode_varint len @ [val]"
  have l: "len < MIN_4BYTE" "len < 2 ^ 32" using len pg by (simp_all add: page_ok_def min_bytes)
  have ls: "length ?p = varint_size len + 1" using length_varint(1) [OF l(1)] by simp
  have e3: "length (mlog_encode_varint len) \<le> 3" using length_varint(1) [OF l(1)] by (simp add: varint_size_def)
  have fr: "frame st = page" using f by (simp add: follows_def)
  have "replays env idt (page, m) (put off (replicate len val) page, log_memset idt off len val m) st"
  proof (rule replay_record [OF pg f, where type = MEMSET and off = off and p = ?p and n = len])
    fix r
    show "apply_data env MEMSET (?p @ r) (length ?p) (st\<lparr>last_offset := off\<rparr>) =
      next_after_applying_write len (st\<lparr>last_offset := off, frame := put off (replicate len val) page, applied := applied st\<rparr>)"
      using varint_round_trip [OF l(2), of "[val] @ r"] e3 fr len(3)
      by (simp add: apply_data_def apply_memset_def record_types Let_def)
    show "length ?p < 2 ^ 18" using e3 by simp
    show "log_memset idt off len val m = (log_write MEMSET idt True (length ?p) off m)
      \<lparr>m_log := m_log (log_write MEMSET idt True (length ?p) off m) @ ?p, m_last_offset := (off + len) mod 2 ^ 16\<rparr>"
      unfolding ls log_memset_def using on by (simp add: Let_def)
  qed (use len in auto)
  then show ?thesis by (simp add: mtr_memset_def)
qed

lemma memset_repeat_ok:
  assumes "str \<noteq> []" "offset + k * length str \<le> length page" "j \<le> k"
  shows "memset_repeat offset (k * length str) str (j * length str) (put offset (concat (replicate j str)) page) =
    Some (put offset (concat (replicate k str)) page)"
  using assms(3)
proof (induction j rule: inc_induct)
  case base
  then show ?case by (subst memset_repeat.simps) simp
next
  case (step j)
  have "j * length str < k * length str" using step(1,2) assms(1) by simp
  moreover have "put (offset + j * length str) str (put offset (concat (replicate j str)) page) =
    put offset (concat (replicate (Suc j) str)) page"
    using put_adjacent [of offset page "concat (replicate j str)" str] assms(2)
    by (simp add: length_concat sum_list_replicate replicate_append_same [symmetric])
  ultimately show ?case
    using step(3) assms(1) by (subst memset_repeat.simps) (simp add: add.commute)
qed

text \<open>A repeated string that fills the area exactly.\<close>

lemma replay_memset_str:
  assumes pg: "page_ok idt page" and f: "follows idt (page, m) st" and on: "m_logged m"
    and str: "str \<noteq> []" "0 < k" "8 \<le> off" "off + k * length str \<le> length page"
  shows "replays env idt (page, m)
    (put off (concat (replicate k str)) page, log_memset_str idt off (k * length str) str m) st"
proof -
  let ?len = "k * length str"
  let ?p = "mlog_encode_varint ?len @ str"
  have pos: "0 < ?len" using str(1,2) by simp
  have l: "?len < MIN_4BYTE" "?len < 2 ^ 32" using str(4) pg by (simp_all add: page_ok_def min_bytes)
  have ls: "length ?p = varint_size ?len + length str" using length_varint(1) [OF l(1)] by simp
  have e3: "length (mlog_encode_varint ?len) \<le> 3" using length_varint(1) [OF l(1)] by (simp add: varint_size_def)
  have fr: "frame st = page" using f by (simp add: follows_def)
  have sl: "length str \<le> ?len" using str(2) by simp
  show ?thesis
  proof (rule replay_record [OF pg f, where type = MEMSET and off = off and p = ?p and n = ?len])
    fix r
    have "apply_memset (str @ r) (length str) ?len (st\<lparr>last_offset := off\<rparr>) =
      next_after_applying_write ?len
        (st\<lparr>last_offset := off, frame := put off (concat (replicate k str)) page, applied := applied st\<rparr>)"
    proof (cases "length str = 1")
      case True
      then obtain c where "str = [c]" by (metis length_Suc_conv length_0_conv One_nat_def)
      moreover have "concat (replicate k [c]) = replicate k c" by (induction k) auto
      ultimately show ?thesis using fr by (simp add: apply_memset_def)
    next
      case False
      then show ?thesis
        using memset_repeat_ok [OF str(1,4), of 0] fr by (simp add: apply_memset_def put_def)
    qed
    then show "apply_data env MEMSET (?p @ r) (length ?p) (st\<lparr>last_offset := off\<rparr>) =
      next_after_applying_write ?len
        (st\<lparr>last_offset := off, frame := put off (concat (replicate k str)) page, applied := applied st\<rparr>)"
      using varint_round_trip [OF l(2), of "str @ r"] e3 fr str(4)
      by (simp add: apply_data_def record_types Let_def)
    have "length page \<le> 65536" using pg by (simp add: page_ok_def)
    then have "length (mlog_encode_varint ?len) + length str \<le> 3 + 65536" using e3 sl str(4) by linarith
    then show "length ?p < 2 ^ 18" by simp
    show "log_memset_str idt off ?len str m = (log_write MEMSET idt True (length ?p) off m)
      \<lparr>m_log := m_log (log_write MEMSET idt True (length ?p) off m) @ ?p, m_last_offset := (off + ?len) mod 2 ^ 16\<rparr>"
      unfolding ls log_memset_str_def using on by (simp add: Let_def)
    show "off < length page" using str(4) pos by linarith
  qed (use str pos in auto)
qed

text \<open>The source of a MEMMOVE is coded relative to its destination, with the sign in the
  lowest bit.\<close>

definition memmove_code :: "nat \<Rightarrow> nat \<Rightarrow> nat" where
  "memmove_code d s = (if s > d then push_bit 1 (s - d) else push_bit 1 (d - s) OR 1) - push_bit 1 1"

lemma memmove_code_eq: "memmove_code d s = (if s > d then 2 * (s - d - 1) else 2 * (d - s) + 1 - 2)"
  unfolding memmove_code_def
  by (simp add: push_bit_eq_mult or_one_eq del: One_nat_def) arith

lemma memmove_code_decode:
  assumes "s \<noteq> d" "d < 2 ^ 16" "s < 2 ^ 16"
  shows "memmove_code d s < 2 ^ 18"
    and "(if memmove_code d s AND 1 \<noteq> 0 then (d + 2 ^ 32 - drop_bit 1 (memmove_code d s) - 1) mod 2 ^ 32
          else (d + drop_bit 1 (memmove_code d s) + 1) mod 2 ^ 32) = s"
proof -
  show "memmove_code d s < 2 ^ 18" unfolding memmove_code_eq using assms by (cases "s > d") simp_all
  show "(if memmove_code d s AND 1 \<noteq> 0 then (d + 2 ^ 32 - drop_bit 1 (memmove_code d s) - 1) mod 2 ^ 32
          else (d + drop_bit 1 (memmove_code d s) + 1) mod 2 ^ 32) = s"
  proof (cases "s > d")
    case True
    then have "memmove_code d s = 2 * (s - d - 1)" by (simp add: memmove_code_eq)
    then show ?thesis using True assms by (simp add: and_one_eq drop_bit_eq_div)
  next
    case False
    define k where "k = d - s - 1"
    have k: "d = s + k + 1" using False assms(1) by (simp add: k_def)
    have "memmove_code d s = 2 * k + 1" using k by (simp add: memmove_code_eq)
    moreover have "(s + k + 1 + 2 ^ 32 - k - 1) mod 2 ^ 32 = s" using assms(3) by simp
    ultimately show ?thesis using k by (simp add: and_one_eq drop_bit_eq_div)
  qed
qed

lemma replay_memmove:
  assumes pg: "page_ok idt page" and f: "follows idt (page, m) st" and on: "m_logged m"
    and d: "8 \<le> d" "d + len \<le> length page" and s: "8 \<le> s" "s + len \<le> length page" "s \<noteq> d" and len: "0 < len"
  shows "replays env idt (page, m) (page_memmove d s len page, log_memmove idt d s len m) st"
proof -
  let ?c = "memmove_code d s"
  let ?p = "mlog_encode_varint len @ mlog_encode_varint ?c"
  have sz: "length page \<le> 2 ^ 16" using pg by (simp add: page_ok_def)
  have b: "d < 2 ^ 16" "s < 2 ^ 16" using d(2) s(2) len sz by linarith+
  note c = memmove_code_decode [OF s(3) b]
  have l: "len < MIN_4BYTE" "len < 2 ^ 32" using d(2) sz by (simp_all add: min_bytes)
  have c4: "?c < MIN_4BYTE" "?c < 2 ^ 32" using c(1) by (simp_all add: min_bytes)
  have ls: "length ?p = varint_size len + varint_size ?c" using length_varint(1) [OF l(1)] length_varint(1) [OF c4(1)] by simp
  have e3: "length (mlog_encode_varint len) \<le> 3" "length (mlog_encode_varint ?c) \<le> 3"
    using length_varint(1) [OF l(1)] length_varint(1) [OF c4(1)] by (simp_all add: varint_size_def)
  have fr: "frame st = page" using f by (simp add: follows_def)
  have lm: "(s + len) mod 2 ^ 32 \<le> length page" using s(2) by (meson mod_less_eq_dividend order_trans)
  have lo: "last_offset (st\<lparr>last_offset := d\<rparr>) = d" by simp
  show ?thesis
  proof (rule replay_record [OF pg f, where type = MEMMOVE and off = d and p = ?p and n = len])
    fix r
    have "apply_memmove env (mlog_encode_varint ?c @ r) (length (mlog_encode_varint ?c)) len (st\<lparr>last_offset := d\<rparr>) =
      next_after_applying_write len
        (st\<lparr>last_offset := d, frame := page_memmove d s len page, applied := applied st\<rparr>)"
      unfolding apply_memmove_def Let_def lo varint_round_trip [OF c4(2)] c(2) using e3(2) fr lm s by simp
    then show "apply_data env MEMMOVE (?p @ r) (length ?p) (st\<lparr>last_offset := d\<rparr>) =
      next_after_applying_write len
        (st\<lparr>last_offset := d, frame := page_memmove d s len page, applied := applied st\<rparr>)"
      using varint_round_trip [OF l(2), of "mlog_encode_varint ?c @ r"] e3 fr d(2)
      by (simp add: apply_data_def record_types Let_def)
    show "length ?p < 2 ^ 18" using e3 by simp
    show "log_memmove idt d s len m = (log_write MEMMOVE idt True (length ?p) d m)
      \<lparr>m_log := m_log (log_write MEMMOVE idt True (length ?p) d m) @ ?p, m_last_offset := (d + len) mod 2 ^ 16\<rparr>"
      unfolding log_memmove_def Let_def memmove_code_def [symmetric] ls using on by simp
    show "0 < length ?p" unfolding ls by (simp add: varint_size_def)
  qed (use d len in auto)
qed

subsection \<open>Writes that skip equal bytes\<close>

lemma same_prefix_le: "same_prefix a b \<le> length b"
  by (induction a b rule: same_prefix.induct) auto

lemma same_prefix_take: "take (same_prefix a b) a = take (same_prefix a b) b"
  by (induction a b rule: same_prefix.induct) auto

lemma put_same_prefix:
  assumes "offset + length b \<le> length page" "p = same_prefix (drop offset page) b"
  shows "put (offset + p) (drop p b) page = put offset b page"
proof -
  have "p \<le> length b" using assms(2) same_prefix_le by simp
  moreover have "take (offset + p) page = take offset page @ take p b"
    using same_prefix_take [of "drop offset page" b] assms(2) by (simp add: take_add)
  ultimately show ?thesis by (simp add: put_def)
qed

lemma put_same: "same_prefix (drop offset page) b = length b \<Longrightarrow> put offset b page = page"
  using same_prefix_take [of "drop offset page" b]
  by (simp add: put_def) (metis append_take_drop_id drop_drop add.commute)

subsection \<open>Changes of whole pages\<close>

lemma encode_varint_not_Nil: "mlog_encode_varint n \<noteq> []"
  by (simp add: mlog_encode_varint_def Let_def)

text \<open>Such a record has no offset; after it, offsets are relative to that of the page type.\<close>

lemma replay_page:
  assumes pg: "page_ok idt page" and on: "m_logged m"
    and t: "type = INIT_PAGE \<and> p = [] \<or> type = EXTENDED \<and> 0 < length p \<and> length p < 2 ^ 18"
    and ar: "\<And>st' r. frame st' = page \<Longrightarrow> applied st' = applied st \<Longrightarrow>
      apply_record env type (p @ r) (length p) st' =
      next_after_applying (st'\<lparr>frame := page', last_offset := FIL_PAGE_TYPE\<rparr>)"
    and f: "follows idt (page, m) st"
    and m': "m' = (log_write type idt True (length p) 0 m)
      \<lparr>m_log := m_log (log_write type idt True (length p) 0 m) @ p, m_last_offset := FIL_PAGE_TYPE\<rparr>"
  shows "replays env idt (page, m) (page', m') st"
proof -
  let ?st = "st\<lparr>frame := page', last_offset := FIL_PAGE_TYPE,
    applied := (if applied st = APPLIED_NO then APPLIED_YES else applied st)\<rparr>"
  let ?rec = "header_bytes type idt True (length p) 0 m @ p"
  have types: "type \<in> log_types" "type \<notin> {WRITE, MEMSET, MEMMOVE}"
    using t by (auto simp: log_types_def record_types)
  have none: "type = INIT_PAGE \<or> type = FREE_PAGE \<Longrightarrow> length p = 0" using t by (auto simp: record_types)
  have hb: "0 < length p \<or> header_body type idt True 0 m \<noteq> []"
  proof (cases "type = INIT_PAGE")
    case True
    then show ?thesis by (simp add: header_body_def rel_page_def id_bytes_def encode_varint_not_Nil)
  next
    case False
    then show ?thesis using t by blast
  qed
  have lp: "length p < 2 ^ 18" using t by auto
  have "log_apply env (?rec @ r) st = log_apply env r ?st" for r
    using log_apply_header [OF pg types(1) lp hb none, of env r st] ar [of st r] ar [of "st\<lparr>last_offset := 0\<rparr>" r]
      f types(2)
    by (simp add: offset_bytes_def next_after_applying_def follows_def)
  moreover have "follows idt (page', m') ?st"
    unfolding m' log_write_eq using types(2) f
    by (auto simp: follows_def rel_page_def same_page_as_def FIL_PAGE_TYPE_def)
  moreover have "m_log m' = m_log m @ ?rec" "m_logged m' = m_logged m" unfolding m' log_write_eq by simp_all
  ultimately show ?thesis unfolding replays_def snd_conv by blast
qed

lemma length_page_ops [simp]:
  "256 \<le> length page \<Longrightarrow> length (page_create_low compact page) = length page"
  "256 \<le> length page \<Longrightarrow> length (trx_undo_page_init page) = length page"
  "256 \<le> length page \<Longrightarrow> length (fsp_apply_init_file_page idt page) = length page"
  by (simp_all add: page_create_low_def trx_undo_page_init_def fsp_apply_init_file_page_def Let_def
      infimum_supremum_redundant_def infimum_supremum_compact_def mach_write_to_4_def)

lemma replay_init:
  assumes "page_ok idt page" "m_logged m" "follows idt (page, m) st" "block_id env = idt"
  shows "replays env idt (page, m) (fsp_init_file_page idt (page, m)) st"
proof -
  have "replays env idt (page, m) (fsp_apply_init_file_page idt page, mtr_init idt m) st"
    by (rule replay_page [OF assms(1,2), where type = INIT_PAGE and p = "[]"])
      (use assms(2,3,4) in \<open>auto simp: apply_record_def record_types mtr_init_def\<close>)
  then show ?thesis by (simp add: fsp_init_file_page_def)
qed

text \<open>EXTENDED records are applied to uncompressed pages other than the first three.\<close>

lemma replay_extended:
  assumes "page_ok idt page" "m_logged m" "follows idt (page, m) st" "block_id env = idt" "3 \<le> page_no idt" "\<not> zipped env"
    and p: "length data < 2 ^ 17" "\<And>r. extended_subtype env type (data @ r, length data) page = Some (Some (False, page'))"
  shows "replays env idt (page, m)
    (page', (log_extended idt True (length data + 1) (type # data) m)\<lparr>m_last_offset := FIL_PAGE_TYPE\<rparr>) st"
  by (rule replay_page [OF assms(1,2), where type = EXTENDED and p = "type # data"])
    (use assms in \<open>auto simp: apply_record_def record_types apply_extended_def log_extended_def Let_def\<close>)

lemma replay_page_create:
  assumes "page_ok idt page" "m_logged m" "follows idt (page, m) st" "block_id env = idt" "3 \<le> page_no idt" "\<not> zipped env"
  shows "replays env idt (page, m) (page_create_logged idt compact (page, m)) st"
    and "replays env idt (page, m) (undo_page_create idt (page, m)) st"
  using replay_extended [OF assms, of "[]" "if compact then 1 else 0" "page_create_low compact page"]
    replay_extended [OF assms, of "[]" 2 "trx_undo_page_init page"] assms(2)
  by (simp_all add: extended_subtype_def page_create_logged_def page_create_def undo_page_create_def undo_create_def
      log_write_extended_def)

lemma replay_undo_add:
  assumes "page_ok idt page" "m_logged m" "follows idt (page, m) st" "block_id env = idt" "3 \<le> page_no idt" "\<not> zipped env"
    and room: "undo_room data page"
  shows "replays env idt (page, m) (undo_page_add idt data (page, m)) st"
proof -
  have d: "2 < length data" "length data < 2 ^ 17" using room by (auto simp: undo_room_def trx_undo_left_def)
  have "extended_subtype env 3 (data @ r, length data) page = Some (Some (False, snd (log_phys_undo_append data page)))" for r
    using undo_page_add_eq(2) [OF room] d(1) by (simp add: extended_subtype_def prod_eq_iff)
  from replay_extended [OF assms(1-6) d(2) this] show ?thesis
    using undo_page_add_eq(1) [OF room] assms(2) by (simp add: undo_append_def)
qed

subsection \<open>Writes\<close>

lemma length_int_bytes: "l \<in> {1, 2, 4, 8} \<Longrightarrow> length (int_bytes l val) = l"
  by (auto simp: int_bytes_def mach_write_to_4_def mach_write_to_8_def)

lemma replay_changed:
  assumes pg: "page_ok idt page" and f: "follows idt (page, m) st" and on: "m_logged m"
    and d: "8 \<le> ptr" "ptr + length buf \<le> length page" "buf \<noteq> []"
    and p: "p = (if w \<noteq> FORCED then same_prefix (drop ptr page) buf else 0)" "p \<noteq> length buf"
  shows "replays env idt (page, m) (put ptr buf page,
    memcpy_low idt ((ptr + p) mod 2 ^ 16) (take (length buf - p) (drop (ptr + p) (put ptr buf page))) m) st"
proof -
  have le: "p < length buf" using p same_prefix_le [of "drop ptr page" buf] d(3) by (auto split: if_splits)
  have sz: "length page \<le> 2 ^ 16" using pg by (simp add: page_ok_def)
  then have "ptr + p < 2 ^ 16" using le d(2) by linarith
  then have md: "(ptr + p) mod 2 ^ 16 = ptr + p" by simp
  have new: "put (ptr + p) (drop p buf) page = put ptr buf page"
    using p(1) put_same_prefix [OF d(2)] by (auto split: if_splits)
  have data: "take (length buf - p) (drop (ptr + p) (put ptr buf page)) = drop p buf"
    using drop_put [of "ptr + p" page "drop p buf"] le d(2) unfolding new by simp
  show ?thesis
    using replay_memcpy_low [OF pg f on, of "drop p buf" "ptr + p" env] le d unfolding md data new by simp
qed

lemma replay_write:
  assumes pg: "page_ok idt page" and f: "follows idt (page, m) st" and on: "m_logged m"
    and d: "8 \<le> ptr" "ptr + l \<le> length page" "l \<in> {1, 2, 4, 8}"
  shows "replays env idt (page, m) (snd (mtr_write l w idt ptr val (page, m))) st"
proof -
  let ?p = "if w \<noteq> FORCED then same_prefix (drop ptr page) (int_bytes l val) else 0"
  have l: "length (int_bytes l val) = l" by (rule length_int_bytes [OF d(3)])
  then have ne: "int_bytes l val \<noteq> []" "?p = l \<Longrightarrow> w \<noteq> FORCED" using d(3) by (auto split: if_splits)
  show ?thesis
  proof (cases "?p = l")
    case True
    then show ?thesis using on ne(2) replays_refl [OF f] by (simp add: mtr_write_def)
  next
    case False
    have "?p \<noteq> length (int_bytes l val)" using False l by simp
    from replay_changed [OF pg f on d(1) _ ne(1) refl this, of env] show ?thesis
      using False on d(2) l by (simp add: mtr_write_def Let_def)
  qed
qed

lemma replay_memcpy:
  assumes pg: "page_ok idt page" and f: "follows idt (page, m) st" and on: "m_logged m"
    and d: "8 \<le> dest" "dest + length str \<le> length page" "str \<noteq> []"
  shows "replays env idt (page, m) (mtr_memcpy w idt dest str (page, m)) st"
proof -
  let ?p = "if w \<noteq> FORCED then same_prefix (drop dest page) str else 0"
  have ne: "?p = length str \<Longrightarrow> w \<noteq> FORCED" using d(3) by (auto split: if_splits)
  have new: "put (dest + ?p) (drop ?p str) page = put dest str page" using put_same_prefix [OF d(2)] by simp
  show ?thesis
  proof (cases "?p = length str")
    case True
    then show ?thesis using on ne replays_refl [OF f] by (simp add: mtr_memcpy_def)
  next
    case False
    from replay_changed [OF pg f on d refl this, of env] show ?thesis
      using False on new by (simp add: mtr_memcpy_def log_memcpy_def Let_def)
  qed
qed

end
