(* ===== verification/Index_Write.thy ===== *)
theory Index_Write
  imports Index_Page
begin

text \<open>
  Inserting and deleting records of index pages in a mini-transaction, and the log of it: \<open>page_cur_insert_rec_low\<close>,
  \<open>page_cur_delete_rec\<close>, \<open>page_mem_alloc_heap\<close> and \<open>mtr_t::page_insert\<close> of \<open>src/storage/innobase/page/page0cur.cc\<close>, and
  \<open>page_dir_find_owner_slot\<close> and \<open>page_create_empty\<close> of \<open>src/storage/innobase/page/page0page.cc\<close>. What the
  code knows of records from the data dictionary (\<open>rec_get_offsets\<close>) are arguments: the sizes of headers and data.
\<close>

unbundle bit_operations_syntax

section \<open>The log records\<close>

definition page_insert_dynamic ::
  "page_id_t \<Rightarrow> bool \<Rightarrow> nat \<Rightarrow> byte \<Rightarrow> int \<Rightarrow> nat \<Rightarrow> nat \<Rightarrow> byte list \<Rightarrow> byte list \<Rightarrow> mtr_t \<Rightarrow> mtr_t" where
  "page_insert_dynamic idt reuse prev_rec info_status shift hdr_c data_c hdr data m =
     (let enc_hdr_l = push_bit 3 (length hdr) OR unat (info_status AND 4) OR unat (drop_bit 4 info_status);
          shift = (if shift < 0 then push_bit 1 (nat (- shift)) OR 1 else push_bit 1 (nat shift));
          len = 1 + varint_size prev_rec + (if reuse then varint_size shift else 0) +
                (if hdr_c < MIN_2BYTE then 1 else 2) + varint_size enc_hdr_l + varint_size data_c + (length hdr + length data)
      in (log_extended idt True len
            ([if reuse then 7 else 6] @ mlog_encode_varint prev_rec @ (if reuse then mlog_encode_varint shift else []) @
             mlog_encode_varint enc_hdr_l @ mlog_encode_varint hdr_c @ mlog_encode_varint data_c @ hdr @ data) m)
         \<lparr>m_last_offset := FIL_PAGE_TYPE\<rparr>)"

definition page_insert_redundant ::
  "page_id_t \<Rightarrow> bool \<Rightarrow> nat \<Rightarrow> byte \<Rightarrow> nat \<Rightarrow> nat \<Rightarrow> nat \<Rightarrow> byte list \<Rightarrow> byte list \<Rightarrow> mtr_t \<Rightarrow> mtr_t" where
  "page_insert_redundant idt reuse prev_rec info_bits n_fields_s hdr_c data_c hdr data m =
     (let n_fields_s = push_bit 2 (n_fields_s - 2) OR unat (drop_bit 4 info_bits);
          len = 1 + varint_size prev_rec + (if n_fields_s < MIN_2BYTE then 1 else 2) +
                (if hdr_c < MIN_2BYTE then 1 else 2) + (if data_c < MIN_2BYTE then 1 else 2) + (length hdr + length data)
      in (log_extended idt True len
            ([if reuse then 5 else 4] @ mlog_encode_varint prev_rec @ mlog_encode_varint n_fields_s @
             mlog_encode_varint hdr_c @ mlog_encode_varint data_c @ hdr @ data) m)
         \<lparr>m_last_offset := FIL_PAGE_TYPE\<rparr>)"

section \<open>Space for a record\<close>

definition page_dir_calc_reserved_space :: "nat \<Rightarrow> nat" where
  "page_dir_calc_reserved_space n_recs = (2 * n_recs + PAGE_DIR_SLOT_MIN_N_OWNED - 1) div PAGE_DIR_SLOT_MIN_N_OWNED"

definition page_get_free_space_of_empty :: "bool \<Rightarrow> nat \<Rightarrow> nat" where
  "page_get_free_space_of_empty is_comp n =
     n - (if is_comp then PAGE_NEW_SUPREMUM_END else PAGE_OLD_SUPREMUM_END) - PAGE_DIR - 2 * 2"

definition page_get_max_insert_size :: "byte list \<Rightarrow> nat \<Rightarrow> nat" where
  "page_get_max_insert_size page n_recs =
     (let is_comp = page_is_comp page;
          occupied = (page_header_get_field page PAGE_HEAP_TOP + 2 ^ 64 -
              (if is_comp then PAGE_NEW_SUPREMUM_END else PAGE_OLD_SUPREMUM_END) +
              page_dir_calc_reserved_space (n_recs + page_dir_get_n_heap page - 2)) mod 2 ^ 64;
          free_space = page_get_free_space_of_empty is_comp (length page)
      in if occupied > free_space then 0 else free_space - occupied)"

text \<open>The start of the space, the heap number and the page; None if there is not enough space.\<close>

definition page_mem_alloc_heap :: "nat \<Rightarrow> byte list \<Rightarrow> (nat \<times> nat \<times> byte list) option" where
  "page_mem_alloc_heap need page =
     (let ptop = page_header_get_field page PAGE_HEAP_TOP;
          h = page_header_get_field page PAGE_N_HEAP
      in if need > page_get_max_insert_size page 1 then None
         else if (h + 1) AND 0x6000 \<noteq> 0 then None
         else let page = page_header_set_field PAGE_HEAP_TOP (ptop + need) page;
                  page = page_header_set_field PAGE_N_HEAP (h + 1) page
              in Some (ptop, h AND 0x7FFF, page))"

text \<open>
  The space for a record of which the header and the size are given, in the first free record, whose sizes are given
  too, or on the heap: whether a free record is used, how far its origin moves, the heap number and the start of the space. The inner
  None is for no space.
\<close>

definition insert_alloc ::
  "bool \<Rightarrow> nat \<Rightarrow> nat \<Rightarrow> nat \<Rightarrow> nat \<Rightarrow> byte list \<Rightarrow> (bool \<times> int \<times> nat \<times> nat \<times> byte list) option option" where
  "insert_alloc is_comp extra_size rec_size fextra_size fdata_size page =
     (let free_rec = page_header_get_field page PAGE_FREE
      in if free_rec \<noteq> 0 \<and> \<not> fextra_size + fdata_size < rec_size then do {
           heap_no \<leftarrow> (if is_comp then rec_get_heap_no_new page free_rec else rec_get_heap_no_old page free_rec);
           next_free \<leftarrow> get_2 page free_rec REC_NEXT;
           let page = page_header_set_field PAGE_FREE
             (if is_comp then if next_free \<noteq> 0 then (free_rec + next_free) mod 2 ^ 16 else 0 else next_free) page;
           let page = page_header_set_field PAGE_GARBAGE
             ((page_header_get_field page PAGE_GARBAGE + 2 ^ 64 - rec_size) mod 2 ^ 64) page;
           if free_rec < fextra_size then None
           else Some (Some (True, int extra_size - int fextra_size, heap_no, free_rec - fextra_size, page))
         }
         else (case page_mem_alloc_heap rec_size page of None \<Rightarrow> Some None
               | Some (ptop, heap_no, page) \<Rightarrow> Some (Some (False, 0, heap_no, ptop, page))))"

section \<open>Finding the owner of a record\<close>

text \<open>The walk to the owner of a record in the insertion does not check what it reads.\<close>

partial_function (option) next_owner :: "bool \<Rightarrow> byte list \<Rightarrow> nat \<Rightarrow> (nat \<times> nat) option" where
  "next_owner is_comp page r = do {
     n_owned \<leftarrow> rec_get_n_owned is_comp page r;
     if n_owned \<noteq> 0 then Some (r, n_owned)
     else do {
       r \<leftarrow> rec_get_next_offs page r is_comp;
       next_owner is_comp page r
     }
   }"

text \<open>The slot of the owner of a record: the inner None is \<open>ULINT_UNDEFINED\<close>.\<close>

partial_function (option) owner_checked :: "bool \<Rightarrow> byte list \<Rightarrow> nat \<Rightarrow> nat option option" where
  "owner_checked is_comp page r = do {
     n_owned \<leftarrow> rec_get_n_owned is_comp page r;
     if n_owned \<noteq> 0 then Some (Some r)
     else do {
       next_rec \<leftarrow> page_rec_get_next_low page r is_comp;
       (case next_rec of None \<Rightarrow> Some None
        | Some r \<Rightarrow>
            if r < (if is_comp then PAGE_NEW_SUPREMUM else PAGE_OLD_SUPREMUM) \<or>
               \<not> r < page_dir_get_nth_slot page (page_dir_get_n_slots page - 1)
            then Some None else owner_checked is_comp page r)
     }
   }"

definition page_dir_find_owner_slot :: "byte list \<Rightarrow> nat \<Rightarrow> nat option option" where
  "page_dir_find_owner_slot page r = do {
     owner \<leftarrow> owner_checked (page_is_comp page) page r;
     Some (case owner of None \<Rightarrow> None
           | Some r \<Rightarrow>
               (case find_slot page r (page_dir_get_n_slots page - 1) of Some s \<Rightarrow> Some s
                | None \<Rightarrow>
                    if take 2 (drop (page_dir_get_nth_slot page 0) page) = mach_write_to_2 r then Some 0 else None))
   }"

section \<open>Inserting a record\<close>

text \<open>
  The fixed part of the header of the new record: no records are owned, the heap number, and the place in the list of records. The status
  byte is the one of the record that was copied.
\<close>

definition link_record :: "bool \<Rightarrow> nat \<Rightarrow> nat \<Rightarrow> nat \<Rightarrow> nat \<Rightarrow> byte list \<Rightarrow> byte list \<Rightarrow> byte list option" where
  "link_record is_comp cur insert_rec next_rec heap_no hdr page =
     (if is_comp then do {
        page \<leftarrow> rec_set_bit_field_1 insert_rec 0 5 0x0F 0 page;
        status \<leftarrow> get_1 hdr (length hdr) 3;
        page \<leftarrow> set_1 insert_rec 3 status page;
        page \<leftarrow> rec_set_bit_field_2 insert_rec heap_no 4 0xFFF8 3 page;
        page \<leftarrow> set_2 insert_rec REC_NEXT ((next_rec + 2 ^ 16 - insert_rec) mod 2 ^ 16) page;
        set_2 cur REC_NEXT ((insert_rec + 2 ^ 16 - cur) mod 2 ^ 16) page
      }
      else do {
        page \<leftarrow> rec_set_bit_field_1 insert_rec 0 6 0x0F 0 page;
        page \<leftarrow> rec_set_bit_field_2 insert_rec heap_no 5 0xFFF8 3 page;
        next_field \<leftarrow> get_bytes 2 page cur REC_NEXT;
        page \<leftarrow> set_bytes insert_rec REC_NEXT next_field page;
        set_2 cur REC_NEXT insert_rec page
      })"

text \<open>
  The number of header bytes in common with the preceding record. Both headers are given from the fixed part downwards; the
  loop does not count the last byte.
\<close>

fun header_common :: "byte list \<Rightarrow> byte list \<Rightarrow> nat" where
  "header_common (r # rs) (c # cs) = (if r = c \<and> cs \<noteq> [] then Suc (header_common rs cs) else 0)"
| "header_common _ _ = 0"

definition hdr_common :: "bool \<Rightarrow> nat \<Rightarrow> byte list \<Rightarrow> byte list \<Rightarrow> nat option" where
  "hdr_common is_comp cur hdr page =
     (let extra_size = length hdr;
          fixed = (if is_comp then REC_N_NEW_EXTRA_BYTES else REC_N_OLD_EXTRA_BYTES);
          bottom = (if is_comp then PAGE_NEW_SUPREMUM_END else PAGE_OLD_SUPREMUM_END) + fixed
      in if (is_comp \<longrightarrow> extra_size > fixed) \<and> cur \<ge> bottom + extra_size then do {
           c \<leftarrow> get_bytes (extra_size - fixed) page cur extra_size;
           Some (header_common (rev (take (extra_size - fixed) hdr)) (rev c))
         }
         else Some 0)"

text \<open>Where the search for common data stops.\<close>

definition common_end :: "bool \<Rightarrow> nat \<Rightarrow> nat \<Rightarrow> nat \<Rightarrow> nat \<Rightarrow> byte list \<Rightarrow> nat" where
  "common_end is_comp cur data_size insert_buf owner page =
     (let c_end = cur + (if (cur = PAGE_NEW_INFIMUM \<or> cur = PAGE_OLD_INFIMUM) \<and> data_size > 8 then 8 else data_size);
          fixed = (if is_comp then REC_N_NEW_EXTRA_BYTES else REC_N_OLD_EXTRA_BYTES)
      in if cur \<le> insert_buf \<and> c_end > insert_buf then insert_buf
         else if c_end < owner \<and> c_end + fixed \<ge> owner then owner - fixed
         else min c_end (length page - PAGE_DIR - 2 * page_dir_get_n_slots page))"

text \<open>What is logged: the literal bytes of the header are read in the page.\<close>

definition log_insert ::
  "bool \<Rightarrow> page_id_t \<Rightarrow> bool \<Rightarrow> int \<Rightarrow> nat \<Rightarrow> nat \<Rightarrow> nat \<Rightarrow> byte list \<Rightarrow> byte list \<Rightarrow> byte list \<Rightarrow> mtr_t \<Rightarrow> mtr_t option" where
  "log_insert is_comp idt reuse free_offset cur insert_buf owner hdr data page m = do {
     let extra_size = length hdr;
     let c_end = common_end is_comp cur (length data) insert_buf owner page;
     info_status \<leftarrow> rec_get_info_and_status_bits (hdr @ data) extra_size is_comp;
     hdr_c \<leftarrow> hdr_common is_comp cur hdr page;
     c \<leftarrow> (if c_end < cur then None else get_bytes (c_end - cur) page cur 0);
     let data_c = same_prefix c data;
     if is_comp then do {
       lit \<leftarrow> get_bytes (extra_size - hdr_c - REC_N_NEW_EXTRA_BYTES) page insert_buf 0;
       Some (page_insert_dynamic idt reuse (cur - PAGE_NEW_INFIMUM) info_status free_offset hdr_c data_c lit
               (drop data_c data) m)
     }
     else do {
       lit \<leftarrow> get_bytes (extra_size - hdr_c - REC_N_OLD_EXTRA_BYTES) page insert_buf 0;
       n_fields \<leftarrow> rec_get_n_fields_old page (insert_buf + extra_size);
       short \<leftarrow> rec_get_1byte_offs_flag page (insert_buf + extra_size);
       Some (page_insert_redundant idt reuse (cur - PAGE_OLD_INFIMUM) info_status (push_bit 1 n_fields OR of_bool short)
               hdr_c data_c lit (drop data_c data) m)
     }
   }"

text \<open>The end of the insertion: the slot of an owner that owned the maximum is split.\<close>

definition split_owner_slot :: "nat \<Rightarrow> nat \<Rightarrow> nat \<Rightarrow> byte list \<Rightarrow> mtr_t \<Rightarrow> (nat option \<times> byte list \<times> mtr_t) option" where
  "split_owner_slot n_owned owner insert_rec page m =
     (if n_owned = PAGE_DIR_SLOT_MAX_N_OWNED then do {
        slot \<leftarrow> page_dir_find_owner_slot page owner;
        (case slot of None \<Rightarrow> Some (None, page, m)
         | Some s \<Rightarrow> do {
             (failed, page) \<leftarrow> page_dir_split_slot (page_dir_get_nth_slot page s) page;
             Some (if failed then None else Some insert_rec, page, m)
           })
      }
      else Some (Some insert_rec, page, m))"

text \<open>
  The record to insert is given by its header, the fixed part at its end, and its data; it is inserted behind the record
  \<open>cur\<close>. The result is the new record, or None for the null pointer.
\<close>

definition page_cur_insert_rec_low ::
  "page_id_t \<Rightarrow> nat \<Rightarrow> byte list \<Rightarrow> byte list \<Rightarrow> nat \<Rightarrow> nat \<Rightarrow> byte list \<times> mtr_t \<Rightarrow> (nat option \<times> byte list \<times> mtr_t) option" where
  "page_cur_insert_rec_low idt cur hdr data fextra_size fdata_size = (\<lambda>(page, m). do {
     let is_comp = page_is_comp page;
     let extra_size = length hdr;
     place \<leftarrow> insert_alloc is_comp extra_size (extra_size + length data) fextra_size fdata_size page;
     (case place of None \<Rightarrow> Some (None, page, m)
      | Some (reuse, free_offset, heap_no, insert_buf, page) \<Rightarrow> do {
          next_rec \<leftarrow> rec_get_next_offs page cur is_comp;
          let insert_rec = insert_buf + extra_size;
          let last_insert = page_header_get_field page PAGE_LAST_INSERT;
          let page = page_header_set_field PAGE_LAST_INSERT insert_rec page;
          let page = update_direction last_insert cur next_rec page;
          let page = page_header_set_field PAGE_N_RECS (page_get_n_recs page + 1) page;
          page \<leftarrow> set_bytes insert_buf 0 (hdr @ data) page;
          page \<leftarrow> link_record is_comp cur insert_rec next_rec heap_no hdr page;
          (owner, n_owned) \<leftarrow> next_owner is_comp page next_rec;
          page \<leftarrow> rec_set_bit_field_1 owner (n_owned + 1) (if is_comp then 5 else 6) 0x0F 0 page;
          m \<leftarrow> (if m_logged m
                then log_insert is_comp idt reuse free_offset cur insert_buf owner hdr data page m else Some m);
          split_owner_slot n_owned owner insert_rec page m
        })
   })"

section \<open>Deleting a record\<close>

text \<open>What the code knows of the index of a page.\<close>

record index_info =
  sec_or_ibuf :: bool
  temporary :: bool
  root_page :: nat
  spatial :: bool
  not_redundant :: bool

definition page_get_max_trx_id :: "byte list \<Rightarrow> nat" where
  "page_get_max_trx_id page = mach_read_from_8 (drop (PAGE_HEADER + 18) page)"

definition page_create_empty :: "page_id_t \<Rightarrow> index_info \<Rightarrow> byte list \<times> mtr_t \<Rightarrow> byte list \<times> mtr_t" where
  "page_create_empty idt ix s =
     (let page = fst s;
          max_trx_id =
            (if sec_or_ibuf ix \<and> \<not> temporary ix \<and> page_is_leaf page then page_get_max_trx_id page
             else if page_no idt = root_page ix then page_get_max_trx_id page else 0);
          s = page_create_logged idt (not_redundant ix) s;
          s = (if spatial ix then
                 let s = snd (mtr_write 1 NORMAL idt (FIL_PAGE_TYPE + 1) (17854 mod 256) s)
                 in if mach_read_from_8 (drop 26 (fst s)) \<noteq> 0 then mtr_memset idt 26 8 0 s else s
               else s)
      in if max_trx_id \<noteq> 0 then snd (mtr_write 8 NORMAL idt (PAGE_HEADER + 18) max_trx_id s) else s)"

definition rec_is_alter_metadata :: "byte list \<Rightarrow> nat \<Rightarrow> bool \<Rightarrow> bool option" where
  "rec_is_alter_metadata page r is_comp = do {
     info \<leftarrow> rec_get_info_bits page r is_comp;
     Some (NOT info AND 0x30 = 0)
   }"

text \<open>The predecessor of a record, searched from another record: the inner None is for a corrupted page.\<close>

partial_function (option) find_prev :: "bool \<Rightarrow> byte list \<Rightarrow> nat \<Rightarrow> nat option \<Rightarrow> nat \<Rightarrow> nat option option option" where
  "find_prev is_comp page current prev r =
     (if current = r then Some (Some prev)
      else do {
        next_rec \<leftarrow> page_rec_get_next_low page r is_comp;
        (case next_rec of None \<Rightarrow> Some None | Some r' \<Rightarrow> find_prev is_comp page current (Some r) r')
      })"

definition page_cur_delete_rec ::
  "page_id_t \<Rightarrow> index_info \<Rightarrow> nat \<Rightarrow> nat \<Rightarrow> nat \<Rightarrow> byte list \<times> mtr_t \<Rightarrow> (byte list \<times> mtr_t) option" where
  "page_cur_delete_rec idt ix current extra_size data_size = (\<lambda>(page, m). do {
     let is_comp = page_is_comp page;
     metadata \<leftarrow> rec_is_alter_metadata page current (not_redundant ix);
     if page_get_n_recs page = 1 \<and> \<not> metadata then Some (page_create_empty idt ix (page, m))
     else do {
       found \<leftarrow> page_dir_find_owner_slot page current;
       (case found of None \<Rightarrow> Some (page, m)
        | Some slot_no \<Rightarrow>
            if slot_no = 0 then Some (page, m)
            else do {
              let slot = page_dir_get_nth_slot page slot_no;
              n_owned \<leftarrow> page_dir_slot_get_n_owned page slot;
              lower \<leftarrow> page_dir_slot_get_rec page (slot + 2);
              before \<leftarrow> find_prev is_comp page current None lower;
              (case before of None \<Rightarrow> Some (page, m)
               | Some None \<Rightarrow> None
               | Some (Some prev_rec) \<Rightarrow> do {
                   after \<leftarrow> page_rec_get_next_low page current is_comp;
                   (case after of None \<Rightarrow> Some (page, m)
                    | Some next_rec \<Rightarrow> do {
                        slot_rec \<leftarrow> page_dir_slot_get_rec page slot;
                        let m = (if is_comp
                          then page_delete_dynamic idt (prev_rec - PAGE_NEW_INFIMUM) (extra_size - REC_N_NEW_EXTRA_BYTES)
                                 data_size m
                          else page_delete_redundant idt (prev_rec - PAGE_OLD_INFIMUM) m);
                        next_offs \<leftarrow> (if is_comp then Some next_rec else get_2 page current REC_NEXT);
                        page \<leftarrow> unlink_record is_comp prev_rec current next_offs slot_rec slot_no (n_owned - 1)
                          data_size extra_size page;
                        Some (page, m)
                      })
                 })
            })
     }
   })"

declare next_owner.simps [code] owner_checked.simps [code] find_prev.simps [code]

end
