(* ===== verification/Page_Writes.thy ===== *)
theory Page_Writes
  imports Index_Page
begin

text \<open>
  Pages that were changed in several places, as sequences of writes: what a page holds afterwards, that the order of writes to disjoint areas does not
  matter, and the accessors of pages in these terms.
\<close>

unbundle bit_operations_syntax

section \<open>Sequences of writes\<close>

definition writes :: "(nat \<times> byte list) list \<Rightarrow> byte list \<Rightarrow> byte list" where
  "writes ws page = fold (\<lambda>(a, b). put a b) ws page"

definition within :: "nat \<Rightarrow> (nat \<times> byte list) list \<Rightarrow> bool" where
  "within n ws \<longleftrightarrow> (\<forall>w \<in> set ws. fst w + length (snd w) \<le> n)"

text \<open>No write touches the \<open>k\<close> bytes at an offset.\<close>

definition clear :: "nat \<Rightarrow> nat \<Rightarrow> (nat \<times> byte list) list \<Rightarrow> bool" where
  "clear a k ws \<longleftrightarrow> (\<forall>w \<in> set ws. a + k \<le> fst w \<or> fst w + length (snd w) \<le> a)"

fun apart :: "(nat \<times> byte list) list \<Rightarrow> bool" where
  "apart [] \<longleftrightarrow> True"
| "apart (w # ws) \<longleftrightarrow> clear (fst w) (length (snd w)) ws \<and> apart ws"

lemma within_simps [simp]:
  "within n []" "within n (w # ws) \<longleftrightarrow> fst w + length (snd w) \<le> n \<and> within n ws"
  "within n (ws @ ws') \<longleftrightarrow> within n ws \<and> within n ws'"
  by (auto simp: within_def)

lemma clear_simps [simp]:
  "clear a k []"
  "clear a k (w # ws) \<longleftrightarrow> (a + k \<le> fst w \<or> fst w + length (snd w) \<le> a) \<and> clear a k ws"
  "clear a k (ws @ ws') \<longleftrightarrow> clear a k ws \<and> clear a k ws'"
  by (auto simp: clear_def)

lemma clear_part: "clear a n ws \<Longrightarrow> a \<le> b \<Longrightarrow> b + k \<le> a + n \<Longrightarrow> clear b k ws"
  by (fastforce simp: clear_def)

lemma writes_simps:
  "writes [] page = page" "writes (w # ws) page = writes ws (put (fst w) (snd w) page)"
  "writes (ws @ ws') page = writes ws' (writes ws page)"
  by (simp_all add: writes_def case_prod_unfold)

lemma length_writes [simp]: "within (length page) ws \<Longrightarrow> length (writes ws page) = length page"
  by (induction ws arbitrary: page) (auto simp: writes_simps)

lemma put_writes: "put a b (writes ws page) = writes (ws @ [(a, b)]) page"
  by (simp add: writes_simps)

lemma nth_writes_clear:
  "within (length page) ws \<Longrightarrow> clear i 1 ws \<Longrightarrow> i < length page \<Longrightarrow> writes ws page ! i = page ! i"
  by (induction ws arbitrary: page) (auto simp: writes_simps nth_put)

lemma area_writes:
  assumes "within (length page) ws" "clear a k ws" "a + k \<le> length page"
  shows "take k (drop a (writes ws page)) = take k (drop a page)"
proof (rule nth_equalityI)
  fix i
  assume "i < length (take k (drop a (writes ws page)))"
  moreover from this have "clear (a + i) 1 ws" using assms by (fastforce simp: clear_def)
  ultimately show "take k (drop a (writes ws page)) ! i = take k (drop a page) ! i"
    using nth_writes_clear [of page ws "a + i"] assms by simp
qed (use assms in simp)

lemma nth_writes_hit:
  assumes "within (length page) ws" "apart ws" "w \<in> set ws" "fst w \<le> i" "i < fst w + length (snd w)"
  shows "writes ws page ! i = snd w ! (i - fst w)"
  using assms
proof (induction ws arbitrary: page)
  case (Cons v ws)
  let ?page = "put (fst v) (snd v) page"
  have len: "length ?page = length page" using Cons.prems(1) by simp
  show ?case
  proof (cases "w \<in> set ws")
    case True
    then show ?thesis using Cons len by (simp add: writes_simps)
  next
    case False
    then have w: "w = v" using Cons.prems(3) by simp
    have i: "i < length page" using Cons.prems(1,5) w by simp
    have "clear i 1 ws" using Cons.prems(2,4,5) w by (fastforce simp: clear_def)
    then show ?thesis
      using nth_writes_clear [of ?page ws i] Cons.prems(1,4,5) w i len by (simp add: writes_simps nth_put)
  qed
qed simp

text \<open>The order of writes to disjoint areas does not matter.\<close>

lemma writes_same_set:
  assumes "set ws = set ws'" "apart ws" "apart ws'" "within (length page) ws"
  shows "writes ws page = writes ws' page"
proof (rule nth_equalityI)
  have ws': "within (length page) ws'" using assms(1,4) by (simp add: within_def)
  then show "length (writes ws page) = length (writes ws' page)" using assms(4) by simp
  fix i
  assume "i < length (writes ws page)"
  then have i: "i < length page" using assms(4) by simp
  show "writes ws page ! i = writes ws' page ! i"
  proof (cases "clear i 1 ws")
    case True
    moreover from this have "clear i 1 ws'" using assms(1) by (simp add: clear_def)
    ultimately show ?thesis using nth_writes_clear i assms(4) ws' by simp
  next
    case False
    then obtain w where w: "w \<in> set ws" "fst w \<le> i" "i < fst w + length (snd w)" by (auto simp: clear_def)
    then show ?thesis
      using nth_writes_hit [OF assms(4,2) w(1-3)] nth_writes_hit [OF ws' assms(3), of w i] assms(1) by simp
  qed
qed

lemma apart_append:
  "apart (xs @ ys) \<longleftrightarrow> apart xs \<and> apart ys \<and> (\<forall>x \<in> set xs. clear (fst x) (length (snd x)) ys)"
  by (induction xs) auto

lemma apart_middle: "apart (xs @ w # ys) \<longleftrightarrow> apart (w # xs @ ys)"
  by (induction xs) auto

lemma apart_mset: "mset ws = mset ws' \<Longrightarrow> apart ws \<Longrightarrow> apart ws'"
proof (induction ws arbitrary: ws')
  case (Cons w ws)
  then obtain xs ys where ws': "ws' = xs @ w # ys" by (metis list.set_intros(1) set_mset_mset split_list)
  then have "mset ws = mset (xs @ ys)" using Cons.prems(1) by simp
  moreover from this have "set ws = set (xs @ ys)" by (rule mset_eq_setD)
  then have "clear (fst w) (length (snd w)) (xs @ ys)" using Cons.prems(2) unfolding apart.simps clear_def by simp
  ultimately show ?case using Cons.IH [of "xs @ ys"] Cons.prems(2) ws' by (simp add: apart_middle)
qed simp

text \<open>The order of writes to disjoint areas does not matter.\<close>

lemma writes_mset:
  assumes "mset ws = mset ws'" "apart ws" "within (length page) ws"
  shows "writes ws page = writes ws' page"
  using writes_same_set [OF mset_eq_setD [OF assms(1)] assms(2) apart_mset [OF assms(1,2)] assms(3)] .

lemma writes_behind:
  "within (length page) (ws @ [(a, b)]) \<Longrightarrow> put (a + length b) c (writes (ws @ [(a, b)]) page) = writes (ws @ [(a, b @ c)]) page"
  using put_adjacent [of a "writes ws page" b c] by (simp add: writes_simps)

text \<open>Writes to adjacent areas, and to a part of an area that was written.\<close>

lemma writes_split: "a \<le> length page \<Longrightarrow> put a (b @ c) page = writes [(a, b), (a + length b, c)] page"
  by (simp add: writes_simps put_adjacent)

lemma put_inside:
  assumes "a + length b \<le> length page" "k + length c \<le> length b"
  shows "put (a + k) c (put a b page) = put a (put k c b) page"
  by (rule nth_equalityI) (use assms in \<open>auto simp: nth_put\<close>)

section \<open>Accesses to a page\<close>

definition rd_2 :: "byte list \<Rightarrow> nat \<Rightarrow> nat" where
  "rd_2 page a = mach_read_from_2 (drop a page)"

lemma mach_read_2_take: "2 \<le> length b \<Longrightarrow> mach_read_from_2 (take 2 b) = mach_read_from_2 b"
  by (rule mach_read_2_cong) auto

lemma get_eqs:
  "k \<le> r \<Longrightarrow> r - k + n \<le> length page \<Longrightarrow> get_bytes n page r k = Some (take n (drop (r - k) page))"
  "k \<le> r \<Longrightarrow> r - k < length page \<Longrightarrow> get_1 page r k = Some (page ! (r - k))"
  "k \<le> r \<Longrightarrow> r - k + 2 \<le> length page \<Longrightarrow> get_2 page r k = Some (rd_2 page (r - k))"
  by (auto simp: get_bytes_def get_1_def get_2_def rd_2_def mach_read_2_take hd_drop_conv_nth)

lemma set_eq: "k \<le> r \<Longrightarrow> r - k + length b \<le> length page \<Longrightarrow> set_bytes r k b page = Some (put (r - k) b page)"
  by (simp add: set_bytes_def)

lemma rd_2_less: "a + 2 \<le> length page \<Longrightarrow> rd_2 page a < 2 ^ 16"
  using mach_read_2_less [of "drop a page"] by (simp add: rd_2_def)

lemma rd_2_writes:
  assumes "within (length page) ws" "clear a 2 ws" "a + 2 \<le> length page"
  shows "rd_2 (writes ws page) a = rd_2 page a"
  unfolding rd_2_def by (rule mach_read_2_cong) (use area_writes [OF assms] assms in simp_all)

lemma rd_2_hit:
  assumes "within (length page) ws" "apart ws" "(a, mach_write_to_2 v) \<in> set ws"
  shows "rd_2 (writes ws page) a = v mod 2 ^ 16"
proof -
  have len: "a + 2 \<le> length page" using assms(1,3) by (auto simp: within_def)
  have "writes ws page ! (a + k) = mach_write_to_2 v ! k" if "k < 2" for k
    using nth_writes_hit [OF assms(1-3), of "a + k"] that by simp
  then have "take 2 (drop a (writes ws page)) = mach_write_to_2 v"
    using len assms(1) by (intro nth_equalityI) auto
  then have "rd_2 (writes ws page) a = mach_read_from_2 (mach_write_to_2 v)"
    unfolding rd_2_def using len assms(1) mach_read_2_take [of "drop a (writes ws page)"] by simp
  then show ?thesis using mach_fixed_round_trip(2) [of v "[]"] by simp
qed

lemma header_field: "page_header_get_field page f = rd_2 page (38 + f)"
  by (simp add: page_header_get_field_def rd_2_def)

lemma header_set: "page_header_set_field f v page = put (38 + f) (mach_write_to_2 v) page"
  by (simp add: page_header_set_field_def)

definition dir_writes :: "nat \<Rightarrow> nat \<Rightarrow> nat \<Rightarrow> byte list \<Rightarrow> (nat \<times> byte list) list" where
  "dir_writes last_insert prev_rec next_rec page =
     (let dir = page ! 51 AND 7;
          set = (\<lambda>d n. [(51, [(page ! 51 AND NOT 7) OR d]), (52, mach_write_to_2 n)])
      in if page ! 25 = byte_of 17854 then []
         else if last_insert = 0 then set 5 0
         else if last_insert = prev_rec \<and> dir \<noteq> 1 then set 2 (rd_2 page 52 + 1)
         else if next_rec = last_insert \<and> dir \<noteq> 2 then set 1 (rd_2 page 52 + 1)
         else set 5 0)"

lemma update_is_put: "i < length page \<Longrightarrow> page[i := b] = put i [b] page"
  by (simp add: put_def upd_conv_take_nth_drop)

lemma update_direction_writes:
  assumes "66 \<le> length page"
  shows "update_direction li p n page = writes (dir_writes li p n page) page"
proof -
  have s: "set_direction d page = put 51 [(page ! 51 AND NOT 7) OR d] page" for d
    using assms by (simp add: set_direction_def update_is_put)
  show ?thesis
    using assms by (simp add: update_direction_def dir_writes_def Let_def s header_set header_field writes_simps FIL_PAGE_TYPE_def)
qed

lemma dir_writes_writes:
  assumes "within (length page) ws" "clear 25 1 ws" "clear 51 3 ws" "66 \<le> length page"
  shows "dir_writes li p n (writes ws page) = dir_writes li p n page"
proof -
  have "clear 51 1 ws" "clear 52 2 ws" using assms(3) by (auto simp: clear_def)
  then show ?thesis
    using assms nth_writes_clear [of page ws 25] nth_writes_clear [of page ws 51] rd_2_writes [of page ws 52]
    by (simp add: dir_writes_def Let_def)
qed

lemma dir_writes_cases:
  "dir_writes li p n page = [] \<or> (\<exists>b c. dir_writes li p n page = [(51, [b]), (52, mach_write_to_2 c)])"
  by (auto simp: dir_writes_def Let_def)

end
