(* ===== verification/Index_Insert.thy ===== *)
theory Index_Insert
  imports Redo_Apply Index_Write Page_Writes
begin

text \<open>
  The insertion of a record into an index page in the formats COMPACT and DYNAMIC: what a valid page is, which insertions are valid, and the page
  after an insertion as a sequence of writes to disjoint areas (\<open>insert_normal\<close>), before a slot of the directory is split.
\<close>

unbundle bit_operations_syntax

section \<open>The records of a page\<close>

text \<open>In the formats COMPACT and DYNAMIC: the next record and the number of owned records.\<close>

definition rec_next :: "byte list \<Rightarrow> nat \<Rightarrow> nat" where
  "rec_next page r = (r + rd_2 page (r - 2)) mod 2 ^ 16"

definition rec_owned :: "byte list \<Rightarrow> nat \<Rightarrow> nat" where
  "rec_owned page r = unat (page ! (r - 5) AND 0x0F)"

text \<open>The records from a given one to the first that owns records, at most \<open>k\<close> further.\<close>

fun walk :: "nat \<Rightarrow> byte list \<Rightarrow> nat \<Rightarrow> nat list" where
  "walk 0 page r = [r]"
| "walk (Suc k) page r = (if rec_owned page r \<noteq> 0 then [r] else r # walk k page (rec_next page r))"

lemma walk_not_Nil [simp]: "walk k page r \<noteq> []"
  by (cases k) auto

lemma walk_first: "r \<in> set (walk k page r)"
  by (cases k) auto

lemma walk_stays: "rec_next page r = r \<Longrightarrow> rec_owned page r = 0 \<Longrightarrow> set (walk k page r) = {r}"
  by (induction k) auto

lemma owned_get: "5 \<le> r \<Longrightarrow> r \<le> length page \<Longrightarrow> rec_get_n_owned_new page r = Some (rec_owned page r)"
  by (simp add: rec_get_n_owned_new_def rec_get_bit_field_1_def get_eqs rec_owned_def)

lemma next_get:
  assumes "2 \<le> r" "r < length page" "length page dvd 2 ^ 16" "rec_next page r < length page" "rec_next page r \<noteq> r"
  shows "rec_get_next_offs page r True = Some (rec_next page r)"
proof -
  let ?v = "rd_2 page (r - 2)"
  have n: "length page \<le> 2 ^ 16" using assms(3) by (simp add: dvd_imp_le)
  have nz: "?v \<noteq> 0"
  proof
    assume "?v = 0"
    then have "rec_next page r = r mod 2 ^ 16" by (simp add: rec_next_def)
    then show False using assms(2,5) n by simp
  qed
  have "(r + ?v) mod length page = ((r + ?v) mod 2 ^ 16) mod length page" using assms(3) by (simp add: mod_mod_cancel)
  then have "(r + ?v) mod length page = rec_next page r" using assms(4) by (simp add: rec_next_def)
  then show ?thesis using nz assms(1,2) by (simp add: rec_get_next_offs_def get_eqs)
qed

text \<open>Both walks of the code to the owner of a record, on a page that was changed elsewhere.\<close>

lemma rec_writes:
  assumes "within (length page) ws" "clear (r - 5) 5 ws" "5 \<le> r" "r \<le> length page"
  shows "rec_owned (writes ws page) r = rec_owned page r" "rec_next (writes ws page) r = rec_next page r"
proof -
  have "clear (r - 5) 1 ws" "clear (r - 2) 2 ws" using assms(2,3) by (auto simp: clear_def)
  then show "rec_owned (writes ws page) r = rec_owned page r" "rec_next (writes ws page) r = rec_next page r"
    using assms nth_writes_clear [of page ws "r - 5"] rd_2_writes [of page ws "r - 2"]
    by (simp_all add: rec_owned_def rec_next_def)
qed

lemma next_owner_walk:
  assumes "within (length page) ws" "length page dvd 2 ^ 16"
  shows "(\<And>x. x \<in> set (walk k page r) \<Longrightarrow> 5 \<le> x \<and> x < length page \<and> clear (x - 5) 5 ws) \<Longrightarrow>
    rec_owned page (last (walk k page r)) \<noteq> 0 \<Longrightarrow>
    next_owner True (writes ws page) r = Some (last (walk k page r), rec_owned page (last (walk k page r)))"
proof (induction k arbitrary: r)
  case 0
  then show ?case
    using assms rec_writes(1) [of page ws r] by (subst next_owner.simps) (simp add: rec_get_n_owned_def owned_get)
next
  case (Suc k)
  let ?q = "writes ws page" and ?x = "rec_next page r"
  have r: "5 \<le> r" "r < length page" "clear (r - 5) 5 ws" using Suc.prems(1) [of r] walk_first [of r "Suc k" page] by simp_all
  note q = rec_writes [OF assms(1) r(3,1) less_imp_le [OF r(2)]]
  have own: "rec_get_n_owned True ?q r = Some (rec_owned page r)"
    using r q assms(1) by (simp add: rec_get_n_owned_def owned_get)
  show ?case
  proof (cases "rec_owned page r = 0")
    case True
    have x: "?x < length page" using Suc.prems(1) [of ?x] True walk_first [of ?x k page] by simp
    have ne: "?x \<noteq> r"
    proof
      assume "?x = r"
      then show False using walk_stays [of page r k] True Suc.prems(2) last_in_set [of "walk k page r"] by simp
    qed
    have "rec_get_next_offs ?q r True = Some ?x" using next_get [of r ?q] assms r q(2) x ne by simp
    then show ?thesis using Suc.IH [of ?x] Suc.prems True own by (subst next_owner.simps) simp
  next
    case False
    then show ?thesis using own by (subst next_owner.simps) simp
  qed
qed

lemma owner_dynamic_walk:
  "(\<And>x. x \<in> set (walk k page r) \<Longrightarrow> x \<le> length page \<and> (x = 112 \<or> 125 \<le> x \<and> x \<le> heap_top)) \<Longrightarrow>
   rec_owned page (last (walk k page r)) \<noteq> 0 \<Longrightarrow>
   owner_dynamic page heap_top k r = Some (Some (last (walk k page r), rec_owned page (last (walk k page r))))"
proof (induction k arbitrary: r)
  case 0
  then show ?case by (subst owner_dynamic.simps) (auto simp: owned_get)
next
  case (Suc k)
  let ?x = "rec_next page r"
  have r: "5 \<le> r" "r \<le> length page" using Suc.prems(1) [of r] walk_first [of r "Suc k" page] by auto
  show ?case
  proof (cases "rec_owned page r = 0")
    case True
    have x: "?x = 112 \<or> 125 \<le> ?x \<and> ?x \<le> heap_top" using Suc.prems(1) [of ?x] True walk_first [of ?x k page] by simp
    have "owner_dynamic page heap_top k ?x = Some (Some (last (walk k page ?x), rec_owned page (last (walk k page ?x))))"
      using Suc.IH [of ?x] Suc.prems True by simp
    then show ?thesis
      using True r x by (subst owner_dynamic.simps) (auto simp: owned_get get_eqs rec_next_def Let_def)
  next
    case False
    then show ?thesis using r by (subst owner_dynamic.simps) (simp add: owned_get)
  qed
qed

section \<open>The new record\<close>

lemma mask_bits: "(n :: nat) AND 7 = take_bit 3 n" "(n :: nat) AND 31 = take_bit 5 n"
  using and_mask [of n 3] and_mask [of n 5] by (simp_all add: mask_eq_exp_minus_1 take_bit_eq_mod)

lemma heap_no_bytes:
  "mach_write_to_2 ((n AND 7) OR push_bit 3 h) =
   [byte_of (drop_bit 5 h), byte_of (push_bit 3 (h AND 31) OR (n AND 7))]"
proof -
  have "drop_bit 8 ((n AND 7) OR push_bit 3 h) = drop_bit 5 h"
    by (rule bit_eqI) (auto simp: mask_bits bit_simps)
  moreover have "(byte_of ((n AND 7) OR push_bit 3 h) :: byte) = byte_of (push_bit 3 (h AND 31) OR (n AND 7))"
    unfolding word_of_nat_eq_iff mask_bits by (rule bit_eqI) (auto simp: bit_simps)
  ultimately show ?thesis by (simp add: mach_write_to_2_def)
qed

text \<open>The bytes of the header that the insertion writes.\<close>

definition new_header :: "nat \<Rightarrow> nat \<Rightarrow> nat \<Rightarrow> byte list \<Rightarrow> byte list" where
  "new_header heap_no insert_rec next_rec hdr =
     (let e = length hdr
      in take (e - 5) hdr @
         [hdr ! (e - 5) AND NOT 0x0F, byte_of (drop_bit 5 heap_no),
          byte_of (push_bit 3 (heap_no AND 31) OR (unat (hdr ! (e - 3)) AND 7))] @
         mach_write_to_2 ((next_rec + 2 ^ 16 - insert_rec) mod 2 ^ 16))"

lemma header_parts:
  assumes "5 \<le> length hdr"
  obtains p x0 x1 x2 x3 x4 where "hdr = p @ [x0, x1, x2, x3, x4]"
proof -
  have "length (drop (length hdr - 5) hdr) = Suc (Suc (Suc (Suc (Suc 0))))" using assms by simp
  then obtain x0 x1 x2 x3 x4 where "drop (length hdr - 5) hdr = [x0, x1, x2, x3, x4]"
    by (auto simp only: length_Suc_conv length_0_conv)
  then show ?thesis using that append_take_drop_id [of "length hdr - 5" hdr] by metis
qed

lemma get_put:
  assumes "b + length rb \<le> length q" "k \<le> e" "e \<le> length rb"
  shows "e - k < length rb \<Longrightarrow> get_1 (put b rb q) (b + e) k = Some (rb ! (e - k))"
    and "e - k + 2 \<le> length rb \<Longrightarrow> get_2 (put b rb q) (b + e) k = Some (rd_2 rb (e - k))"
    and "e - k + length c \<le> length rb \<Longrightarrow> set_bytes (b + e) k c (put b rb q) = Some (put b (put (e - k) c rb) q)"
proof -
  obtain i where e: "e = k + i" using assms(2) le_Suc_ex by blast
  show "e - k < length rb \<Longrightarrow> get_1 (put b rb q) (b + e) k = Some (rb ! (e - k))"
    using assms nth_put [of b rb q "b + i"] by (simp add: e get_eqs)
  show "get_2 (put b rb q) (b + e) k = Some (rd_2 rb (e - k))" if "e - k + 2 \<le> length rb"
  proof -
    have "take 2 (drop (b + i) (put b rb q)) = take 2 (drop i rb)"
      by (rule nth_equalityI) (use that assms e in \<open>auto simp: nth_put\<close>)
    then have "rd_2 (put b rb q) (b + i) = rd_2 rb i"
      unfolding rd_2_def by (rule mach_read_2_cong) (use that assms e in auto)
    then show ?thesis using that assms by (simp add: e get_eqs)
  qed
  show "e - k + length c \<le> length rb \<Longrightarrow> set_bytes (b + e) k c (put b rb q) = Some (put b (put (e - k) c rb) q)"
    using assms put_inside [of b rb q i c] by (simp add: e set_eq)
qed

lemma put_mid: "length c = length d \<Longrightarrow> length p = n \<Longrightarrow> put n c (p @ d @ s) = p @ c @ s"
  by (auto simp: put_def)

lemma link_record_eq:
  assumes e: "5 \<le> length hdr" and b: "b + length hdr + length data \<le> length q" and cur: "2 \<le> cur" "cur \<le> length q"
  shows "link_record True cur (b + length hdr) next_rec heap_no hdr (put b (hdr @ data) q) =
    Some (put (cur - 2) (mach_write_to_2 ((b + length hdr + 2 ^ 16 - cur) mod 2 ^ 16))
      (put b (new_header heap_no (b + length hdr) next_rec hdr @ data) q))"
proof -
  obtain p x0 x1 x2 x3 x4 where hdr: "hdr = p @ [x0, x1, x2, x3, x4]" using header_parts [OF e] .
  define r where "r = b + (length p + 5)"
  let ?p = "\<lambda>u0 u1 u2 u. put b (p @ [u0, u1, u2] @ u @ data) q"
  let ?v = "mach_write_to_2 ((next_rec + 2 ^ 16 - r) mod 2 ^ 16)"
  let ?h0 = "byte_of (drop_bit 5 heap_no)" and ?h1 = "byte_of (push_bit 3 (heap_no AND 31) OR (unat x2 AND 7))"
  have len: "b + length (p @ [u0, u1, u2] @ u @ data) \<le> length q" if "length u = 2" for u0 u1 u2 u
    using b hdr that by simp
  have set: "set_bytes r k c (?p u0 u1 u2 u) = Some (put b (put (length p + 5 - k) c (p @ [u0, u1, u2] @ u @ data)) q)"
    if "length u = 2" "k \<le> 5" "length c \<le> k" for u0 u1 u2 u k c
    using get_put(3) [OF len [OF that(1)], where k = k and e = "length p + 5" and c = c] that by (simp add: r_def)
  have "rec_set_bit_field_1 r 0 5 0x0F 0 (?p x0 x1 x2 [x3, x4]) = Some (?p (x0 AND NOT 0x0F) x1 x2 [x3, x4])"
    using get_put(1) [OF len, of "[x3, x4]" 5 "length p + 5" x0 x1 x2] set [of "[x3, x4]" 5] put_mid [of _ "[x0]" p]
    by (simp add: rec_set_bit_field_1_def r_def)
  moreover have "set_1 r 3 x2 (?p u0 x1 x2 [x3, x4]) = Some (?p u0 x1 x2 [x3, x4])" for u0
    using set [of "[x3, x4]" 3 "[x2]" u0 x1 x2] put_mid [of "[x2]" "[x2]" "p @ [u0, x1]" "length p + 2" "[x3, x4] @ data"] by simp
  moreover have "rec_set_bit_field_2 r heap_no 4 0xFFF8 3 (?p u0 x1 x2 [x3, x4]) = Some (?p u0 ?h0 ?h1 [x3, x4])" for u0
  proof -
    have "rd_2 (p @ [u0, x1, x2, x3, x4] @ data) (Suc (length p)) = push_bit 8 (unat x1) OR unat x2"
      using unat_byte_less [of x1] unat_byte_less [of x2]
      by (simp add: rd_2_def mach_read_from_2_def push_or [of _ 8] take_bit_nat_eq_self)
    moreover have "(push_bit 8 (unat x1) OR unat x2) AND (0xFFFF XOR 0xFFF8) = unat x2 AND 7"
      by (rule bit_eqI) (auto simp: mask_bits bit_simps)
    ultimately show ?thesis
      using get_put(2) [OF len, of "[x3, x4]" 4 "length p + 5" u0 x1 x2] set [of "[x3, x4]" 4 "[?h0, ?h1]" u0 x1 x2]
        put_mid [of "[?h0, ?h1]" "[x1, x2]" "p @ [u0]" "length p + 1" "[x3, x4] @ data"] heap_no_bytes [of "unat x2" heap_no]
      by (simp add: rec_set_bit_field_2_def r_def)
  qed
  moreover have "set_bytes r 2 ?v (?p u0 ?h0 ?h1 [x3, x4]) = Some (?p u0 ?h0 ?h1 ?v)" for u0
    using set [of "[x3, x4]" 2 ?v u0 ?h0 ?h1] put_mid [of ?v "[x3, x4]" "p @ [u0, ?h0, ?h1]" "length p + 3" data]
    by (simp add: add.commute)
  moreover have "get_1 hdr (length hdr) 3 = Some x2" by (simp add: hdr get_eqs nth_append)
  moreover have "set_2 cur 2 v (?p u0 ?h0 ?h1 ?v) = Some (put (cur - 2) (mach_write_to_2 v) (?p u0 ?h0 ?h1 ?v))" for v u0
    using cur len [of ?v u0 ?h0 ?h1] by (simp add: set_eq)
  moreover have r: "b + length hdr = r" and nth: "hdr ! (length hdr - 5) = x0" "hdr ! (length hdr - 3) = x2"
    "take (length hdr - 5) hdr = p" by (simp_all add: r_def hdr nth_append)
  moreover have "hdr @ data = p @ [x0, x1, x2] @ [x3, x4] @ data" by (simp add: hdr)
  ultimately show ?thesis unfolding r new_header_def Let_def nth by (simp add: link_record_def)
qed

section \<open>Valid pages and insertions\<close>

text \<open>The header and the directory of an index page in the formats COMPACT and DYNAMIC.\<close>

definition index_page_valid :: "page_id_t \<Rightarrow> byte list \<Rightarrow> bool" where
  "index_page_valid idt page \<longleftrightarrow>
     (let n_slots = page_dir_get_n_slots page;
          h = page_header_get_field page PAGE_N_HEAP;
          heap_top = page_header_get_field page PAGE_HEAP_TOP
      in 256 \<le> length page \<and> length page dvd 2 ^ 16 \<and> fil_page_index_page_check page \<and> page_get_page_no page = page_no idt \<and>
         2 \<le> n_slots \<and> 0x8002 \<le> h \<and> n_slots \<le> h AND 0x7FFF \<and> h AND 0x7FFF < length page div 5 \<and>
         PAGE_NEW_SUPREMUM_END \<le> heap_top \<and> \<not> behind_slot page (n_slots - 1) heap_top \<and>
         rd_2 page (PAGE_NEW_SUPREMUM - 2) = 0 \<and>
         rd_2 page (page_dir_get_nth_slot page (n_slots - 1)) = PAGE_NEW_SUPREMUM \<and>
         rd_2 page (page_dir_get_nth_slot page 0) = PAGE_NEW_INFIMUM)"

text \<open>A user record or the supremum.\<close>

definition user_rec :: "byte list \<Rightarrow> nat \<Rightarrow> bool" where
  "user_rec page x \<longleftrightarrow> PAGE_NEW_SUPREMUM_END + 5 \<le> x \<and> x \<le> page_header_get_field page PAGE_HEAP_TOP"

text \<open>Where a record is inserted, and that the space is there. The sizes of the first free record are given.\<close>

definition insert_reuse :: "byte list \<Rightarrow> byte list \<Rightarrow> nat \<Rightarrow> nat \<Rightarrow> byte list \<Rightarrow> bool" where
  "insert_reuse hdr data fextra fdata page \<longleftrightarrow>
     page_header_get_field page PAGE_FREE \<noteq> 0 \<and> \<not> fextra + fdata < length hdr + length data"

definition insert_start :: "byte list \<Rightarrow> byte list \<Rightarrow> nat \<Rightarrow> nat \<Rightarrow> byte list \<Rightarrow> nat" where
  "insert_start hdr data fextra fdata page =
     (if insert_reuse hdr data fextra fdata page then page_header_get_field page PAGE_FREE - fextra
      else page_header_get_field page PAGE_HEAP_TOP)"

definition space_valid :: "byte list \<Rightarrow> byte list \<Rightarrow> nat \<Rightarrow> nat \<Rightarrow> byte list \<Rightarrow> bool" where
  "space_valid hdr data fextra fdata page \<longleftrightarrow>
     (let free = page_header_get_field page PAGE_FREE;
          rec_size = length hdr + length data
      in if insert_reuse hdr data fextra fdata page then
           user_rec page free \<and> PAGE_NEW_SUPREMUM_END + fextra \<le> free \<and>
           free + fdata \<le> page_header_get_field page PAGE_HEAP_TOP \<and> rec_size \<le> page_header_get_field page PAGE_GARBAGE \<and>
           (rd_2 page (free - 2) = 0 \<or> user_rec page (rec_next page free))
         else \<not> behind_slot page (page_dir_get_n_slots page - 1) (page_header_get_field page PAGE_HEAP_TOP + rec_size))"

text \<open>The record: the size of its header, and the bits that the log can express.\<close>

definition header_valid :: "byte list \<Rightarrow> byte list \<Rightarrow> bool" where
  "header_valid hdr page \<longleftrightarrow>
     5 \<le> length hdr \<and> length hdr \<le> 5 + 2 * REC_MAX_N_FIELDS \<and> hdr ! (length hdr - 5) AND 0xC0 = 0 \<and>
     (if page_is_leaf page then hdr ! (length hdr - 3) AND 7 \<in> {0, 4} else hdr ! (length hdr - 3) AND 7 = 1)"

text \<open>The header bytes before a record that are compared with those of the new record.\<close>

definition header_scan :: "nat \<Rightarrow> byte list \<Rightarrow> nat" where
  "header_scan cur hdr = (if PAGE_NEW_SUPREMUM_END + 5 + length hdr \<le> cur then length hdr else 5)"

text \<open>
  The records from the next one to its owner are intact and do not overlap the space of the new record, nor does the predecessor. The
  bytes that are compared with the new record, before and after the predecessor, are neither in that space nor do they
  include the number of records that the owner owns.
\<close>

definition insert_ok :: "page_id_t \<Rightarrow> nat \<Rightarrow> byte list \<Rightarrow> byte list \<Rightarrow> nat \<Rightarrow> nat \<Rightarrow> byte list \<Rightarrow> bool" where
  "insert_ok idt cur hdr data fextra fdata page \<longleftrightarrow>
     index_page_valid idt page \<and> space_valid hdr data fextra fdata page \<and> header_valid hdr page \<and>
     (cur = PAGE_NEW_INFIMUM \<or> user_rec page cur) \<and>
     (let recs = walk 8 page (rec_next page cur);
          owner = last recs;
          start = insert_start hdr data fextra fdata page;
          rec_size = length hdr + length data
      in rec_owned page owner \<noteq> 0 \<and> rec_owned page owner \<le> 8 \<and>
         find_slot page owner (page_dir_get_n_slots page - 1) \<noteq> None \<and>
         (\<forall>x \<in> set recs. (x = PAGE_NEW_SUPREMUM \<or> user_rec page x) \<and> (x + 2 \<le> cur \<or> cur + 5 \<le> x) \<and>
            (x \<le> start \<or> start + rec_size + 5 \<le> x)) \<and>
         (cur \<le> start \<or> start + rec_size + header_scan cur hdr \<le> cur) \<and>
         (cur \<le> owner \<or> owner + header_scan cur hdr \<le> cur + 4) \<and>
         (owner \<le> cur \<or> common_end True cur (length data) start owner page + 5 \<le> owner))"

section \<open>The page after an insertion\<close>

definition alloc_writes :: "byte list \<Rightarrow> byte list \<Rightarrow> nat \<Rightarrow> nat \<Rightarrow> byte list \<Rightarrow> (nat \<times> byte list) list" where
  "alloc_writes hdr data fextra fdata page =
     (let free = rd_2 page 44
      in if insert_reuse hdr data fextra fdata page
         then [(44, mach_write_to_2 (if rd_2 page (free - 2) = 0 then 0 else rec_next page free)),
               (46, mach_write_to_2 (rd_2 page 46 - (length hdr + length data)))]
         else [(40, mach_write_to_2 (rd_2 page 40 + (length hdr + length data))), (42, mach_write_to_2 (rd_2 page 42 + 1))])"

definition insert_heap_no :: "byte list \<Rightarrow> byte list \<Rightarrow> nat \<Rightarrow> nat \<Rightarrow> byte list \<Rightarrow> nat" where
  "insert_heap_no hdr data fextra fdata page =
     (if insert_reuse hdr data fextra fdata page then drop_bit 3 (rd_2 page (rd_2 page 44 - 4) AND 0xFFF8)
      else rd_2 page 42 AND 0x7FFF)"

lemma comp_page:
  assumes "66 \<le> length page" "0x8000 \<le> rd_2 page 42"
  shows "page_is_comp page"
proof -
  have "rd_2 page 42 = unat (page ! 42) * 256 + unat (page ! 43)"
    using assms(1) unat_byte_less [of "page ! 42"] unat_byte_less [of "page ! 43"]
    by (simp add: rd_2_def mach_read_from_2_def push_or [of _ 8] take_bit_nat_eq_self)
  then have "128 \<le> unat (page ! 42)" using assms(2) unat_byte_less [of "page ! 43"] by linarith
  then have "unat (page ! 42) div 2 ^ 7 = 1" using unat_byte_less [of "page ! 42"] by simp
  then have "bit (unat (page ! 42)) 7" by (simp add: bit_iff_odd)
  then have "page ! 42 AND 2 ^ 7 \<noteq> 0" using and_exp_eq_0_iff_not_bit [of "page ! 42" 7] by (simp add: bit_unsigned_iff)
  then show ?thesis by (simp add: page_is_comp_def)
qed

lemma page_valid_facts:
  assumes "index_page_valid idt page"
  shows "256 \<le> length page" "length page dvd 2 ^ 16" "length page \<le> 2 ^ 16" "2 \<le> page_dir_get_n_slots page"
    "120 \<le> rd_2 page 40" "rd_2 page 40 + 2 * page_dir_get_n_slots page + 8 \<le> length page" "page_is_comp page"
proof -
  show *: "256 \<le> length page" "length page dvd 2 ^ 16" "2 \<le> page_dir_get_n_slots page" "120 \<le> rd_2 page 40"
    using assms by (auto simp: index_page_valid_def Let_def header_field)
  then show "length page \<le> 2 ^ 16" by (simp add: dvd_imp_le)
  show "rd_2 page 40 + 2 * page_dir_get_n_slots page + 8 \<le> length page"
    using assms *(3) by (auto simp: index_page_valid_def Let_def header_field behind_slot_def)
  have "0x8000 \<le> rd_2 page 42" using assms by (auto simp: index_page_valid_def Let_def header_field)
  then show "page_is_comp page" using comp_page *(1) by simp
qed

lemma alloc_eq:
  assumes valid: "index_page_valid idt page" and space: "space_valid hdr data fx fd page"
  shows "insert_alloc True (length hdr) (length hdr + length data) fx fd page =
    (if insert_reuse hdr data fx fd page \<or> page_mem_alloc_heap (length hdr + length data) page \<noteq> None
     then Some (Some (insert_reuse hdr data fx fd page,
            if insert_reuse hdr data fx fd page then int (length hdr) - int fx else 0,
            insert_heap_no hdr data fx fd page, insert_start hdr data fx fd page,
            writes (alloc_writes hdr data fx fd page) page))
     else Some None)"
proof (cases "insert_reuse hdr data fx fd page")
  case True
  note f = page_valid_facts [OF valid]
  let ?free = "rd_2 page 44" and ?sz = "length hdr + length data"
  have s: "125 \<le> ?free" "?free \<le> rd_2 page 40" "120 + fx \<le> ?free" "?sz \<le> rd_2 page 46"
    using space True by (auto simp: space_valid_def user_rec_def Let_def header_field)
  have g: "rd_2 (put 44 v page) 46 = rd_2 page 46" if "length v = 2" for v
    using rd_2_writes [of page "[(44, v)]" 46] f(1) that by (simp add: writes_simps)
  have "(rd_2 page 46 + 2 ^ 64 - ?sz) mod 2 ^ 64 = rd_2 page 46 - ?sz"
    using s(4) rd_2_less [of 46 page] f(1) by (simp add: mod_if)
  then show ?thesis
    using True s f(1,6) g
    by (simp add: insert_alloc_def insert_reuse_def rec_get_heap_no_new_def rec_get_bit_field_2_def get_eqs Let_def header_field
        header_set writes_simps alloc_writes_def rec_next_def insert_heap_no_def insert_start_def)
next
  case False
  then show ?thesis
    by (auto simp: insert_alloc_def insert_reuse_def page_mem_alloc_heap_def Let_def header_field
        header_set writes_simps alloc_writes_def insert_heap_no_def insert_start_def)
qed

text \<open>All bytes that an insertion behind \<open>cur\<close> writes, before a slot of the directory is split.\<close>

definition insert_writes :: "nat \<Rightarrow> byte list \<Rightarrow> byte list \<Rightarrow> nat \<Rightarrow> nat \<Rightarrow> byte list \<Rightarrow> (nat \<times> byte list) list" where
  "insert_writes cur hdr data fx fd page =
     (let start = insert_start hdr data fx fd page;
          insert_rec = start + length hdr;
          next_rec = rec_next page cur;
          owner = last (walk 8 page next_rec)
      in alloc_writes hdr data fx fd page @ [(48, mach_write_to_2 insert_rec)] @
         dir_writes (rd_2 page 48) cur next_rec page @ [(54, mach_write_to_2 (rd_2 page 54 + 1))] @
         [(start, new_header (insert_heap_no hdr data fx fd page) insert_rec next_rec hdr @ data),
          (cur - 2, mach_write_to_2 ((insert_rec + 2 ^ 16 - cur) mod 2 ^ 16)),
          (owner - 5, [(page ! (owner - 5) AND NOT 0x0F) OR byte_of (rec_owned page owner + 1)])])"

lemma length_new_header: "5 \<le> length hdr \<Longrightarrow> length (new_header h r n hdr) = length hdr"
  by (simp add: new_header_def Let_def)

text \<open>The writes to the page header.\<close>

lemma header_writes:
  assumes "66 \<le> length page"
  shows "within (length page) (alloc_writes hdr data fx fd page)" "within (length page) (dir_writes a b c page)"
    and "p + k \<le> 40 \<or> 48 \<le> p \<Longrightarrow> clear p k (alloc_writes hdr data fx fd page)"
    and "p + k \<le> 51 \<or> 54 \<le> p \<Longrightarrow> clear p k (dir_writes a b c page)"
proof -
  show "within (length page) (alloc_writes hdr data fx fd page)" "within (length page) (dir_writes a b c page)"
    using assms dir_writes_cases [of a b c page] by (auto simp: alloc_writes_def Let_def)
  show "p + k \<le> 40 \<or> 48 \<le> p \<Longrightarrow> clear p k (alloc_writes hdr data fx fd page)"
    by (auto simp: alloc_writes_def Let_def)
  show "p + k \<le> 51 \<or> 54 \<le> p \<Longrightarrow> clear p k (dir_writes a b c page)"
    using dir_writes_cases [of a b c page] by auto
qed

text \<open>The facts about the places that an insertion touches.\<close>

lemma insert_facts:
  assumes ok: "insert_ok idt cur hdr data fx fd page"
  defines "start \<equiv> insert_start hdr data fx fd page" and "recs \<equiv> walk 8 page (rec_next page cur)"
  shows "120 \<le> start" "start + length hdr + length data + 2 * page_dir_get_n_slots page + 8 \<le> length page"
    "5 \<le> length hdr" "cur = 99 \<or> 125 \<le> cur" "cur \<le> rd_2 page 40"
    "cur \<le> start \<or> start + length hdr + length data + header_scan cur hdr \<le> cur"
    "\<And>x. x \<in> set recs \<Longrightarrow> 112 \<le> x \<and> x \<le> rd_2 page 40 \<and> (x + 2 \<le> cur \<or> cur + 5 \<le> x) \<and>
       (x \<le> start \<or> start + length hdr + length data + 5 \<le> x)"
    "rec_owned page (last recs) \<noteq> 0" "rec_owned page (last recs) \<le> 8" "last recs \<in> set recs" "rec_next page cur \<in> set recs"
proof -
  have valid: "index_page_valid idt page" using ok by (simp add: insert_ok_def)
  note f = page_valid_facts [OF valid]
  show s: "120 \<le> start" using ok f(5) by (auto simp: insert_ok_def space_valid_def insert_start_def start_def header_field Let_def split: if_splits)
  show "start + length hdr + length data + 2 * page_dir_get_n_slots page + 8 \<le> length page"
    using ok f(4,6)
    by (auto simp: insert_ok_def space_valid_def insert_start_def start_def header_field Let_def behind_slot_def insert_reuse_def
        split: if_splits)
  show "5 \<le> length hdr" using ok by (simp add: insert_ok_def header_valid_def)
  show "cur = 99 \<or> 125 \<le> cur" "cur \<le> rd_2 page 40"
    using ok f(5) by (auto simp: insert_ok_def user_rec_def header_field)
  show "cur \<le> start \<or> start + length hdr + length data + header_scan cur hdr \<le> cur"
    using ok by (simp add: insert_ok_def Let_def start_def add.assoc)
  show "112 \<le> x \<and> x \<le> rd_2 page 40 \<and> (x + 2 \<le> cur \<or> cur + 5 \<le> x) \<and>
       (x \<le> start \<or> start + length hdr + length data + 5 \<le> x)" if "x \<in> set recs" for x
    using ok that f(5) by (auto simp: insert_ok_def Let_def start_def recs_def user_rec_def header_field add.assoc)
  show "rec_owned page (last recs) \<noteq> 0" "rec_owned page (last recs) \<le> 8"
    using ok by (simp_all add: insert_ok_def Let_def recs_def)
  show "last recs \<in> set recs" "rec_next page cur \<in> set recs" by (simp_all add: recs_def walk_first)
qed

text \<open>The steps of an insertion that change the page header.\<close>

lemma insert_header_steps:
  assumes ok: "insert_ok idt cur hdr data fx fd page"
  defines "A \<equiv> alloc_writes hdr data fx fd page" and "nx \<equiv> rec_next page cur"
  defines "D \<equiv> dir_writes (rd_2 page 48) cur nx page"
  shows "rec_get_next_offs (writes A page) cur True = Some nx" "page_header_get_field (writes A page) 10 = rd_2 page 48"
    and "page_header_set_field 10 r (writes A page) = writes (A @ [(48, mach_write_to_2 r)]) page"
    and "update_direction (rd_2 page 48) cur nx (writes (A @ [(48, mach_write_to_2 r)]) page) =
      writes ((A @ [(48, mach_write_to_2 r)]) @ D) page"
    and "page_header_set_field 16 (page_get_n_recs (writes ((A @ [(48, mach_write_to_2 r)]) @ D) page) + 1)
        (writes ((A @ [(48, mach_write_to_2 r)]) @ D) page) =
      writes ((A @ [(48, mach_write_to_2 r)]) @ D @ [(54, mach_write_to_2 (rd_2 page 54 + 1))]) page"
proof -
  have valid: "index_page_valid idt page" using ok by (simp add: insert_ok_def)
  note f = page_valid_facts [OF valid] and i = insert_facts [OF ok]
  have len66: "66 \<le> length page" using f(1) by simp
  note hw = header_writes [OF len66]
  have nx: "nx < length page" "nx \<noteq> cur" using i(7) [OF i(11)] f(4,6) by (auto simp: nx_def)
  let ?q = "writes A page" and ?B = "A @ [(48, mach_write_to_2 r)]"
  have "rec_next ?q cur = nx"
    using rec_writes(2) [of page A cur] hw(1,3) i(4,5) f(6) by (auto simp: A_def nx_def)
  then show "rec_get_next_offs ?q cur True = Some nx"
    using next_get [of cur ?q] nx f i(4,5) hw(1) by (auto simp: A_def)
  show "page_header_get_field ?q 10 = rd_2 page 48"
    using rd_2_writes [of page A 48] hw(1,3) len66 by (simp add: header_field A_def)
  show "page_header_set_field 10 r ?q = writes ?B page" by (simp add: header_set writes_simps)
  have "dir_writes (rd_2 page 48) cur nx (writes ?B page) = D"
    using dir_writes_writes [of page ?B] hw(1,3) len66 by (simp add: A_def D_def)
  then show "update_direction (rd_2 page 48) cur nx (writes ?B page) = writes (?B @ D) page"
    using update_direction_writes [of "writes ?B page"] hw(1) len66 by (simp add: writes_simps A_def)
  have "rd_2 (writes (?B @ D) page) 54 = rd_2 page 54"
    using rd_2_writes [of page "?B @ D" 54] hw len66 by (simp add: A_def D_def)
  then show "page_header_set_field 16 (page_get_n_recs (writes (?B @ D) page) + 1) (writes (?B @ D) page) =
      writes (?B @ D @ [(54, mach_write_to_2 (rd_2 page 54 + 1))]) page"
    by (simp add: page_get_n_recs_def header_field header_set writes_simps)
qed

lemma insert_normal:
  assumes ok: "insert_ok idt cur hdr data fx fd page"
    and alloc: "insert_reuse hdr data fx fd page \<or> page_mem_alloc_heap (length hdr + length data) page \<noteq> None"
  defines "start \<equiv> insert_start hdr data fx fd page" and "owner \<equiv> last (walk 8 page (rec_next page cur))"
    and "page' \<equiv> writes (insert_writes cur hdr data fx fd page) page"
  shows "page_cur_insert_rec_low idt cur hdr data fx fd (page, m) = do {
      m \<leftarrow> (if m_logged m then log_insert True idt (insert_reuse hdr data fx fd page)
              (if insert_reuse hdr data fx fd page then int (length hdr) - int fx else 0) cur start owner hdr data page' m
            else Some m);
      split_owner_slot (rec_owned page owner) owner (start + length hdr) page' m }"
proof -
  have valid: "index_page_valid idt page" "space_valid hdr data fx fd page" using ok by (simp_all add: insert_ok_def)
  note f = page_valid_facts [OF valid(1)]
  note i = insert_facts [OF ok, folded start_def]
  let ?n = "length page" and ?nx = "rec_next page cur" and ?A = "alloc_writes hdr data fx fd page"
  let ?r = "start + length hdr" and ?h = "insert_heap_no hdr data fx fd page"
  have len66: "66 \<le> ?n" using f(1) by simp
  note hw = header_writes [OF len66] and steps = insert_header_steps [OF ok]
  let ?B = "?A @ [(48, mach_write_to_2 ?r)]" and ?D = "dir_writes (rd_2 page 48) cur ?nx page"
  let ?C = "?B @ ?D @ [(54, mach_write_to_2 (rd_2 page 54 + 1))]"
  have C: "within ?n ?C" using hw(1,2) len66 by simp
  have s6: "set_bytes start 0 (hdr @ data) (writes ?C page) = Some (put start (hdr @ data) (writes ?C page))"
    using i(2) C length_writes [OF C] by (simp add: set_eq)
  let ?E = "?C @ [(start, new_header ?h ?r ?nx hdr @ data), (cur - 2, mach_write_to_2 ((?r + 2 ^ 16 - cur) mod 2 ^ 16))]"
  have s7: "link_record True cur ?r ?nx ?h hdr (put start (hdr @ data) (writes ?C page)) = Some (writes ?E page)"
    using link_record_eq [OF i(3), of start data "writes ?C page" cur ?nx ?h] i(2,4,5) f(4,6) length_writes [OF C]
    by (auto simp: writes_simps)
  have E: "within ?n ?E" using C i(2-5) f(4,6) by (auto simp: length_new_header)
  have rec_clear: "clear (x - 5) 5 ?E" if "x \<in> set (walk 8 page ?nx)" for x
    using i(7) [OF that] hw(3) hw(4) len66 i(3,4) by (auto simp: length_new_header)
  have "5 \<le> x \<and> x < ?n \<and> clear (x - 5) 5 ?E" if "x \<in> set (walk 8 page ?nx)" for x
    using rec_clear [OF that] i(7) [OF that] f(4,6) by auto
  from next_owner_walk [OF E f(2) this i(8)]
  have s8: "next_owner True (writes ?E page) ?nx = Some (owner, rec_owned page owner)" by (simp add: owner_def)
  have o: "112 \<le> owner" "owner \<le> rd_2 page 40" using i(7) [OF i(10)] by (simp_all add: owner_def)
  have "clear (owner - 5) 1 ?E" using rec_clear [OF i(10)] o unfolding clear_def owner_def by fastforce
  then have "writes ?E page ! (owner - 5) = page ! (owner - 5)"
    using nth_writes_clear [OF E] o f(6) by simp
  then have s9: "rec_set_bit_field_1 owner (rec_owned page owner + 1) 5 0x0F 0 (writes ?E page) = Some page'"
    using o f(6) length_writes [OF E]
    by (simp add: rec_set_bit_field_1_def get_eqs set_eq page'_def insert_writes_def Let_def start_def owner_def writes_simps)
  show ?thesis
    unfolding page_cur_insert_rec_low_def prod.case Let_def
    using f(7) alloc_eq [OF valid] alloc steps s6 s7 s8 s9
    by (simp add: start_def [symmetric])
qed

section \<open>What is logged\<close>

lemma header_common_take: "header_common r c \<le> length r \<and> take (header_common r c) r = take (header_common r c) c"
  by (induction r c rule: header_common.induct) auto

lemma take_rev_eq:
  assumes "k \<le> length a" "length a = length c" "take k (rev a) = take k (rev c)"
  shows "drop (length a - k) a = drop (length c - k) c"
  using assms by (simp add: take_rev)

text \<open>The bytes of the header that are taken from the predecessor.\<close>

lemma hdr_common_bytes:
  assumes "hdr_common True cur hdr page = Some k" "5 \<le> length hdr" "5 \<le> cur" "cur \<le> length page"
  shows "k + 5 \<le> length hdr" "k + 5 \<le> cur" "drop (length hdr - 5 - k) (take (length hdr - 5) hdr) = take k (drop (cur - 5 - k) page)"
proof -
  let ?e = "length hdr"
  have "k + 5 \<le> ?e \<and> k + 5 \<le> cur \<and> drop (?e - 5 - k) (take (?e - 5) hdr) = take k (drop (cur - 5 - k) page)"
  proof (cases "?e > 5 \<and> cur \<ge> 125 + ?e")
    case True
    let ?a = "take (?e - 5) hdr" and ?c = "take (?e - 5) (drop (cur - ?e) page)"
    have k: "k = header_common (rev ?a) (rev ?c)"
      using assms True by (simp add: hdr_common_def get_eqs Let_def)
    have len: "length ?a = ?e - 5" "length ?c = ?e - 5" using True assms(4) by auto
    have le: "k \<le> ?e - 5" using header_common_take [of "rev ?a" "rev ?c"] len(1) unfolding k by simp
    have "take k (rev ?a) = take k (rev ?c)" using header_common_take [of "rev ?a" "rev ?c"] unfolding k by blast
    then have "drop (?e - 5 - k) ?a = drop (?e - 5 - k) ?c" using take_rev_eq [of k ?a ?c] le len by simp
    moreover have "?e - 5 - (?e - 5 - k) = k" "?e - 5 - k + (cur - ?e) = cur - 5 - k" using le True by auto
    then have "drop (?e - 5 - k) ?c = take k (drop (cur - 5 - k) page)" by (simp only: drop_take drop_drop)
    ultimately show ?thesis using le True by auto
  next
    case False
    then have "k = 0" using assms(1) by (auto simp: hdr_common_def)
    then show ?thesis using assms by simp
  qed
  then show "k + 5 \<le> length hdr" "k + 5 \<le> cur"
    "drop (length hdr - 5 - k) (take (length hdr - 5) hdr) = take k (drop (cur - 5 - k) page)" by auto
qed

lemma insert_within:
  assumes ok: "insert_ok idt cur hdr data fx fd page"
  shows "within (length page) (insert_writes cur hdr data fx fd page)"
proof -
  have valid: "index_page_valid idt page" using ok by (simp add: insert_ok_def)
  note f = page_valid_facts [OF valid] and i = insert_facts [OF ok]
  show ?thesis
    using f(1,6) i(2-5) i(7) [OF i(10)] header_writes(1,2) [of page]
    by (auto simp: insert_writes_def Let_def length_new_header)
qed

text \<open>What a place that is not written and the new record hold afterwards.\<close>

lemma insert_clear:
  assumes ok: "insert_ok idt cur hdr data fx fd page"
    and a: "64 \<le> a" "a + k \<le> cur - 2 \<or> cur \<le> a"
      "a + k \<le> insert_start hdr data fx fd page \<or> insert_start hdr data fx fd page + length hdr + length data \<le> a"
      "a + k + 5 \<le> last (walk 8 page (rec_next page cur)) \<or> last (walk 8 page (rec_next page cur)) \<le> a + 4"
  shows "clear a k (insert_writes cur hdr data fx fd page)"
proof -
  have "66 \<le> length page" using ok page_valid_facts(1) [of idt page] by (simp add: insert_ok_def)
  note hw = header_writes(3,4) [OF this] and i = insert_facts [OF ok]
  show ?thesis
    using a hw i(3,4) i(7) [OF i(10)] by (auto simp: insert_writes_def Let_def length_new_header)
qed

lemma insert_record_area:
  assumes ok: "insert_ok idt cur hdr data fx fd page"
  defines "start \<equiv> insert_start hdr data fx fd page"
  shows "take (length hdr + length data) (drop start (writes (insert_writes cur hdr data fx fd page) page)) =
    new_header (insert_heap_no hdr data fx fd page) (start + length hdr) (rec_next page cur) hdr @ data"
proof -
  let ?rec = "new_header (insert_heap_no hdr data fx fd page) (start + length hdr) (rec_next page cur) hdr @ data"
  let ?owner = "last (walk 8 page (rec_next page cur))"
  note i = insert_facts [OF ok, folded start_def]
  have len: "length ?rec = length hdr + length data" using i(3) by (simp add: length_new_header)
  obtain A ws where w: "insert_writes cur hdr data fx fd page = (A @ [(start, ?rec)]) @ ws"
    and ws: "ws = [(cur - 2, mach_write_to_2 ((start + length hdr + 2 ^ 16 - cur) mod 2 ^ 16)),
      (?owner - 5, [(page ! (?owner - 5) AND NOT 0x0F) OR byte_of (rec_owned page ?owner + 1)])]"
    by (simp add: insert_writes_def Let_def start_def)
  have within: "within (length page) (A @ [(start, ?rec)])" "within (length page) ws"
    using insert_within [OF ok] unfolding w by simp_all
  have "clear start (length ?rec) ws"
    using i(3,4,6) i(7) [OF i(10)] unfolding len ws by (auto simp: header_scan_def split: if_splits)
  then have "take (length ?rec) (drop start (writes ws (writes (A @ [(start, ?rec)]) page))) =
      take (length ?rec) (drop start (writes (A @ [(start, ?rec)]) page))"
    using area_writes [of "writes (A @ [(start, ?rec)]) page" ws start "length ?rec"] within by simp
  also have "\<dots> = ?rec" using within drop_put [of start "writes A page" ?rec] by (simp add: writes_simps)
  finally show ?thesis unfolding w writes_simps(3) [of _ ws] len .
qed

end
