(* ===== verification/Index_Replay.thy ===== *)
theory Index_Replay
  imports Index_Insert
begin

text \<open>
  Recovery repeats the insertions of records.
\<close>

unbundle bit_operations_syntax

definition insert_hdr_c :: "nat \<Rightarrow> byte list \<Rightarrow> byte list \<Rightarrow> nat" where
  "insert_hdr_c cur hdr page = the (hdr_common True cur hdr page)"

definition insert_data_c :: "nat \<Rightarrow> byte list \<Rightarrow> byte list \<Rightarrow> nat \<Rightarrow> nat \<Rightarrow> byte list \<Rightarrow> nat" where
  "insert_data_c cur hdr data fx fd page =
     same_prefix (take (common_end True cur (length data) (insert_start hdr data fx fd page)
       (last (walk 8 page (rec_next page cur))) page - cur) (drop cur page)) data"

lemma common_end_cong:
  "length p = length q \<Longrightarrow> page_dir_get_n_slots p = page_dir_get_n_slots q \<Longrightarrow>
   common_end c cur n s ow p = common_end c cur n s ow q"
  by (simp only: common_end_def)

text \<open>The header of the file page, the number of slots, the level and the slots are not written.\<close>

lemma insert_clear_rest:
  assumes ok: "insert_ok idt cur hdr data fx fd page"
    and a: "a + k \<le> 40 \<or> 56 \<le> a \<and> a + k \<le> 97 \<or> length page \<le> a + 2 * page_dir_get_n_slots page + 8"
  shows "clear a k (insert_writes cur hdr data fx fd page)"
proof -
  have valid: "index_page_valid idt page" using ok by (simp add: insert_ok_def)
  note f = page_valid_facts [OF valid] and i = insert_facts [OF ok]
  have "66 \<le> length page" using f(1) by simp
  note hw = header_writes(3,4) [OF this]
  show ?thesis
    using a f(1,5,6) hw i(1-5) i(7) [OF i(10)] by (auto simp: insert_writes_def Let_def length_new_header)
qed

lemma common_end_bounds:
  assumes ok: "insert_ok idt cur hdr data fx fd page"
  defines "start \<equiv> insert_start hdr data fx fd page" and "owner \<equiv> last (walk 8 page (rec_next page cur))"
  defines "c_end \<equiv> common_end True cur (length data) start owner page"
  shows "cur \<le> c_end" "c_end + 8 \<le> length page" "cur \<le> start \<Longrightarrow> c_end \<le> start"
    "c_end + 5 \<le> owner \<or> owner \<le> cur"
proof -
  have valid: "index_page_valid idt page" using ok by (simp add: insert_ok_def)
  note f = page_valid_facts [OF valid] and i = insert_facts [OF ok, folded start_def]
  note o = i(7) [OF i(10), folded owner_def]
  show "cur \<le> c_end" "c_end + 8 \<le> length page" "cur \<le> start \<Longrightarrow> c_end \<le> start"
    using o i(2,4,5) f(1,4,6) by (auto simp: c_end_def common_end_def Let_def)
  show "c_end + 5 \<le> owner \<or> owner \<le> cur"
    using ok by (auto simp: insert_ok_def Let_def c_end_def start_def owner_def)
qed

text \<open>The header bytes in common with the predecessor, on the page before and after the insertion.\<close>

lemma insert_common_header:
  assumes ok: "insert_ok idt cur hdr data fx fd page"
  defines "hc \<equiv> insert_hdr_c cur hdr page" and "W \<equiv> insert_writes cur hdr data fx fd page"
  shows "hdr_common True cur hdr page = Some hc" "hdr_common True cur hdr (writes W page) = Some hc"
    and "hc = 0 \<or> clear (cur - 5 - hc) hc W"
proof -
  let ?e = "length hdr" and ?start = "insert_start hdr data fx fd page" and ?owner = "last (walk 8 page (rec_next page cur))"
  have valid: "index_page_valid idt page" using ok by (simp add: insert_ok_def)
  note f = page_valid_facts [OF valid] and i = insert_facts [OF ok]
  note within = insert_within [OF ok, folded W_def]
  have scan: "cur \<le> ?owner \<or> ?owner + header_scan cur hdr \<le> cur + 4" using ok by (auto simp: insert_ok_def Let_def)
  show hc: "hdr_common True cur hdr page = Some hc"
    using i(5) f(6) by (auto simp: hc_def insert_hdr_c_def hdr_common_def Let_def get_eqs)
  have area: "clear (cur - ?e) (?e - 5) W" if "125 + ?e \<le> cur" unfolding W_def
  proof (rule insert_clear [OF ok])
    have hs: "header_scan cur hdr = ?e" using that by (simp add: header_scan_def)
    show "64 \<le> cur - ?e" "cur - ?e + (?e - 5) \<le> cur - 2 \<or> cur \<le> cur - ?e" using that i(3) by linarith+
    show "cur - ?e + (?e - 5) \<le> ?start \<or> ?start + ?e + length data \<le> cur - ?e" using that i(3,6) hs by linarith
    show "cur - ?e + (?e - 5) + 5 \<le> ?owner \<or> ?owner \<le> cur - ?e + 4" using that i(3) scan hs by linarith
  qed
  have "clear (cur - 5 - hc) hc W" if "hc \<noteq> 0"
  proof -
    have "125 + ?e \<le> cur" using hc that by (simp add: hdr_common_def Let_def split: if_splits)
    then show ?thesis
      using clear_part [OF area] hdr_common_bytes(1) [OF hc i(3)] i(3,5) f(6) by simp
  qed
  then show "hc = 0 \<or> clear (cur - 5 - hc) hc W" by blast
  show "hdr_common True cur hdr (writes W page) = Some hc"
    using hc area area_writes [OF within, of "cur - ?e" "?e - 5"] i(5) f(6) within
    by (auto simp: hdr_common_def Let_def get_eqs split: if_splits)
qed

text \<open>The same for the data.\<close>

lemma insert_common_data:
  assumes ok: "insert_ok idt cur hdr data fx fd page"
  defines "start \<equiv> insert_start hdr data fx fd page" and "owner \<equiv> last (walk 8 page (rec_next page cur))"
    and "dc \<equiv> insert_data_c cur hdr data fx fd page" and "W \<equiv> insert_writes cur hdr data fx fd page"
  shows "dc \<le> length data" "cur + dc \<le> length page" "take dc data = take dc (drop cur page)" "clear cur dc W"
    and "get_bytes (common_end True cur (length data) start owner (writes W page) - cur) (writes W page) cur 0 =
      Some (take (common_end True cur (length data) start owner page - cur) (drop cur page))"
    and "cur \<le> common_end True cur (length data) start owner (writes W page)"
proof -
  have valid: "index_page_valid idt page" using ok by (simp add: insert_ok_def)
  note f = page_valid_facts [OF valid] and i = insert_facts [OF ok, folded start_def]
  note o = i(7) [OF i(10), folded owner_def] and within = insert_within [OF ok, folded W_def]
  define c_end where "c_end = common_end True cur (length data) start owner page"
  note c = common_end_bounds [OF ok, folded start_def owner_def, folded c_end_def]
  have "rd_2 (writes W page) 38 = rd_2 page 38"
    unfolding W_def using rd_2_writes [OF insert_within [OF ok] insert_clear_rest [OF ok]] f(1) by simp
  then have ce: "common_end True cur (length data) start owner (writes W page) = c_end"
    unfolding c_end_def using within by (intro common_end_cong) (simp_all add: page_dir_get_n_slots_def header_field)
  have clr: "clear cur (c_end - cur) W"
    unfolding W_def using insert_clear [OF ok, folded start_def owner_def, of cur "c_end - cur"] c i(3,4,6) o
    by (auto simp: header_scan_def split: if_splits)
  show "dc \<le> length data" by (simp add: dc_def insert_data_c_def same_prefix_le)
  have pre: "same_prefix a b \<le> length a" for a b :: "byte list" by (induction a b rule: same_prefix.induct) auto
  have "dc \<le> length (take (c_end - cur) (drop cur page))"
    unfolding dc_def insert_data_c_def c_end_def start_def owner_def by (rule pre)
  then have dce: "dc \<le> c_end - cur" by simp
  then show "cur + dc \<le> length page" using c(1,2) by simp
  show "take dc data = take dc (drop cur page)"
    using same_prefix_take [of "take (c_end - cur) (drop cur page)" data] dce
    by (simp add: dc_def insert_data_c_def c_end_def start_def owner_def min_def)
  show "clear cur dc W" using clear_part [OF clr] dce by simp
  show "get_bytes (common_end True cur (length data) start owner (writes W page) - cur) (writes W page) cur 0 =
      Some (take (common_end True cur (length data) start owner page - cur) (drop cur page))"
    unfolding ce c_end_def [symmetric] using area_writes [OF within clr] within c(1,2) by (simp add: get_eqs)
  show "cur \<le> common_end True cur (length data) start owner (writes W page)" unfolding ce by (rule c(1))
qed

lemma log_insert_eq:
  assumes ok: "insert_ok idt cur hdr data fx fd page"
  defines "start \<equiv> insert_start hdr data fx fd page" and "owner \<equiv> last (walk 8 page (rec_next page cur))"
    and "hc \<equiv> insert_hdr_c cur hdr page" and "dc \<equiv> insert_data_c cur hdr data fx fd page"
  shows "log_insert True idt reuse fo cur start owner hdr data (writes (insert_writes cur hdr data fx fd page) page) m =
      Some (page_insert_dynamic idt reuse (cur - 99)
        ((hdr ! (length hdr - 5) AND 0xF0) OR (hdr ! (length hdr - 3) AND 7)) fo hc dc
        (take (length hdr - 5 - hc) hdr) (drop dc data) m)"
proof -
  let ?e = "length hdr" and ?q = "writes (insert_writes cur hdr data fx fd page) page"
  note i = insert_facts [OF ok, folded start_def] and h = insert_common_header [OF ok, folded hc_def]
    and d = insert_common_data [OF ok, folded start_def owner_def]
  have dc: "same_prefix (take (common_end True cur (length data) start owner page - cur) (drop cur page)) data = dc"
    by (simp add: dc_def insert_data_c_def start_def owner_def)
  have "take (?e - hc - 5) (drop start ?q) = take (?e - 5 - hc) hdr"
    using arg_cong [OF insert_record_area [OF ok, folded start_def], of "take (?e - 5 - hc)"] i(3)
    by (simp add: new_header_def Let_def min_absorb1 add.commute)
  then have lit: "get_bytes (?e - hc - 5) ?q start 0 = Some (take (?e - 5 - hc) hdr)"
    using insert_within [OF ok] i(2) by (simp add: get_eqs)
  have "?e - 5 < ?e" "?e - 3 < ?e" using i(3) by auto
  then have info: "rec_get_info_and_status_bits (hdr @ data) ?e True =
      Some ((hdr ! (?e - 5) AND 0xF0) OR (hdr ! (?e - 3) AND 7))"
    using i(3) by (simp add: rec_get_info_and_status_bits_def rec_get_info_bits_def rec_get_status_def
        rec_get_bit_field_1_def get_eqs nth_append)
  have le: "\<not> common_end True cur (length data) start owner ?q < cur" using d(6) by simp
  show ?thesis
    unfolding log_insert_def Let_def by (simp only: info h(2) le if_False if_True d(5) dc lit bind.bind_lunit)
qed

section \<open>The reader\<close>

text \<open>How far the origin of the reused record moves, as it is logged.\<close>

definition insert_shift :: "byte list \<Rightarrow> nat \<Rightarrow> nat" where
  "insert_shift hdr fx = (if length hdr < fx then push_bit 1 (fx - length hdr) OR 1 else push_bit 1 (length hdr - fx))"

lemma insert_shift_simps:
  "odd (insert_shift hdr fx) \<longleftrightarrow> length hdr < fx"
  "drop_bit 1 (insert_shift hdr fx) = (if length hdr < fx then fx - length hdr else length hdr - fx)"
proof -
  have "push_bit 1 k OR 1 = 2 * k + 1" for k :: nat using push_or [of 1 1 k] by (simp add: mult.commute)
  then show "odd (insert_shift hdr fx) \<longleftrightarrow> length hdr < fx"
    "drop_bit 1 (insert_shift hdr fx) = (if length hdr < fx then fx - length hdr else length hdr - fx)"
    by (simp_all add: insert_shift_def push_bit_eq_mult drop_bit_eq_div)
qed

lemma apply_alloc_eq:
  assumes valid: "index_page_valid idt page" and space: "space_valid hdr data fx fd page"
  shows "apply_alloc_dynamic (insert_reuse hdr data fx fd page) (if insert_reuse hdr data fx fd page then insert_shift hdr fx else 0)
      (length hdr) (length data) page =
    Some (Some (insert_start hdr data fx fd page, insert_heap_no hdr data fx fd page, writes (alloc_writes hdr data fx fd page) page))"
proof (cases "insert_reuse hdr data fx fd page")
  case True
  note f = page_valid_facts [OF valid]
  let ?free = "rd_2 page 44" and ?sz = "length hdr + length data" and ?A = "alloc_writes hdr data fx fd page"
  have s: "125 \<le> ?free" "?free \<le> rd_2 page 40" "120 + fx \<le> ?free" "?free + fd \<le> rd_2 page 40" "?sz \<le> rd_2 page 46" "?sz \<le> fx + fd"
    "rd_2 page (?free - 2) = 0 \<or> 125 \<le> rec_next page ?free \<and> rec_next page ?free \<le> rd_2 page 40"
    using space True by (auto simp: space_valid_def user_rec_def Let_def header_field insert_reuse_def)
  have "rd_2 (writes ?A page) (?free - 4) = rd_2 page (?free - 4)"
    by (rule rd_2_writes [OF header_writes(1) header_writes(3)]) (use f(1,6) s(1,2) in linarith)+
  then have "rec_get_heap_no_new (writes ?A page) ?free = Some (insert_heap_no hdr data fx fd page)"
    using header_writes(1) [of page hdr data fx fd] f(1,6) s(1,2) True
    by (simp add: rec_get_heap_no_new_def rec_get_bit_field_2_def get_eqs insert_heap_no_def)
  moreover have "?free + (if length hdr < fx then 0 else length hdr - fx) - (length hdr + (if length hdr < fx then fx - length hdr else 0)) =
      ?free - fx" using s(3) by auto
  ultimately show ?thesis
    using True s f(1,6)
    by (auto simp: apply_alloc_dynamic_def Let_def header_field header_set insert_shift_simps get_eqs rec_next_def insert_start_def
        alloc_writes_def writes_simps add.commute simp del: One_nat_def)
next
  case False
  have "\<not> behind_slot page (page_dir_get_n_slots page - 1) (rd_2 page 40 + (length hdr + length data))"
    using space False by (simp add: space_valid_def header_field Let_def)
  moreover have "66 \<le> length page" using page_valid_facts(1) [OF valid] by simp
  then have "writes [(42, mach_write_to_2 a), (40, mach_write_to_2 b)] page = writes [(40, mach_write_to_2 b), (42, mach_write_to_2 a)] page"
    for a b by (intro writes_mset) auto
  ultimately show ?thesis
    using False
    by (simp add: apply_alloc_dynamic_def Let_def header_field header_set insert_heap_no_def insert_start_def alloc_writes_def writes_simps)
qed

lemma small_and:
  fixes n k :: nat
  assumes "k < 8"
  shows "drop_bit 3 (push_bit 3 n OR k) = n" "(push_bit 3 n OR k) AND 3 = k AND 3" "(push_bit 3 n OR k) AND 4 = k AND 4"
proof -
  have x: "push_bit 3 n OR k = n * 8 + k" using push_or [of k 3 n] assms by simp
  show "drop_bit 3 (push_bit 3 n OR k) = n" unfolding x using assms by (simp add: drop_bit_eq_div)
  have "y AND take_bit 3 m = take_bit 3 y AND take_bit 3 m" for y m :: nat
    by (rule bit_eqI) (auto simp: bit_simps)
  from this [of "n * 8 + k" 3] this [of "n * 8 + k" 4]
  show "(push_bit 3 n OR k) AND 3 = k AND 3" "(push_bit 3 n OR k) AND 4 = k AND 4"
    using assms unfolding x by (simp_all add: take_bit_eq_mod)
qed

lemma byte_eqI:
  fixes x y :: byte
  assumes "bit x 0 = bit y 0" "bit x 1 = bit y 1" "bit x 2 = bit y 2" "bit x 3 = bit y 3"
    "bit x 4 = bit y 4" "bit x 5 = bit y 5" "bit x 6 = bit y 6" "bit x 7 = bit y 7"
  shows "x = y"
proof (rule bit_word_eqI)
  fix n
  assume "n < LENGTH(8)"
  then have "n \<in> {0, 1, 2, 3, 4, 5, 6, 7}" by auto
  then show "bit x n = bit y n" using assms by auto
qed

lemma byte_bits:
  fixes x :: byte
  shows "drop_bit 4 (x AND 0xF0) = drop_bit 4 x" "drop_bit 4 (x AND 7) = 0" "(x AND 0xF0) AND 4 = 0"
    "(x AND 7) AND 4 = x AND 4" "x AND 4 = (if bit x 2 then 4 else 0)"
    "byte_of (push_bit 4 (unat (drop_bit 4 x))) = x AND NOT 0x0F"
  by (rule byte_eqI; simp add: bit_simps impossible_bit)+

lemma info_bits:
  fixes x0 x2 :: byte
  assumes "x0 AND 0xC0 = 0"
  defines "s \<equiv> (x0 AND 0xF0) OR (x2 AND 7)"
  shows "unat (drop_bit 4 s) < 4" "byte_of (push_bit 4 (unat (drop_bit 4 s))) = x0 AND NOT 0x0F"
    "s AND 4 = x2 AND 4" "unat (s AND 4) = 0 \<or> unat (s AND 4) = 4"
proof -
  have d: "drop_bit 4 s = drop_bit 4 x0" by (simp only: s_def drop_bit_or byte_bits or.right_neutral)
  show "byte_of (push_bit 4 (unat (drop_bit 4 s))) = x0 AND NOT 0x0F"
    unfolding d by (rule byte_bits(6))
  have "bit (x0 AND 0xC0) 6 = False" "bit (x0 AND 0xC0) 7 = False" using assms(1) by (simp_all only: bit_0_eq) auto
  then have "drop_bit 4 x0 = drop_bit 4 x0 AND 3" by (intro byte_eqI) (simp_all add: bit_simps impossible_bit)
  then have "drop_bit 4 x0 \<le> 3" by (metis word_and_le1)
  then show "unat (drop_bit 4 s) < 4" unfolding d by (simp add: word_le_nat_alt)
  show "s AND 4 = x2 AND 4" by (simp only: s_def word_ao_dist byte_bits(3,4) or.left_neutral)
  then show "unat (s AND 4) = 0 \<or> unat (s AND 4) = 4" using byte_bits(5) [of x2] by auto
qed

text \<open>The lengths and bits of the header as they are logged.\<close>

definition insert_enc :: "byte list \<Rightarrow> nat \<Rightarrow> nat" where
  "insert_enc hdr hc =
     (let s = (hdr ! (length hdr - 5) AND 0xF0) OR (hdr ! (length hdr - 3) AND 7)
      in push_bit 3 (length hdr - 5 - hc) OR unat (s AND 4) OR unat (drop_bit 4 s))"

lemma insert_enc_facts:
  assumes "header_valid hdr page"
  shows "drop_bit 3 (insert_enc hdr hc) = length hdr - 5 - hc"
    "byte_of (push_bit 4 (insert_enc hdr hc AND 3)) = hdr ! (length hdr - 5) AND NOT 0x0F"
    "(if page_is_leaf page then insert_enc hdr hc AND 4 else 1) = unat (hdr ! (length hdr - 3)) AND 7"
    "\<not> page_is_leaf page \<Longrightarrow> insert_enc hdr hc AND 4 = 0"
proof -
  let ?x0 = "hdr ! (length hdr - 5)" and ?x2 = "hdr ! (length hdr - 3)" and ?n = "length hdr - 5 - hc"
  let ?s = "(?x0 AND 0xF0) OR (?x2 AND 7)"
  let ?a = "unat (?s AND 4)" and ?b = "unat (drop_bit 4 ?s)"
  have valid: "?x0 AND 0xC0 = 0" "if page_is_leaf page then ?x2 AND 7 \<in> {0, 4} else ?x2 AND 7 = 1"
    using assms unfolding header_valid_def by blast+
  note s = info_bits [OF valid(1), of ?x2]
  have b: "?b \<in> {0, 1, 2, 3}" using s(1) by auto
  have k: "?a OR ?b < 8" "(?a OR ?b) AND 3 = ?b" "(?a OR ?b) AND 4 = ?a"
    using b s(4) by auto
  have enc: "insert_enc hdr hc = push_bit 3 ?n OR (?a OR ?b)" by (simp add: insert_enc_def Let_def or.assoc)
  note e = small_and [OF k(1), of ?n, folded enc]
  show "drop_bit 3 (insert_enc hdr hc) = length hdr - 5 - hc" by (rule e(1))
  show "byte_of (push_bit 4 (insert_enc hdr hc AND 3)) = ?x0 AND NOT 0x0F" using e(2) k(2) s(2) by simp
  have a: "insert_enc hdr hc AND 4 = unat ((?x2 AND 7) AND 4)" using e(3) k(3) s(3) unfolding byte_bits(4) by simp
  have x2: "unat ?x2 AND 7 = unat (?x2 AND 7)" by (simp add: unsigned_and_eq)
  show "(if page_is_leaf page then insert_enc hdr hc AND 4 else 1) = unat ?x2 AND 7"
    "\<not> page_is_leaf page \<Longrightarrow> insert_enc hdr hc AND 4 = 0"
    unfolding a x2 using valid(2) by (cases "page_is_leaf page"; fastforce)+
qed

text \<open>The new record as the reader builds it.\<close>

definition replay_writes :: "nat \<Rightarrow> byte list \<Rightarrow> byte list \<Rightarrow> nat \<Rightarrow> nat \<Rightarrow> byte list \<Rightarrow> (nat \<times> byte list) list" where
  "replay_writes cur hdr data fx fd page =
     (let start = insert_start hdr data fx fd page;
          insert_rec = start + length hdr
      in alloc_writes hdr data fx fd page @
         [(start, new_header (insert_heap_no hdr data fx fd page) insert_rec (rec_next page cur) hdr),
          (48, mach_write_to_2 insert_rec), (cur - 2, mach_write_to_2 ((insert_rec + 2 ^ 16 - cur) mod 2 ^ 16)),
          (insert_rec, data)])"

lemma clear_alloc_part:
  assumes ok: "insert_ok idt cur hdr data fx fd page" and W: "clear a k (insert_writes cur hdr data fx fd page)"
    and b: "length b \<le> length hdr + length data"
  shows "clear a k (alloc_writes hdr data fx fd page @ [(insert_start hdr data fx fd page, b)])"
proof -
  have "clear a k [(insert_start hdr data fx fd page, new_header h r n hdr @ data)]" for h r n
    using W insert_facts(3) [OF ok] by (auto simp: insert_writes_def Let_def length_new_header)
  then show ?thesis
    using W b insert_facts(3) [OF ok] by (auto simp: insert_writes_def Let_def length_new_header)
qed

text \<open>The steps that write the header of the record, each behind the one before.\<close>

lemma apply_header_steps:
  assumes ok: "insert_ok idt cur hdr data fx fd page"
  defines "start \<equiv> insert_start hdr data fx fd page" and "h \<equiv> insert_heap_no hdr data fx fd page"
    and "hc \<equiv> insert_hdr_c cur hdr page" and "e \<equiv> length hdr" and "A \<equiv> alloc_writes hdr data fx fd page"
  defines "P \<equiv> \<lambda>b. writes (A @ [(start, b)]) page"
    and "b3 \<equiv> [hdr ! (e - 5) AND NOT 0x0F, byte_of (drop_bit 5 h), byte_of (push_bit 3 (h AND 31) OR (unat (hdr ! (e - 3)) AND 7))]"
  shows "set_bytes start 0 (take (e - 5 - hc) hdr) (writes A page) = Some (P (take (e - 5 - hc) hdr))"
    "get_bytes hc (P (take (e - 5 - hc) hdr)) cur (5 + hc) = Some (take hc (drop (cur - 5 - hc) page))"
    "set_bytes (start + (e - 5 - hc)) 0 (take hc (drop (cur - 5 - hc) page)) (P (take (e - 5 - hc) hdr)) = Some (P (take (e - 5) hdr))"
    "page_is_leaf (P (take (e - 5) hdr)) = page_is_leaf page"
    "set_bytes (start + (e - 5)) 0 b3 (P (take (e - 5) hdr)) = Some (P (take (e - 5) hdr @ b3))"
    "set_2 (start + e) 2 ((rec_next page cur + 2 ^ 16 - (start + e)) mod 2 ^ 16) (P (take (e - 5) hdr @ b3)) =
      Some (P (new_header h (start + e) (rec_next page cur) hdr))"
proof -
  have valid: "index_page_valid idt page" using ok by (simp add: insert_ok_def)
  note f = page_valid_facts [OF valid] and i = insert_facts [OF ok, folded start_def e_def]
  note hd = insert_common_header [OF ok, folded hc_def]
  have cur: "5 \<le> cur" "cur \<le> length page" using i(4,5) f(6) by auto
  note hb = hdr_common_bytes [OF hd(1) i(3) [unfolded e_def] cur, folded e_def]
  have A: "within (length page) A" using header_writes(1) f(1) by (simp add: A_def)
  have in_page: "within (length page) (A @ [(start, b)])" if "length b \<le> e + length data" for b using A that i(2) by simp
  have len: "length (P b) = length page" if "length b \<le> e + length data" for b unfolding P_def using in_page [OF that] by simp
  have part: "clear a k (A @ [(start, b)])" if "clear a k (insert_writes cur hdr data fx fd page)" "length b \<le> e + length data" for a k b
    using clear_alloc_part [OF ok, of a k b] that by (simp add: start_def A_def e_def)
  have behind: "put (start + length b) c (P b) = P (b @ c)" if "length b + length c \<le> e + length data" for b c
    unfolding P_def using writes_behind [OF in_page [of b]] that by simp
  let ?lit = "take (e - 5 - hc) hdr" and ?ch = "take hc (drop (cur - 5 - hc) page)" and ?hdr = "take (e - 5) hdr"
  have lens: "length ?lit = e - 5 - hc" "length ?hdr = e - 5" "length (?hdr @ b3) = e - 2" using i(3) by (simp_all add: e_def b3_def)
  show "set_bytes start 0 ?lit (writes A page) = Some (P ?lit)" using i(2) A lens(1) by (simp add: set_eq writes_simps P_def)
  have "take hc (drop (cur - 5 - hc) (P ?lit)) = ?ch"
    using area_writes [OF in_page part [OF _], of ?lit "cur - 5 - hc" hc] hd(3) hb(2) cur lens(1) by (cases "hc = 0") (simp_all add: P_def)
  then show "get_bytes hc (P ?lit) cur (5 + hc) = Some ?ch" using hb(2) cur len [of ?lit] lens(1) by (simp add: get_eqs)
  have "?lit = take (e - 5 - hc) ?hdr" by (simp add: min_absorb1)
  then have "?lit @ ?ch = ?hdr" using hb(3) append_take_drop_id by metis
  then show "set_bytes (start + (e - 5 - hc)) 0 ?ch (P ?lit) = Some (P ?hdr)"
    using behind [of ?lit ?ch] hb(1) len [of ?lit] i(2) lens(1) by (simp add: set_eq)
  have "clear 64 2 (insert_writes cur hdr data fx fd page)" by (rule insert_clear_rest [OF ok]) simp
  then have "rd_2 (P ?hdr) 64 = rd_2 page 64" unfolding P_def using rd_2_writes [OF in_page part] f(1) lens(2) by simp
  then show "page_is_leaf (P ?hdr) = page_is_leaf page" by (simp add: page_is_leaf_def header_field)
  show "set_bytes (start + (e - 5)) 0 b3 (P ?hdr) = Some (P (?hdr @ b3))"
    using behind [of ?hdr b3] len [of ?hdr] i(2,3) lens by (simp add: set_eq b3_def)
  have "(?hdr @ b3) @ mach_write_to_2 ((rec_next page cur + 2 ^ 16 - (start + e)) mod 2 ^ 16) = new_header h (start + e) (rec_next page cur) hdr"
    by (simp add: new_header_def Let_def b3_def e_def)
  then show "set_2 (start + e) 2 ((rec_next page cur + 2 ^ 16 - (start + e)) mod 2 ^ 16) (P (?hdr @ b3)) =
      Some (P (new_header h (start + e) (rec_next page cur) hdr))"
    using behind [of "?hdr @ b3" "mach_write_to_2 ((rec_next page cur + 2 ^ 16 - (start + e)) mod 2 ^ 16)"] len [of "?hdr @ b3"] i(2,3)
    unfolding lens by (simp add: set_eq)
qed

lemma apply_record_eq:
  assumes ok: "insert_ok idt cur hdr data fx fd page"
  defines "start \<equiv> insert_start hdr data fx fd page" and "h \<equiv> insert_heap_no hdr data fx fd page"
    and "hc \<equiv> insert_hdr_c cur hdr page" and "dc \<equiv> insert_data_c cur hdr data fx fd page"
  shows "apply_record_dynamic start h cur (rec_next page cur) (insert_enc hdr hc) hc dc
      (take (length hdr - 5 - hc) hdr @ drop dc data) (writes (alloc_writes hdr data fx fd page) page) =
    Some (writes (replay_writes cur hdr data fx fd page) page)"
proof -
  let ?e = "length hdr" and ?n = "length page" and ?A = "alloc_writes hdr data fx fd page" and ?nx = "rec_next page cur"
  let ?nh = "new_header h (start + ?e) ?nx hdr" and ?lit = "take (?e - 5 - hc) hdr"
  have valid: "index_page_valid idt page" "header_valid hdr page" using ok by (simp_all add: insert_ok_def)
  note f = page_valid_facts [OF valid(1)] and i = insert_facts [OF ok, folded start_def]
  note L = insert_common_data [OF ok, folded start_def dc_def] and lnh = length_new_header [OF i(3)]
  note enc = insert_enc_facts [OF valid(2), of hc] and steps = apply_header_steps [OF ok, folded start_def h_def hc_def]
  have cur: "5 \<le> cur" "cur \<le> ?n" using i(4,5) f(6) by auto
  note hb = hdr_common_bytes [OF insert_common_header(1) [OF ok, folded hc_def] i(3) cur]
  let ?R = "?A @ [(start, ?nh), (48, mach_write_to_2 (start + ?e)), (cur - 2, mach_write_to_2 ((start + ?e + 2 ^ 16 - cur) mod 2 ^ 16))]"
  have R: "within ?n ?R" using header_writes(1) [of page] i(2) cur lnh f(1) by simp
  then have "within ?n (?A @ [(start, ?nh)])" by simp
  from length_writes [OF this]
  have s7: "set_2 cur 2 ((start + ?e + 2 ^ 16 - cur) mod 2 ^ 16) (page_header_set_field 10 (start + ?e) (writes (?A @ [(start, ?nh)]) page)) =
      Some (writes ?R page)"
    using cur f(1) by (simp add: set_eq writes_simps header_set)
  have "clear cur dc ?R"
    using clear_alloc_part [OF ok L(4), of ?nh] lnh i(4) by (auto simp: start_def)
  then have s8: "get_bytes dc (writes ?R page) cur 0 = Some (take dc data)"
    using area_writes [OF R] length_writes [OF R] L(2,3) by (simp add: get_eqs)
  have s9: "set_bytes (start + ?e) 0 (take dc data) (writes ?R page) = Some (writes (?R @ [(start + ?e, take dc data)]) page)"
    using length_writes [OF R] i(2) L(1) by (simp add: set_eq writes_simps)
  have "within ?n (?R @ [(start + ?e, take dc data)])" using R i(2) L(1) by simp
  from writes_behind [OF this, of "drop dc data"] length_writes [OF this]
  have s10: "set_bytes (start + ?e + dc) 0 (drop dc data) (writes (?R @ [(start + ?e, take dc data)]) page) =
      Some (writes (replay_writes cur hdr data fx fd page) page)"
    using i(2) L(1) by (simp add: set_eq replay_writes_def Let_def start_def h_def)
  have ar: "start + (?e - 5 - hc) + hc = start + (?e - 5)" "start + (?e - 5) + 3 + 2 = start + ?e" using hb(1) by simp_all
  have tk: "take (?e - 5 - hc) (?lit @ drop dc data) = ?lit" "drop (?e - 5 - hc) (?lit @ drop dc data) = drop dc data" by simp_all
  show ?thesis
    unfolding apply_record_dynamic_def Let_def
    by (simp only: enc tk ar steps s7 s8 s9 s10 bind.bind_lunit)
qed

text \<open>The writes of the insertion, the record in two parts.\<close>

lemma insert_writes_parts:
  assumes ok: "insert_ok idt cur hdr data fx fd page"
  defines "start \<equiv> insert_start hdr data fx fd page" and "owner \<equiv> last (walk 8 page (rec_next page cur))"
  defines "T \<equiv> replay_writes cur hdr data fx fd page @
    [(owner - 5, [(page ! (owner - 5) AND NOT 0x0F) OR byte_of (rec_owned page owner + 1)])] @
    dir_writes (rd_2 page 48) cur (rec_next page cur) page @ [(54, mach_write_to_2 (rd_2 page 54 + 1))]"
  shows "writes T page = writes (insert_writes cur hdr data fx fd page) page" "within (length page) T" "apart T"
proof -
  let ?nh = "new_header (insert_heap_no hdr data fx fd page) (start + length hdr) (rec_next page cur) hdr"
  let ?A = "alloc_writes hdr data fx fd page" and ?D = "dir_writes (rd_2 page 48) cur (rec_next page cur) page"
  let ?H = "?A @ [(48, mach_write_to_2 (start + length hdr))] @ ?D @ [(54, mach_write_to_2 (rd_2 page 54 + 1))]"
  let ?E = "[(cur - 2, mach_write_to_2 ((start + length hdr + 2 ^ 16 - cur) mod 2 ^ 16)),
      (owner - 5, [(page ! (owner - 5) AND NOT 0x0F) OR byte_of (rec_owned page owner + 1)])]"
  have valid: "index_page_valid idt page" using ok by (simp add: insert_ok_def)
  note f = page_valid_facts [OF valid] and i = insert_facts [OF ok, folded start_def]
  note o = i(7) [OF i(10), folded owner_def] and lnh = length_new_header [OF i(3)]
  have W: "insert_writes cur hdr data fx fd page = ?H @ (start, ?nh @ data) # ?E"
    by (simp add: insert_writes_def Let_def start_def owner_def)
  have len66: "66 \<le> length page" using f(1) by simp
  note hw = header_writes [OF len66]
  have H: "within (length page) ?H" using hw(1,2) len66 by simp
  have split: "writes (?H @ (start, ?nh @ data) # ?E) page = writes (?H @ (start, ?nh) # (start + length hdr, data) # ?E) page"
    using writes_split [of start "writes ?H page" ?nh data] i(2) length_writes [OF H] by (simp add: writes_simps lnh)
  have apart: "apart (?H @ (start, ?nh) # (start + length hdr, data) # ?E)"
  proof -
    let ?E4 = "(start, ?nh) # (start + length hdr, data) # ?E"
    have "apart ?H" "within 56 ?H"
      using dir_writes_cases [of "rd_2 page 48" cur "rec_next page cur" page] by (auto simp: alloc_writes_def Let_def apart_append)
    moreover have "apart ?E4" using i(1,3,4,6) o by (auto simp: lnh header_scan_def split: if_splits)
    moreover have "\<forall>w \<in> set ?E4. 56 \<le> fst w" using i(1,4) o by auto
    ultimately show ?thesis unfolding apart_append within_def clear_def by fastforce
  qed
  have within: "within (length page) (?H @ (start, ?nh) # (start + length hdr, data) # ?E)"
    using H i(2-5) o f(6) by (auto simp: lnh)
  have mset: "mset (?H @ (start, ?nh) # (start + length hdr, data) # ?E) = mset T"
    by (simp add: T_def replay_writes_def Let_def start_def)
  show "writes T page = writes (insert_writes cur hdr data fx fd page) page"
    unfolding W split by (rule writes_mset [OF mset apart within, symmetric])
  show "apart T" using apart_mset [OF mset apart] .
  show "within (length page) T" using within unfolding within_def mset_eq_setD [OF mset] .
qed

lemma replay_finish:
  assumes ok: "insert_ok idt cur hdr data fx fd page"
  defines "owner \<equiv> last (walk 8 page (rec_next page cur))"
    and "page' \<equiv> writes (insert_writes cur hdr data fx fd page) page"
  shows "finish_insert True (rd_2 page 48) cur (rec_next page cur) owner (rec_owned page owner) slot
      (writes (replay_writes cur hdr data fx fd page) page) =
    (if rec_owned page owner = 8 then page_dir_split_slot (page_dir_get_nth_slot page slot) page' else Some (False, page'))"
proof -
  let ?R = "replay_writes cur hdr data fx fd page" and ?n = "length page"
  let ?b = "[(page ! (owner - 5) AND NOT 0x0F) OR byte_of (rec_owned page owner + 1)]"
  let ?D = "dir_writes (rd_2 page 48) cur (rec_next page cur) page"
  have valid: "index_page_valid idt page" using ok by (simp add: insert_ok_def)
  note f = page_valid_facts [OF valid] and i = insert_facts [OF ok]
  note o = i(7) [OF i(10), folded owner_def] and T = insert_writes_parts [OF ok, folded owner_def]
  have o': "5 \<le> owner" "owner - 5 < ?n" using o f(6) by linarith+
  have RO: "within ?n (?R @ [(owner - 5, ?b)])" "clear 25 1 (?R @ [(owner - 5, ?b)])" "clear 51 3 (?R @ [(owner - 5, ?b)])"
    using T(2) i(1,4) o header_writes(3) [of page] f(1) by (auto simp: replay_writes_def Let_def)
  have R: "within ?n ?R" using RO(1) by simp
  have "clear (owner - 5) 1 ?R" using T(3) apart_middle [of ?R "(owner - 5, ?b)"] by simp
  then have "writes ?R page ! (owner - 5) = page ! (owner - 5)" using nth_writes_clear [OF R] o'(2) by blast
  then have s1: "rec_set_bit_field_1 owner (rec_owned page owner + 1) 5 0x0F 0 (writes ?R page) =
      Some (writes (?R @ [(owner - 5, ?b)]) page)"
    using o' length_writes [OF R] by (simp add: rec_set_bit_field_1_def get_eqs set_eq writes_simps)
  have "dir_writes (rd_2 page 48) cur (rec_next page cur) (writes (?R @ [(owner - 5, ?b)]) page) = ?D"
    using dir_writes_writes [OF RO] f(1) by simp
  then have s2: "update_direction (rd_2 page 48) cur (rec_next page cur) (writes (?R @ [(owner - 5, ?b)]) page) =
      writes (?R @ [(owner - 5, ?b)] @ ?D) page"
    using update_direction_writes [of "writes (?R @ [(owner - 5, ?b)]) page"] length_writes [OF RO(1)] f(1)
    by (simp add: writes_simps)
  let ?Q = "?R @ [(owner - 5, ?b)] @ ?D"
  have "clear 54 2 ?Q" "within ?n ?Q"
    using T(2) i(1,4) o header_writes(3,4) [of page] f(1) by (auto simp: replay_writes_def Let_def)
  then have "rd_2 (writes ?Q page) 54 = rd_2 page 54" using rd_2_writes f(1) by simp
  then have s3: "page_header_set_field 16 (page_get_n_recs (writes ?Q page) + 1) (writes ?Q page) = page'"
    using T(1) by (simp add: page_get_n_recs_def header_field header_set page'_def writes_simps)
  have "page_dir_get_nth_slot page' slot = page_dir_get_nth_slot page slot"
    using insert_within [OF ok] by (simp add: page_dir_get_nth_slot_def page'_def)
  then show ?thesis
    unfolding finish_insert_def Let_def by (simp only: if_True s1 s2 s3 bind.bind_lunit)
qed

lemma rec_owned_byte:
  assumes "k < 16"
  shows "unat (((b :: byte) AND NOT 0x0F OR byte_of k) AND 0x0F) = k"
proof -
  have "(b AND NOT 0x0F OR w) AND 0x0F = w AND 0x0F" for w :: byte by (rule byte_eqI) (auto simp: bit_simps)
  moreover have "unat (byte_of k AND mask 4 :: byte) = k"
    using assms by (simp only: take_bit_eq_mask [symmetric] unsigned_take_bit_eq) (simp add: unat_of_nat take_bit_nat_eq_self)
  then have "unat (byte_of k AND 0x0F :: byte) = k" by (simp add: mask_eq_exp_minus_1)
  ultimately show ?thesis by simp
qed

text \<open>The slot of the owner, on the page after the insertion.\<close>

lemma find_slot_cong:
  "(\<And>t. t \<le> s \<Longrightarrow> take 2 (drop (page_dir_get_nth_slot q t) q) = take 2 (drop (page_dir_get_nth_slot page t) page)) \<Longrightarrow>
   find_slot q r s = find_slot page r s"
  by (induction s) auto

lemma insert_page_comp:
  assumes ok: "insert_ok idt cur hdr data fx fd page"
  shows "page_is_comp (writes (insert_writes cur hdr data fx fd page) page)"
proof -
  have valid: "index_page_valid idt page" using ok by (simp add: insert_ok_def)
  note f = page_valid_facts [OF valid] and i = insert_facts [OF ok] and T = insert_writes_parts [OF ok]
  have h: "0x8002 \<le> rd_2 page 42" "rd_2 page 42 AND 0x7FFF < length page div 5"
    using valid by (auto simp: index_page_valid_def Let_def header_field)
  moreover have "rd_2 page 42 \<noteq> 0xFFFF"
  proof
    assume "rd_2 page 42 = 0xFFFF"
    then have "rd_2 page 42 AND 0x7FFF = 0x7FFF" by simp
    then show False using h(2) f(3) by simp
  qed
  ultimately have h': "rd_2 page 42 + 1 < 2 ^ 16" using rd_2_less [of 42 page] f(1) by simp
  have "rd_2 (writes (insert_writes cur hdr data fx fd page) page) 42 \<in> {rd_2 page 42, rd_2 page 42 + 1}"
  proof (cases "insert_reuse hdr data fx fd page")
    case True
    then have "clear 42 2 (insert_writes cur hdr data fx fd page)"
      using i(1,4) i(7) [OF i(10)] header_writes(4) [of page] f(1) by (auto simp: insert_writes_def alloc_writes_def Let_def)
    then show ?thesis using rd_2_writes [OF insert_within [OF ok]] f(1) by simp
  next
    case False
    then show ?thesis
      using rd_2_hit [OF T(2,3), of 42 "rd_2 page 42 + 1"] h' T(1) by (simp add: replay_writes_def alloc_writes_def Let_def)
  qed
  then show ?thesis using comp_page length_writes [OF insert_within [OF ok]] f(1) h(1) by auto
qed

lemma insert_find_owner:
  assumes ok: "insert_ok idt cur hdr data fx fd page"
  defines "owner \<equiv> last (walk 8 page (rec_next page cur))"
    and "page' \<equiv> writes (insert_writes cur hdr data fx fd page) page"
  shows "page_dir_find_owner_slot page' owner = Some (find_slot page owner (page_dir_get_n_slots page - 1))"
proof -
  let ?W = "insert_writes cur hdr data fx fd page" and ?n = "page_dir_get_n_slots page"
  have valid: "index_page_valid idt page" using ok by (simp add: insert_ok_def)
  note f = page_valid_facts [OF valid] and i = insert_facts [OF ok] and T = insert_writes_parts [OF ok, folded owner_def]
  note o = i(7) [OF i(10), folded owner_def] and W = insert_within [OF ok]
  have len: "length page' = length page" using W by (simp add: page'_def)
  have "page' ! (owner - 5) = (page ! (owner - 5) AND NOT 0x0F) OR byte_of (rec_owned page owner + 1)"
    using nth_writes_hit [OF T(2,3), of "(owner - 5, [(page ! (owner - 5) AND NOT 0x0F) OR byte_of (rec_owned page owner + 1)])" "owner - 5"]
    unfolding T(1) page'_def [symmetric] by simp
  then have "rec_owned page' owner = rec_owned page owner + 1"
    using rec_owned_byte [of "rec_owned page owner + 1" "page ! (owner - 5)"] i(9) by (simp add: rec_owned_def owner_def)
  then have own: "owner_checked True page' owner = Some (Some owner)"
    using o f(6) len by (subst owner_checked.simps) (simp add: rec_get_n_owned_def owned_get)
  have "rd_2 page' 38 = rd_2 page 38"
    unfolding page'_def using rd_2_writes [OF W insert_clear_rest [OF ok]] f(1) by simp
  then have ns: "page_dir_get_n_slots page' = ?n" by (simp add: page_dir_get_n_slots_def header_field)
  have "find_slot page' owner (?n - 1) = find_slot page owner (?n - 1)"
  proof (rule find_slot_cong)
    fix t
    assume "t \<le> ?n - 1"
    then have t: "length page \<le> page_dir_get_nth_slot page t + 2 * ?n + 8" "page_dir_get_nth_slot page t + 2 \<le> length page"
      using f(1,4,6) by (auto simp: page_dir_get_nth_slot_def)
    then show "take 2 (drop (page_dir_get_nth_slot page' t) page') = take 2 (drop (page_dir_get_nth_slot page t) page)"
      using area_writes [OF W insert_clear_rest [OF ok]] len by (simp add: page_dir_get_nth_slot_def page'_def)
  qed
  moreover have "find_slot page owner (?n - 1) \<noteq> None" using ok by (simp add: insert_ok_def Let_def owner_def)
  ultimately show ?thesis
    using own ns insert_page_comp [OF ok] by (auto simp: page_dir_find_owner_slot_def page'_def)
qed

section \<open>Replaying the insertion\<close>

lemma replay_insert_page:
  assumes ok: "insert_ok idt cur hdr data fx fd page"
  defines "reuse \<equiv> insert_reuse hdr data fx fd page" and "owner \<equiv> last (walk 8 page (rec_next page cur))"
    and "page' \<equiv> writes (insert_writes cur hdr data fx fd page) page"
    and "hc \<equiv> insert_hdr_c cur hdr page" and "dc \<equiv> insert_data_c cur hdr data fx fd page"
  shows "page_apply_insert_dynamic idt reuse (cur - 99) (if reuse then insert_shift hdr fx else 0) (insert_enc hdr hc) hc dc
      (take (length hdr - 5 - hc) hdr @ drop dc data) page =
    (if rec_owned page owner = 8
     then page_dir_split_slot (page_dir_get_nth_slot page (the (find_slot page owner (page_dir_get_n_slots page - 1)))) page'
     else Some (False, page'))"
proof -
  have valid: "index_page_valid idt page" "space_valid hdr data fx fd page" "header_valid hdr page"
    using ok by (simp_all add: insert_ok_def)
  note f = page_valid_facts [OF valid(1)] and i = insert_facts [OF ok] and h = insert_common_header [OF ok, folded hc_def]
    and L = insert_common_data [OF ok, folded dc_def]
  note o = i(7) [OF i(10), folded owner_def] and enc = insert_enc_facts [OF valid(3), of hc]
  have cur: "99 \<le> cur" "5 \<le> cur" "cur \<le> length page" using i(4,5) f(6) by auto
  note hb = hdr_common_bytes [OF h(1) i(3) cur(2,3)]
  have prev: "(99 + (cur - 99)) mod 2 ^ 16 = cur" using cur f(1,3,4,6) i(5) by simp
  obtain slot where slot: "find_slot page owner (page_dir_get_n_slots page - 1) = Some slot"
    using ok by (auto simp: insert_ok_def Let_def owner_def)
  have recs: "x \<le> length page \<and> (x = 112 \<or> 125 \<le> x \<and> x \<le> rd_2 page 40)" if "x \<in> set (walk 8 page (rec_next page cur))" for x
  proof -
    have "x = 112 \<or> user_rec page x" using ok that unfolding insert_ok_def Let_def by blast
    then show ?thesis using f(1,6) by (auto simp: user_rec_def header_field)
  qed
  from owner_dynamic_walk [OF this i(8)]
  have own: "owner_dynamic page (page_header_get_field page 2) 8 (rec_next page cur) = Some (Some (owner, rec_owned page owner))"
    by (simp add: owner_def header_field)
  have sizes: "5 + hc + (length hdr - 5 - hc) = length hdr" using hb(1) by simp
  have dsize: "dc + (length (take (length hdr - 5 - hc) hdr @ drop dc data) - (length hdr - 5 - hc)) = length data"
    using L(1) by simp
  have A: "within (length page) (alloc_writes hdr data fx fd page)" "clear 48 2 (alloc_writes hdr data fx fd page)"
    using header_writes(1,3) [of page] f(1) by simp_all
  have last: "page_header_get_field (writes (alloc_writes hdr data fx fd page) page) 10 = rd_2 page 48"
    using rd_2_writes [OF A] f(1) by (simp add: header_field)
  have alloc: "apply_alloc_dynamic reuse (if reuse then insert_shift hdr fx else 0) (length hdr) (length data) page =
      Some (Some (insert_start hdr data fx fd page, insert_heap_no hdr data fx fd page, writes (alloc_writes hdr data fx fd page) page))"
    using apply_alloc_eq [OF valid(1,2)] by (simp add: reuse_def)
  note rec = apply_record_eq [OF ok, folded hc_def dc_def] and fin = replay_finish [OF ok, folded owner_def page'_def]
  let ?n = "page_dir_get_n_slots page" and ?h = "page_header_get_field page 4" and ?t = "page_header_get_field page 2"
  have c: "\<not> ?n < 2" "\<not> ?h < 0x8002" "\<not> length page div 5 \<le> ?h AND 0x7FFF" "\<not> ?h AND 0x7FFF < ?n" "fil_page_index_page_check page"
    "page_get_page_no page = page_no idt" "mach_read_from_2 (drop (112 - 2) page) = 0" "\<not> 120 > ?t" "\<not> behind_slot page (?n - 1) ?t"
    "mach_read_from_2 (drop (page_dir_get_nth_slot page (?n - 1)) page) = 112" "mach_read_from_2 (drop (page_dir_get_nth_slot page 0) page) = 99"
    using valid(1) unfolding index_page_valid_def Let_def rd_2_def by auto
  have e4: "\<not> (insert_enc hdr hc AND 4 \<noteq> 0 \<and> \<not> page_is_leaf page)" using enc(4) by auto
  have nx: "get_2 page cur 2 = Some (rd_2 page (cur - 2))" "(cur + rd_2 page (cur - 2)) mod 2 ^ 16 = rec_next page cur"
    using cur by (simp_all add: get_eqs rec_next_def)
  have chk: "\<not> (cur - 99 \<noteq> 0 \<and> (120 + 5 > cur \<or> cur > ?t))" "\<not> (rec_next page cur \<noteq> 112 \<and> (120 + 5 > rec_next page cur \<or> rec_next page cur > ?t))"
    using i(4,5) recs [OF i(11)] by (auto simp: header_field)
  have lit: "\<not> length hdr - 5 - hc > length (take (length hdr - 5 - hc) hdr @ drop dc data)" by simp
  have no: "\<not> rec_owned page owner > 8" using i(9) by (simp add: owner_def)
  show ?thesis
    unfolding page_apply_insert_dynamic_def Let_def prev
    by (simp only: c e4 enc(1) lit if_False if_True nx chk own bind.bind_lunit option.case prod.case no slot sizes dsize alloc last
        rec fin simp_thms option.sel)
qed

lemma ext_varint_eq:
  assumes "v < MIN_4BYTE" "varint_size v \<le> n" "test (varint_size v) (varint_size v + k)"
  shows "ext_varint n test (mlog_encode_varint v @ l, length (mlog_encode_varint v) + k) = Some (v, l, k)"
proof -
  have "v < 2 ^ 32" using assms(1) by (simp add: min_bytes)
  then show ?thesis
    using assms varint_round_trip [of v l] length_varint(1) [OF assms(1)] by (simp add: ext_varint_def Let_def)
qed

text \<open>The record in the log, without its type.\<close>

definition insert_payload :: "bool \<Rightarrow> nat \<Rightarrow> byte list \<Rightarrow> nat \<Rightarrow> nat \<Rightarrow> nat \<Rightarrow> byte list \<Rightarrow> byte list" where
  "insert_payload reuse cur hdr fx hc dc data =
     mlog_encode_varint (cur - 99) @ (if reuse then mlog_encode_varint (insert_shift hdr fx) else []) @
     mlog_encode_varint (insert_enc hdr hc) @ mlog_encode_varint hc @ mlog_encode_varint dc @
     take (length hdr - 5 - hc) hdr @ drop dc data"

lemma insert_log_bounds:
  assumes ok: "insert_ok idt cur hdr data fx fd page"
  defines "hc \<equiv> insert_hdr_c cur hdr page" and "dc \<equiv> insert_data_c cur hdr data fx fd page"
  shows "cur - 99 < MIN_4BYTE" "insert_reuse hdr data fx fd page \<Longrightarrow> insert_shift hdr fx < MIN_4BYTE"
    "insert_enc hdr hc < MIN_4BYTE" "hc < MIN_3BYTE" "dc < MIN_4BYTE"
    "length (insert_payload (insert_reuse hdr data fx fd page) cur hdr fx hc dc data) < 2 ^ 17"
proof -
  have valid: "index_page_valid idt page" "space_valid hdr data fx fd page" "header_valid hdr page"
    using ok by (simp_all add: insert_ok_def)
  note f = page_valid_facts [OF valid(1)] and i = insert_facts [OF ok] and h = insert_common_header [OF ok, folded hc_def]
    and L = insert_common_data [OF ok, folded dc_def]
  have cur: "5 \<le> cur" "cur \<le> length page" using i(4,5) f(6) by auto
  note hb = hdr_common_bytes [OF h(1) i(3) cur]
  have hdr: "length hdr \<le> 2051" using valid(3) by (simp add: header_valid_def)
  show c: "cur - 99 < MIN_4BYTE" using cur f(3) by (simp add: min_bytes)
  show h: "hc < MIN_3BYTE" using hb(1) hdr by (simp add: min_bytes)
  show d: "dc < MIN_4BYTE" using L(1) i(2) f(3) by (simp add: min_bytes)
  have "insert_enc hdr hc div 8 = length hdr - 5 - hc" using insert_enc_facts(1) [OF valid(3), of hc] by (simp add: drop_bit_eq_div)
  then have "insert_enc hdr hc div 8 \<le> 2046" using hdr by simp
  then show "insert_enc hdr hc < MIN_4BYTE" by (simp add: min_bytes)
  show s: "insert_shift hdr fx < MIN_4BYTE" if "insert_reuse hdr data fx fd page"
  proof -
    have "fx \<le> 2 ^ 16" using valid(2) that f(3,6) by (auto simp: space_valid_def Let_def user_rec_def header_field)
    then have "drop_bit 1 (insert_shift hdr fx) \<le> 2 ^ 16 + 2051" using insert_shift_simps(2) [of hdr fx] hdr by auto
    then show ?thesis by (simp add: drop_bit_eq_div min_bytes)
  qed
  show "length (insert_payload (insert_reuse hdr data fx fd page) cur hdr fx hc dc data) < 2 ^ 17"
    using length_varint(2) [of "cur - 99"] length_varint(2) [of "insert_shift hdr fx"] length_varint(2) [of "insert_enc hdr hc"]
      length_varint(2) [of hc] length_varint(2) [of dc] i(2) f(3) hdr
    by (auto simp: insert_payload_def)
qed

lemma insert_decoded:
  assumes ok: "insert_ok idt cur hdr data fx fd page" and env: "block_id env = idt"
  defines "reuse \<equiv> insert_reuse hdr data fx fd page"
    and "hc \<equiv> insert_hdr_c cur hdr page" and "dc \<equiv> insert_data_c cur hdr data fx fd page"
  defines "p \<equiv> insert_payload reuse cur hdr fx hc dc data"
  shows "extended_subtype env (if reuse then 7 else 6) (p @ r, length p) page =
    Some (page_apply_insert_dynamic idt reuse (cur - 99) (if reuse then insert_shift hdr fx else 0) (insert_enc hdr hc) hc dc
      (take (length hdr - 5 - hc) hdr @ drop dc data) page)"
proof -
  note b = insert_log_bounds [OF ok, folded reuse_def hc_def dc_def]
  let ?lit = "take (length hdr - 5 - hc) hdr @ drop dc data"
  have pos: "1 \<le> varint_size n" "varint_size n \<le> 3" for n by (simp_all add: varint_size_def)
  have two: "varint_size hc \<le> 2" "hc < MIN_4BYTE" using b(4) by (simp_all add: varint_size_def min_bytes)
  have len: "length (mlog_encode_varint v) \<noteq> 0" for v using length_varint(3) [of v] by linarith
  let ?v = mlog_encode_varint
  have e1: "ext_varint 3 (\<le>) (?v dc @ ?lit @ r, length (?v dc) + length ?lit) = Some (dc, ?lit @ r, length ?lit)"
    by (rule ext_varint_eq [OF b(5)]) (use pos in auto)
  have e2: "ext_varint 2 (<) (?v hc @ l, length (?v hc) + (length (?v dc) + k)) = Some (hc, l, length (?v dc) + k)" for l k
    by (rule ext_varint_eq [OF two(2,1)]) (use len in simp)
  have e3: "ext_varint 3 (<) (?v x @ l, length (?v x) + (length (?v y) + k)) = Some (x, l, length (?v y) + k)" if "x < MIN_4BYTE" for x y l k
    by (rule ext_varint_eq [OF that]) (use pos len in simp_all)
  have dyn: "ext_insert_dynamic env reuse prev
      ((if reuse then ?v (insert_shift hdr fx) else []) @ ?v (insert_enc hdr hc) @ ?v hc @ ?v dc @ ?lit @ r,
       length (if reuse then ?v (insert_shift hdr fx) else []) + (length (?v (insert_enc hdr hc)) + (length (?v hc) + (length (?v dc) + length ?lit)))) page =
    Some (page_apply_insert_dynamic idt reuse prev (if reuse then insert_shift hdr fx else 0) (insert_enc hdr hc) hc dc ?lit page)" for prev
    using e1 e2 e3 [OF b(3)] e3 [OF b(2)] env by (simp add: ext_insert_dynamic_def)
  have two: "(if reuse then 7 else 6 :: byte) AND 2 \<noteq> 0" "((if reuse then 7 else 6 :: byte) AND 1 \<noteq> 0) = reuse" by simp_all
  have "length p = length (?v (cur - 99)) + (length (if reuse then ?v (insert_shift hdr fx) else []) +
      (length (?v (insert_enc hdr hc)) + (length (?v hc) + (length (?v dc) + length ?lit))))"
    by (simp add: p_def insert_payload_def)
  then show ?thesis
    using e3 [OF b(1)] dyn len [of "cur - 99"] two
    by (cases reuse) (simp_all add: extended_subtype_def p_def insert_payload_def)
qed

text \<open>What the insertion logs, and the page that it leaves, if it succeeds.\<close>

lemma insert_logged:
  assumes ok: "insert_ok idt cur hdr data fx fd page"
  defines "reuse \<equiv> insert_reuse hdr data fx fd page"
    and "hc \<equiv> insert_hdr_c cur hdr page" and "dc \<equiv> insert_data_c cur hdr data fx fd page"
  defines "p \<equiv> insert_payload reuse cur hdr fx hc dc data"
  shows "page_insert_dynamic idt reuse (cur - 99)
      ((hdr ! (length hdr - 5) AND 0xF0) OR (hdr ! (length hdr - 3) AND 7)) (if reuse then int (length hdr) - int fx else 0) hc dc
      (take (length hdr - 5 - hc) hdr) (drop dc data) m =
    (log_extended idt True (length p + 1) ((if reuse then 7 else 6) # p) m)\<lparr>m_last_offset := FIL_PAGE_TYPE\<rparr>"
proof -
  let ?fo = "if reuse then int (length hdr) - int fx else 0"
  let ?shift = "if ?fo < 0 then push_bit 1 (nat (- ?fo)) OR 1 else push_bit 1 (nat ?fo)"
  note b = insert_log_bounds [OF ok, folded reuse_def hc_def dc_def]
  have shift: "?shift = insert_shift hdr fx" if reuse
    using that by (auto simp: insert_shift_def nat_minus_as_int)
  have enc: "push_bit 3 (length (take (length hdr - 5 - hc) hdr)) OR
      unat (((hdr ! (length hdr - 5) AND 0xF0) OR (hdr ! (length hdr - 3) AND 7)) AND 4) OR
      unat (drop_bit 4 ((hdr ! (length hdr - 5) AND 0xF0) OR (hdr ! (length hdr - 3) AND 7))) = insert_enc hdr hc"
    by (simp add: insert_enc_def Let_def)
  have hv: "length (mlog_encode_varint hc) = (if hc < MIN_2BYTE then 1 else 2)"
    using length_varint(1) [of hc] b(4) by (simp add: varint_size_def min_bytes)
  show ?thesis
    unfolding page_insert_dynamic_def Let_def enc
    using shift hv b(2) length_varint(1) [OF b(1)] length_varint(1) [OF b(3)] length_varint(1) [OF b(5)]
      length_varint(1) [of "insert_shift hdr fx"]
    by (cases reuse) (simp_all add: p_def insert_payload_def add_ac)
qed

lemma insert_has_space:
  assumes ok: "insert_ok idt cur hdr data fx fd page"
    and ins: "page_cur_insert_rec_low idt cur hdr data fx fd (page, m) = Some (Some r, s)"
  shows "insert_reuse hdr data fx fd page \<or> page_mem_alloc_heap (length hdr + length data) page \<noteq> None"
proof (rule ccontr)
  assume "\<not> ?thesis"
  moreover have valid: "index_page_valid idt page" "space_valid hdr data fx fd page" using ok by (simp_all add: insert_ok_def)
  ultimately have "insert_alloc True (length hdr) (length hdr + length data) fx fd page = Some None"
    using alloc_eq [OF valid] by simp
  then show False using ins page_valid_facts(7) [OF valid(1)] by (simp add: page_cur_insert_rec_low_def)
qed

lemma replay_insert:
  assumes pg: "page_ok idt page" and on: "m_logged m" and fo: "follows idt (page, m) st"
    and env: "block_id env = idt" "3 \<le> page_no idt" "\<not> zipped env"
    and ok: "insert_ok idt cur hdr data fx fd page"
    and ins: "page_cur_insert_rec_low idt cur hdr data fx fd (page, m) = Some (Some r, page', m')"
  shows "replays env idt (page, m) (page', m') st"
proof -
  let ?reuse = "insert_reuse hdr data fx fd page" and ?owner = "last (walk 8 page (rec_next page cur))"
  let ?q = "writes (insert_writes cur hdr data fx fd page) page"
  let ?p = "insert_payload ?reuse cur hdr fx (insert_hdr_c cur hdr page) (insert_data_c cur hdr data fx fd page) data"
  let ?m = "(log_extended idt True (length ?p + 1) ((if ?reuse then 7 else 6) # ?p) m)\<lparr>m_last_offset := FIL_PAGE_TYPE\<rparr>"
  note alloc = insert_has_space [OF ok ins]
  have split: "split_owner_slot (rec_owned page ?owner) ?owner (insert_start hdr data fx fd page + length hdr) ?q ?m = Some (Some r, page', m')"
    using ins on unfolding insert_normal [OF ok alloc] log_insert_eq [OF ok] insert_logged [OF ok] by simp
  obtain slot where slot: "find_slot page ?owner (page_dir_get_n_slots page - 1) = Some slot"
    using ok by (auto simp: insert_ok_def Let_def)
  have nth: "page_dir_get_nth_slot ?q slot = page_dir_get_nth_slot page slot"
    using insert_within [OF ok] by (simp add: page_dir_get_nth_slot_def)
  have res: "m' = ?m \<and> (if rec_owned page ?owner = 8 then page_dir_split_slot (page_dir_get_nth_slot page slot) ?q else Some (False, ?q)) =
      Some (False, page')"
    using split insert_find_owner [OF ok] slot nth
    by (auto simp: split_owner_slot_def split: if_splits Option.bind_splits)
  then have m': "m' = ?m" by (rule conjunct1)
  have "extended_subtype env (if ?reuse then 7 else 6) (?p @ x, length ?p) page = Some (Some (False, page'))" for x
    unfolding insert_decoded [OF ok env(1)] replay_insert_page [OF ok] slot option.sel conjunct2 [OF res] by (rule refl)
  from replay_extended [OF pg on fo env insert_log_bounds(6) [OF ok] this] show ?thesis unfolding m' .
qed

end
