(* ===== verification/Index_Delete.thy ===== *)
theory Index_Delete
  imports Index_Replay
begin

text \<open>
  Recovery repeats the deletion of a record in the formats COMPACT and DYNAMIC: both ends make the same changes, so
  what is to be shown is that they find the same records and the same slot of the directory.
\<close>

unbundle bit_operations_syntax

section \<open>Finding the records\<close>

text \<open>The predecessor of a record, from the record of the slot below the one of its owner.\<close>

definition delete_prev :: "nat \<Rightarrow> nat \<Rightarrow> byte list \<Rightarrow> nat option" where
  "delete_prev current slot_no page =
     (case find_prev True page current None (rd_2 page (page_dir_get_nth_slot page slot_no + 2)) of
        Some (Some p) \<Rightarrow> p | _ \<Rightarrow> None)"

text \<open>
  The sizes of the record are those of a record of the page. The records from it to its owner are intact, the
  slot of the owner is there, and the links of the record and its predecessor, which is found, lead to records.
\<close>

definition delete_ok :: "page_id_t \<Rightarrow> nat \<Rightarrow> nat \<Rightarrow> nat \<Rightarrow> byte list \<Rightarrow> bool" where
  "delete_ok idt current extra_size data_size page \<longleftrightarrow>
     index_page_valid idt page \<and> page_get_n_recs page \<noteq> 0 \<and> user_rec page current \<and>
     5 \<le> extra_size \<and> extra_size \<le> 5 + 2 * REC_MAX_N_FIELDS \<and> PAGE_NEW_SUPREMUM_END + extra_size \<le> current \<and>
     current + data_size \<le> page_header_get_field page PAGE_HEAP_TOP \<and>
     (let recs = walk (page_get_n_recs page) page current;
          owner = last recs;
          n = page_dir_get_n_slots page
      in rec_owned page owner \<noteq> 0 \<and>
         (\<forall>x \<in> set recs. (x = PAGE_NEW_SUPREMUM \<or> user_rec page x) \<and> x < page_dir_get_nth_slot page (n - 1) \<and>
            (rec_owned page x = 0 \<longrightarrow> 5 \<le> rd_2 page (x - 2) \<and> rd_2 page (x - 2) \<le> 2 ^ 16 - 5)) \<and>
         rec_next page current \<noteq> current \<and>
         (rec_next page current = PAGE_NEW_SUPREMUM \<or> user_rec page (rec_next page current)) \<and>
         (case find_slot page owner (n - 1) of None \<Rightarrow> False
          | Some slot_no \<Rightarrow>
              (case delete_prev current slot_no page of None \<Rightarrow> False
               | Some p \<Rightarrow> (p = PAGE_NEW_INFIMUM \<or> user_rec page p) \<and> rec_next page p = current)))"

lemma delete_owner_walk:
  assumes n: "\<And>x. x \<le> heap_top \<Longrightarrow> \<not> behind_slot page (n_slots - 1) x" and top: "heap_top \<le> length page"
  shows "(\<And>x. x \<in> set (walk k page r) \<Longrightarrow> (x = 112 \<or> 125 \<le> x \<and> x \<le> heap_top) \<and> x \<le> length page \<and>
     (rec_owned page x = 0 \<longrightarrow> 5 \<le> rd_2 page (x - 2) \<and> rd_2 page (x - 2) \<le> 2 ^ 16 - 5)) \<Longrightarrow>
   rec_owned page (last (walk k page r)) \<noteq> 0 \<Longrightarrow>
   delete_owner True page n_slots k r = Some (Some (last (walk k page r), rec_owned page (last (walk k page r))))"
proof (induction k arbitrary: r)
  case 0
  then show ?case by (subst delete_owner.simps) (auto simp: owned_get rec_get_n_owned_def)
next
  case (Suc k)
  let ?x = "rec_next page r"
  have r: "5 \<le> r" "r \<le> length page" "rec_owned page r = 0 \<longrightarrow> 5 \<le> rd_2 page (r - 2) \<and> rd_2 page (r - 2) \<le> 2 ^ 16 - 5"
    using Suc.prems(1) [of r] walk_first [of r "Suc k" page] by auto
  show ?case
  proof (cases "rec_owned page r = 0")
    case True
    have x: "?x = 112 \<or> 125 \<le> ?x \<and> ?x \<le> heap_top" using Suc.prems(1) [of ?x] True walk_first [of ?x k page] by simp
    have "delete_owner True page n_slots k ?x = Some (Some (last (walk k page ?x), rec_owned page (last (walk k page ?x))))"
      using Suc.IH [of ?x] Suc.prems True by simp
    then show ?thesis
      using True r x n [of ?x] by (subst delete_owner.simps) (auto simp: owned_get rec_get_n_owned_def get_eqs rec_next_def Let_def)
  next
    case False
    then show ?thesis using r by (subst delete_owner.simps) (simp add: owned_get rec_get_n_owned_def)
  qed
qed

text \<open>The next record within the page.\<close>

lemma next_low:
  assumes "2 \<le> r" "r < length page" "length page dvd 2 ^ 16" "rec_next page r \<noteq> r" "112 \<le> rec_next page r"
    "rec_next page r \<le> rd_2 page 40" "rd_2 page 40 < length page"
  shows "page_rec_get_next_low page r True = Some (Some (rec_next page r))"
  using next_get [OF assms(1-3) _ assms(4)] assms(5-7) by (simp add: page_rec_get_next_low_def header_field)

lemma owner_checked_walk:
  assumes "length page dvd 2 ^ 16" "rd_2 page 40 < length page"
  shows "(\<And>x. x \<in> set (walk k page r) \<Longrightarrow>
      112 \<le> x \<and> x \<le> rd_2 page 40 \<and> x < page_dir_get_nth_slot page (page_dir_get_n_slots page - 1)) \<Longrightarrow>
    rec_owned page (last (walk k page r)) \<noteq> 0 \<Longrightarrow> owner_checked True page r = Some (Some (last (walk k page r)))"
proof (induction k arbitrary: r)
  case 0
  then show ?case using assms by (subst owner_checked.simps) (auto simp: owned_get rec_get_n_owned_def)
next
  case (Suc k)
  let ?x = "rec_next page r"
  note len = assms(2)
  have r: "112 \<le> r" "r \<le> rd_2 page 40" using Suc.prems(1) [of r] walk_first [of r "Suc k" page] by auto
  have own: "rec_get_n_owned True page r = Some (rec_owned page r)" using r len by (simp add: rec_get_n_owned_def owned_get)
  show ?case
  proof (cases "rec_owned page r = 0")
    case True
    have x: "112 \<le> ?x" "?x \<le> rd_2 page 40" "?x < page_dir_get_nth_slot page (page_dir_get_n_slots page - 1)"
      using Suc.prems(1) [of ?x] True walk_first [of ?x k page] by simp_all
    have ne: "?x \<noteq> r"
    proof
      assume "?x = r"
      then show False using walk_stays [of page r k] True Suc.prems(2) last_in_set [of "walk k page r"] by simp
    qed
    have "page_rec_get_next_low page r True = Some (Some ?x)"
      using next_low [OF _ _ assms(1) ne x(1,2) len] r len by simp
    then show ?thesis using Suc.IH [of ?x] Suc.prems True own x by (subst owner_checked.simps) simp
  next
    case False
    then show ?thesis using own by (subst owner_checked.simps) simp
  qed
qed

lemma find_slot_some:
  "find_slot page r s = Some t \<Longrightarrow>
   0 < t \<and> t \<le> s \<and> take 2 (drop (page_dir_get_nth_slot page t) page) = mach_write_to_2 r"
  by (induction s) (auto split: if_splits)

text \<open>Everything that the deletion finds.\<close>

lemma delete_facts:
  assumes ok: "delete_ok idt current e d page"
  obtains owner slot_no prev where
    "owner_checked True page current = Some (Some owner)"
    "delete_owner True page (page_dir_get_n_slots page) (page_get_n_recs page) current = Some (Some (owner, rec_owned page owner))"
    "find_slot page owner (page_dir_get_n_slots page - 1) = Some slot_no" "0 < slot_no"
    "page_dir_slot_get_rec page (page_dir_get_nth_slot page slot_no) = Some owner"
    "rec_get_n_owned True page owner = Some (rec_owned page owner)"
    "page_dir_slot_get_rec page (page_dir_get_nth_slot page slot_no + 2) =
       Some (rd_2 page (page_dir_get_nth_slot page slot_no + 2))"
    "find_prev True page current None (rd_2 page (page_dir_get_nth_slot page slot_no + 2)) = Some (Some (Some prev))"
    "prev = 99 \<or> user_rec page prev" "rec_next page prev = current"
    "page_rec_get_next_low page current True = Some (Some (rec_next page current))"
proof -
  let ?recs = "walk (page_get_n_recs page) page current" and ?n = "page_dir_get_n_slots page"
  let ?owner = "last ?recs"
  have valid: "index_page_valid idt page" using ok by (simp add: delete_ok_def)
  note f = page_valid_facts [OF valid]
  have top: "rd_2 page 40 < length page" using f(4,6) by simp
  have cur: "125 \<le> current" "current \<le> rd_2 page 40" using ok by (simp_all add: delete_ok_def user_rec_def header_field)
  have recs: "(x = 112 \<or> 125 \<le> x \<and> x \<le> rd_2 page 40) \<and> x < page_dir_get_nth_slot page (?n - 1) \<and>
      (rec_owned page x = 0 \<longrightarrow> 5 \<le> rd_2 page (x - 2) \<and> rd_2 page (x - 2) \<le> 2 ^ 16 - 5)" if "x \<in> set ?recs" for x
    using ok that unfolding delete_ok_def Let_def user_rec_def header_field by auto
  have own: "rec_owned page ?owner \<noteq> 0" using ok by (simp add: delete_ok_def Let_def)
  have nb: "\<not> behind_slot page (?n - 1) x" if "x \<le> rd_2 page 40" for x
    using that f(4,6) by (auto simp: behind_slot_def)
  obtain slot_no prev where slot: "find_slot page ?owner (?n - 1) = Some slot_no" and prev: "delete_prev current slot_no page = Some prev"
    "prev = 99 \<or> user_rec page prev" "rec_next page prev = current"
    using ok by (auto simp: delete_ok_def Let_def split: option.splits)
  note t = find_slot_some [OF slot]
  have o: "112 \<le> ?owner" "?owner \<le> rd_2 page 40" using recs [of ?owner] f(5) by auto
  have sl: "page_dir_get_nth_slot page slot_no + 4 \<le> length page"
    using t f(1,4,6) by (auto simp: page_dir_get_nth_slot_def)
  show ?thesis
  proof (rule that)
    show "owner_checked True page current = Some (Some ?owner)"
      by (rule owner_checked_walk [OF f(2) top]) (use recs own f(5) in fastforce)+
    show "delete_owner True page ?n (page_get_n_recs page) current = Some (Some (?owner, rec_owned page ?owner))"
      by (rule delete_owner_walk [OF nb, where heap_top = "rd_2 page 40"]) (use recs own top f(5) in fastforce)+
    show "find_slot page ?owner (?n - 1) = Some slot_no" by (rule slot)
    show "0 < slot_no" using t by simp
    have "rd_2 page (page_dir_get_nth_slot page slot_no) = mach_read_from_2 (mach_write_to_2 ?owner)"
      unfolding rd_2_def using t sl mach_read_2_take [of "drop (page_dir_get_nth_slot page slot_no) page"] by simp
    then have "rd_2 page (page_dir_get_nth_slot page slot_no) = ?owner"
      using mach_fixed_round_trip(2) [of ?owner "[]"] o top f(3) by simp
    then show "page_dir_slot_get_rec page (page_dir_get_nth_slot page slot_no) = Some ?owner"
      using sl by (simp add: page_dir_slot_get_rec_def get_eqs)
    show "rec_get_n_owned True page ?owner = Some (rec_owned page ?owner)"
      using o top by (simp add: rec_get_n_owned_def owned_get)
    show "page_dir_slot_get_rec page (page_dir_get_nth_slot page slot_no + 2) =
        Some (rd_2 page (page_dir_get_nth_slot page slot_no + 2))"
      using sl by (simp add: page_dir_slot_get_rec_def get_eqs)
    show "find_prev True page current None (rd_2 page (page_dir_get_nth_slot page slot_no + 2)) = Some (Some (Some prev))"
      using prev(1) by (simp add: delete_prev_def split: option.splits)
    show "prev = 99 \<or> user_rec page prev" "rec_next page prev = current" by (rule prev)+
    have "rec_next page current \<noteq> current" "rec_next page current = 112 \<or> user_rec page (rec_next page current)"
      using ok by (simp_all add: delete_ok_def Let_def)
    then show "page_rec_get_next_low page current True = Some (Some (rec_next page current))"
      using cur f(5) top by (intro next_low [OF _ _ f(2)]) (auto simp: user_rec_def header_field)
  qed
qed

section \<open>Replaying the deletion\<close>

text \<open>The deletion, once the predecessor, the owner and its slot are found.\<close>

definition delete_steps ::
  "page_id_t \<Rightarrow> index_info \<Rightarrow> nat \<Rightarrow> nat \<Rightarrow> nat \<Rightarrow> nat \<Rightarrow> nat \<Rightarrow> nat \<Rightarrow> byte list \<times> mtr_t \<Rightarrow> (byte list \<times> mtr_t) option" where
  "delete_steps idt ix current e d prev owner slot_no = (\<lambda>(page, m). do {
     metadata \<leftarrow> rec_is_alter_metadata page current (not_redundant ix);
     if page_get_n_recs page = 1 \<and> \<not> metadata then Some (page_create_empty idt ix (page, m))
     else do {
       q \<leftarrow> unlink_record True prev current (rec_next page current) owner slot_no (rec_owned page owner - 1) d e page;
       Some (q, page_delete_dynamic idt (prev - 99) (e - 5) d m)
     }
   })"

lemma delete_normal:
  assumes ok: "delete_ok idt current e d page"
  obtains prev owner slot_no where
    "\<And>m. page_cur_delete_rec idt ix current e d (page, m) = delete_steps idt ix current e d prev owner slot_no (page, m)"
    "prev = 99 \<or> user_rec page prev" "rec_next page prev = current"
    "delete_owner True page (page_dir_get_n_slots page) (page_get_n_recs page) current = Some (Some (owner, rec_owned page owner))"
    "find_slot page owner (page_dir_get_n_slots page - 1) = Some slot_no"
proof -
  have comp: "page_is_comp page" using ok page_valid_facts(7) [of idt page] by (simp add: delete_ok_def)
  obtain owner slot_no prev where D: "owner_checked True page current = Some (Some owner)"
    "delete_owner True page (page_dir_get_n_slots page) (page_get_n_recs page) current = Some (Some (owner, rec_owned page owner))"
    "find_slot page owner (page_dir_get_n_slots page - 1) = Some slot_no" "0 < slot_no"
    "page_dir_slot_get_rec page (page_dir_get_nth_slot page slot_no) = Some owner"
    "rec_get_n_owned True page owner = Some (rec_owned page owner)"
    "page_dir_slot_get_rec page (page_dir_get_nth_slot page slot_no + 2) =
       Some (rd_2 page (page_dir_get_nth_slot page slot_no + 2))"
    "find_prev True page current None (rd_2 page (page_dir_get_nth_slot page slot_no + 2)) = Some (Some (Some prev))"
    "prev = 99 \<or> user_rec page prev" "rec_next page prev = current"
    "page_rec_get_next_low page current True = Some (Some (rec_next page current))"
    by (rule delete_facts [OF ok])
  have found: "page_dir_find_owner_slot page current = Some (Some slot_no)"
    using D(1,3) comp by (simp add: page_dir_find_owner_slot_def)
  have owned: "page_dir_slot_get_n_owned page (page_dir_get_nth_slot page slot_no) = Some (rec_owned page owner)"
    using D(5,6) comp by (simp add: page_dir_slot_get_n_owned_def)
  show ?thesis
    by (rule that [OF _ D(9,10,2,3)])
      (use D(4,5,7,8,11) found owned comp in \<open>simp add: page_cur_delete_rec_def delete_steps_def cong: if_cong\<close>)
qed

text \<open>The record is not the last one of the page, or it carries metadata: both ends unlink it in the same way.\<close>

lemma delete_both:
  assumes ok: "delete_ok idt current e d page"
    and meta: "rec_is_alter_metadata page current (not_redundant ix) = Some metadata" "\<not> (page_get_n_recs page = 1 \<and> \<not> metadata)"
    and del: "page_cur_delete_rec idt ix current e d (page, m) = Some (page', m')"
  obtains prev where "m' = page_delete_dynamic idt (prev - 99) (e - 5) d m" "prev - 99 < MIN_4BYTE" "e - 5 < MIN_3BYTE" "d < MIN_4BYTE"
    "page_apply_delete_dynamic idt (prev - 99) (e - 5) d page = Some (False, page')"
proof -
  have valid: "index_page_valid idt page" using ok by (simp add: delete_ok_def)
  note f = page_valid_facts [OF valid]
  obtain prev owner slot_no where N: "\<And>m. page_cur_delete_rec idt ix current e d (page, m) = delete_steps idt ix current e d prev owner slot_no (page, m)"
    and D: "prev = 99 \<or> user_rec page prev" "rec_next page prev = current"
    "delete_owner True page (page_dir_get_n_slots page) (page_get_n_recs page) current = Some (Some (owner, rec_owned page owner))"
    "find_slot page owner (page_dir_get_n_slots page - 1) = Some slot_no"
    by (rule delete_normal [OF ok, of ix]) (rule that)
  have p: "99 \<le> prev" "prev \<le> rd_2 page 40" using D(1) f(5) by (auto simp: user_rec_def header_field)
  have c: "125 \<le> current" "current + d \<le> rd_2 page 40" "120 + e \<le> current" "5 \<le> e" "e \<le> 2051"
    "rec_next page current = 112 \<or> 125 \<le> rec_next page current \<and> rec_next page current \<le> rd_2 page 40" "page_get_n_recs page \<noteq> 0"
    using ok by (auto simp: delete_ok_def user_rec_def header_field Let_def)
  have w: "unlink_record True prev current (rec_next page current) owner slot_no (rec_owned page owner - 1) d e page = Some page'"
    "m' = page_delete_dynamic idt (prev - 99) (e - 5) d m"
    using del meta unfolding N by (auto simp: delete_steps_def bind_eq_Some_conv)
  have nb: "\<not> behind_slot page (page_dir_get_n_slots page - 1) x" if "x \<le> rd_2 page 40" for x
    using that f(4,6) by (auto simp: behind_slot_def)
  have chk: "page_dir_get_n_slots page \<ge> 2" "fil_page_index_page_check page" "page_get_page_no page = page_no idt"
    "mach_read_from_2 (drop (112 - 2) page) = 0"
    using valid unfolding index_page_valid_def Let_def rd_2_def by auto
  have sz: "5 + (e - 5) = e" "(99 + (prev - 99)) mod 2 ^ 16 = prev" using c(4) p f(1,3,4,6) by simp_all
  have g: "get_2 page prev 2 = Some (rd_2 page (prev - 2))" "(prev + rd_2 page (prev - 2)) mod 2 ^ 16 = current"
    "get_2 page current 2 = Some (rd_2 page (current - 2))" "(current + rd_2 page (current - 2)) mod 2 ^ 16 = rec_next page current"
    using D(2) p c(1,2) f(6) by (simp_all add: get_eqs rec_next_def)
  have "apply_delete True prev current (rec_next page current) d e page = Some (False, page')"
    using D(3,4) w(1) by (simp add: apply_delete_def)
  moreover have "page_apply_delete_dynamic idt (prev - 99) (e - 5) d page =
      apply_delete True prev current (rec_next page current) d e page"
    unfolding page_apply_delete_dynamic_def Let_def sz
    using chk c f(7) nb [OF p(2)] nb [of current] nb [OF c(2)] nb [of "rec_next page current"] g by auto
  moreover have "prev - 99 < MIN_4BYTE" "e - 5 < MIN_3BYTE" "d < MIN_4BYTE" using p(2) c(2,5) f(3,6) by (simp_all add: min_bytes)
  ultimately show ?thesis using that [OF w(2)] by simp
qed

lemma delete_decoded:
  assumes "prev < MIN_4BYTE" "h < MIN_3BYTE" "d < MIN_4BYTE" "block_id env = idt"
  defines "p \<equiv> mlog_encode_varint prev @ mlog_encode_varint h @ mlog_encode_varint d"
  shows "extended_subtype env 9 (p @ r, length p) page = Some (page_apply_delete_dynamic idt prev h d page)"
    and "m_logged m \<Longrightarrow> page_delete_dynamic idt prev h d m =
      (log_extended idt True (length p + 1) (9 # p) m)\<lparr>m_last_offset := FIL_PAGE_TYPE\<rparr>"
    and "length p < 2 ^ 17"
proof -
  let ?v = mlog_encode_varint
  have pos: "1 \<le> varint_size n" "varint_size n \<le> 3" for n by (simp_all add: varint_size_def)
  have len: "length (?v x) \<noteq> 0" for x using length_varint(3) [of x] by linarith
  have two: "varint_size h \<le> 2" "h < MIN_4BYTE" using assms(2) by (simp_all add: varint_size_def min_bytes)
  have e1: "ext_varint 3 (<) (?v prev @ ?v h @ ?v d @ r, length (?v prev) + (length (?v h) + length (?v d))) =
      Some (prev, ?v h @ ?v d @ r, length (?v h) + length (?v d))"
    by (rule ext_varint_eq [OF assms(1)]) (use pos len in simp_all)
  have e2: "ext_varint 2 (<) (?v h @ ?v d @ r, length (?v h) + length (?v d)) = Some (h, ?v d @ r, length (?v d))"
    by (rule ext_varint_eq [OF two(2,1)]) (use len in simp)
  have e3: "ext_varint 3 (=) (?v d @ r, length (?v d)) = Some (d, r, 0)"
    using ext_varint_eq [OF assms(3), of 3 "(=)" 0 r] pos by simp
  show "extended_subtype env 9 (p @ r, length p) page = Some (page_apply_delete_dynamic idt prev h d page)"
    using e1 e2 e3 assms(4) len [of prev] by (simp add: extended_subtype_def p_def ext_delete_dynamic_def)
  have "length (?v h) = (if h < MIN_2BYTE then 1 else 2)"
    using length_varint(1) [OF two(2)] assms(2) by (simp add: varint_size_def)
  then show "page_delete_dynamic idt prev h d m =
      (log_extended idt True (length p + 1) (9 # p) m)\<lparr>m_last_offset := FIL_PAGE_TYPE\<rparr>" if "m_logged m"
    using that length_varint(1) [OF assms(1)] length_varint(1) [OF assms(3)]
    by (simp add: page_delete_dynamic_def p_def add_ac)
  show "length p < 2 ^ 17"
    using length_varint(2) [of prev] length_varint(2) [of h] length_varint(2) [of d] by (simp add: p_def)
qed

text \<open>The last record of a page is deleted by creating the page anew.\<close>

lemma replays_then:
  assumes "replays env idt s0 s st" "m_logged (snd s0)" "\<And>st'. follows idt s st' \<Longrightarrow> m_logged (snd s) \<Longrightarrow> replays env idt s s' st'"
  shows "replays env idt s0 s' st"
proof (rule replays_trans [OF assms(1)])
  have "m_logged (snd s)" using assms(1,2) by (auto simp: replays_def)
  then show "replays env idt s s' st'" if "follows idt s st'" for st' using assms(3) that by blast
qed

lemma length_write:
  assumes "l \<in> {1, 2, 4, 8}" "ptr + l \<le> length (fst s)"
  shows "length (fst (snd (mtr_write l w idt ptr val s))) = length (fst s)"
  using assms length_int_bytes [of l val] by (simp add: mtr_write_def Let_def case_prod_unfold)

lemma replay_create_empty:
  assumes pg: "page_ok idt page" "256 \<le> length page" and on: "m_logged m" and fo: "follows idt (page, m) st"
    and env: "block_id env = idt" "3 \<le> page_no idt" "\<not> zipped env"
  shows "replays env idt (page, m) (page_create_empty idt ix (page, m)) st"
proof -
  let ?n = "length page"
  define s1 where "s1 = page_create_logged idt (not_redundant ix) (page, m)"
  define s2 where "s2 = (if spatial ix then snd (mtr_write 1 NORMAL idt (FIL_PAGE_TYPE + 1) (17854 mod 256) s1) else s1)"
  define s3 where "s3 = (if spatial ix \<and> mach_read_from_8 (drop 26 (fst s2)) \<noteq> 0 then mtr_memset idt 26 8 0 s2 else s2)"
  have len: "length (fst s1) = ?n" "length (fst s2) = ?n" "length (fst s3) = ?n"
  proof -
    show l1: "length (fst s1) = ?n" using pg(2) by (simp add: s1_def page_create_logged_def)
    show l2: "length (fst s2) = ?n" using pg(2) l1 length_write [of 1 25 s1] by (simp add: s2_def FIL_PAGE_TYPE_def)
    show "length (fst s3) = ?n" using pg(2) l2 by (auto simp: s3_def mtr_memset_def case_prod_unfold)
  qed
  have ok: "page_ok idt q" if "length q = ?n" for q using pg(1) that by (simp add: page_ok_def)
  have w: "replays env idt s (snd (mtr_write l w idt ptr val s)) st'"
    if "length (fst s) = ?n" "follows idt s st'" "m_logged (snd s)" "8 \<le> ptr" "ptr + l \<le> 256" "l \<in> {1, 2, 4, 8}" for s l w ptr val st'
    using replay_write [OF ok, of "fst s" "snd s"] that pg(2) by simp
  have r1: "replays env idt (page, m) s1 st" unfolding s1_def by (rule replay_page_create(1) [OF pg(1) on fo env])
  have r2: "replays env idt (page, m) s2 st"
    by (rule replays_then [OF r1]) (use on w [OF len(1)] replays_refl in \<open>auto simp: s2_def FIL_PAGE_TYPE_def\<close>)
  have r3: "replays env idt (page, m) s3 st"
    by (rule replays_then [OF r2])
      (use on pg(2) len(2) replay_memset [OF ok, of "fst s2" "snd s2"] replays_refl in \<open>auto simp: s3_def\<close>)
  have s4: "page_create_empty idt ix (page, m) = s3 \<or> (\<exists>v. page_create_empty idt ix (page, m) = snd (mtr_write 8 NORMAL idt 56 v s3))"
    by (auto simp: page_create_empty_def Let_def s3_def s2_def s1_def)
  then show ?thesis
    using r3 replays_then [OF r3, of "snd (mtr_write 8 NORMAL idt 56 v s3)" for v] on w [OF len(3)] by auto
qed

lemma length_create_empty:
  assumes "256 \<le> length page"
  shows "length (fst (page_create_empty idt ix (page, m))) = length page"
proof -
  have c: "length (fst (page_create_logged idt c (page, m))) = length page" for c
    using assms by (simp add: page_create_logged_def)
  have w: "length (fst (snd (mtr_write l w idt ptr val s))) = length page"
    if "length (fst s) = length page" "ptr + l \<le> 256" "l \<in> {1, 2, 4, 8}" for l w ptr val s
    using length_write [OF that(3), of ptr s] that assms by simp
  have m: "length (fst (mtr_memset idt 26 8 0 s)) = length page" if "length (fst s) = length page" for s
    using that assms by (simp add: mtr_memset_def case_prod_unfold)
  show ?thesis unfolding page_create_empty_def Let_def fst_conv
    by (auto simp: FIL_PAGE_TYPE_def intro!: c w m)
qed

lemma replay_delete:
  assumes pg: "page_ok idt page" and on: "m_logged m" and fo: "follows idt (page, m) st"
    and env: "block_id env = idt" "3 \<le> page_no idt" "\<not> zipped env"
    and ok: "delete_ok idt current e d page"
    and del: "page_cur_delete_rec idt ix current e d (page, m) = Some (page', m')"
  shows "replays env idt (page, m) (page', m') st"
proof -
  have "256 \<le> length page" using ok page_valid_facts(1) [of idt page] by (simp add: delete_ok_def)
  obtain metadata where meta: "rec_is_alter_metadata page current (not_redundant ix) = Some metadata"
    using del by (cases "rec_is_alter_metadata page current (not_redundant ix)") (simp_all add: page_cur_delete_rec_def Let_def)
  show ?thesis
  proof (cases "page_get_n_recs page = 1 \<and> \<not> metadata")
    case True
    then have "page_create_empty idt ix (page, m) = (page', m')" using del meta by (simp add: page_cur_delete_rec_def)
    then show ?thesis using replay_create_empty [OF pg \<open>256 \<le> length page\<close> on fo env, of ix] by simp
  next
    case False
    obtain prev where p: "m' = page_delete_dynamic idt (prev - 99) (e - 5) d m" "prev - 99 < MIN_4BYTE" "e - 5 < MIN_3BYTE"
      "d < MIN_4BYTE" "page_apply_delete_dynamic idt (prev - 99) (e - 5) d page = Some (False, page')"
      by (rule delete_both [OF ok meta False del])
    note dec = delete_decoded [OF p(2-4) env(1)]
    have "extended_subtype env 9 ((mlog_encode_varint (prev - 99) @ mlog_encode_varint (e - 5) @ mlog_encode_varint d) @ r,
        length (mlog_encode_varint (prev - 99) @ mlog_encode_varint (e - 5) @ mlog_encode_varint d)) page =
      Some (Some (False, page'))" for r
      using dec(1) p(5) by simp
    from replay_extended [OF pg on fo env dec(3) this] show ?thesis unfolding p(1) dec(2) [OF on] .
  qed
qed

end
