(* ===== verification/Redo_Mtr.thy ===== *)
theory Redo_Mtr
  imports Index_Delete
begin

text \<open>
  Mini-transactions as sequences of operations on pages, and the proof that a reader of the records of one
  page follows them, however the operations on different pages are interleaved. Then that a reader of
  arbitrary bytes stays within the page, and the corner cases of the records.
\<close>

unbundle bit_operations_syntax

section \<open>Mini-transactions on several pages\<close>

datatype page_op =
  Write nat write_type nat nat
| Memcpy write_type nat "byte list"
| Memset nat nat byte
| Memset_Str nat nat "byte list"
| Memmove nat nat nat
| Init_Page
| Create_Page bool
| Create_Undo_Page
| Add_Undo "byte list"
| Insert_Rec nat "byte list" "byte list" nat nat
| Delete_Rec index_info nat nat nat

text \<open>
  A repeated string and a move are logged by functions that leave the page alone: the callers
  change it. Inserting and deleting a record may have no result, if the page is corrupted.
\<close>

fun run_op :: "page_id_t \<Rightarrow> page_op \<Rightarrow> byte list \<times> mtr_t \<Rightarrow> byte list \<times> mtr_t" where
  "run_op idt (Write l w ptr val) s = snd (mtr_write l w idt ptr val s)"
| "run_op idt (Memcpy w dest str) s = mtr_memcpy w idt dest str s"
| "run_op idt (Memset ofs len val) s = mtr_memset idt ofs len val s"
| "run_op idt (Memset_Str k ofs str) s =
     (put ofs (concat (replicate k str)) (fst s), log_memset_str idt ofs (k * length str) str (snd s))"
| "run_op idt (Memmove d a len) s = (page_memmove d a len (fst s), log_memmove idt d a len (snd s))"
| "run_op idt Init_Page s = fsp_init_file_page idt s"
| "run_op idt (Create_Page compact) s = page_create_logged idt compact s"
| "run_op idt Create_Undo_Page s = undo_page_create idt s"
| "run_op idt (Add_Undo data) s = undo_page_add idt data s"
| "run_op idt (Insert_Rec cur hdr data fextra fdata) s =
     (case page_cur_insert_rec_low idt cur hdr data fextra fdata s of None \<Rightarrow> s | Some (r, s') \<Rightarrow> s')"
| "run_op idt (Delete_Rec ix current extra_size data_size) s =
     (case page_cur_delete_rec idt ix current extra_size data_size s of None \<Rightarrow> s | Some s' \<Rightarrow> s')"

text \<open>What the assertions of the operations ask of their callers. Inserting and deleting a record has to succeed.\<close>

definition mtr_no_redo :: mtr_t where
  "mtr_no_redo = \<lparr>m_log = [], m_last = None, m_last_offset = 0, m_logged = False\<rparr>"

definition insert_succeeds :: "page_id_t \<Rightarrow> nat \<Rightarrow> byte list \<Rightarrow> byte list \<Rightarrow> nat \<Rightarrow> nat \<Rightarrow> byte list \<Rightarrow> bool" where
  "insert_succeeds idt cur hdr data fextra fdata page =
     (case page_cur_insert_rec_low idt cur hdr data fextra fdata (page, mtr_no_redo) of
        Some (Some r, _) \<Rightarrow> True | _ \<Rightarrow> False)"

fun op_ok :: "page_id_t \<Rightarrow> page_op \<Rightarrow> byte list \<Rightarrow> bool" where
  "op_ok idt (Write l w ptr val) page \<longleftrightarrow> l \<in> {1, 2, 4, 8} \<and> 8 \<le> ptr \<and> ptr + l \<le> length page"
| "op_ok idt (Memcpy w dest str) page \<longleftrightarrow> str \<noteq> [] \<and> 8 \<le> dest \<and> dest + length str \<le> length page"
| "op_ok idt (Memset ofs len val) page \<longleftrightarrow> 0 < len \<and> 8 \<le> ofs \<and> ofs + len \<le> length page"
| "op_ok idt (Memset_Str k ofs str) page \<longleftrightarrow> str \<noteq> [] \<and> 0 < k \<and> 8 \<le> ofs \<and> ofs + k * length str \<le> length page"
| "op_ok idt (Memmove d a len) page \<longleftrightarrow>
     8 \<le> d \<and> d + len \<le> length page \<and> 8 \<le> a \<and> a + len \<le> length page \<and> a \<noteq> d \<and> 0 < len"
| "op_ok idt Init_Page page \<longleftrightarrow> True"
| "op_ok idt (Create_Page compact) page \<longleftrightarrow> 3 \<le> page_no idt"
| "op_ok idt Create_Undo_Page page \<longleftrightarrow> 3 \<le> page_no idt"
| "op_ok idt (Add_Undo data) page \<longleftrightarrow> 3 \<le> page_no idt \<and> undo_room data page"
| "op_ok idt (Insert_Rec cur hdr data fextra fdata) page \<longleftrightarrow>
     3 \<le> page_no idt \<and> insert_ok idt cur hdr data fextra fdata page \<and> insert_succeeds idt cur hdr data fextra fdata page"
| "op_ok idt (Delete_Rec ix current extra_size data_size) page \<longleftrightarrow>
     3 \<le> page_no idt \<and> delete_ok idt current extra_size data_size page \<and>
     page_cur_delete_rec idt ix current extra_size data_size (page, mtr_no_redo) \<noteq> None"

type_synonym pages = "page_id_t \<Rightarrow> byte list"

definition mtr_start :: mtr_t where
  "mtr_start = \<lparr>m_log = [], m_last = None, m_last_offset = 0, m_logged = True\<rparr>"

definition mtr_step :: "page_id_t \<times> page_op \<Rightarrow> pages \<times> mtr_t \<Rightarrow> pages \<times> mtr_t" where
  "mtr_step = (\<lambda>(idt, op) (pages, m).
     case run_op idt op (pages idt, m) of (page, m) \<Rightarrow> (pages(idt := page), m))"

fun mtr_ok :: "(page_id_t \<times> page_op) list \<Rightarrow> pages \<times> mtr_t \<Rightarrow> bool" where
  "mtr_ok [] s \<longleftrightarrow> True"
| "mtr_ok (x # xs) s \<longleftrightarrow> op_ok (fst x) (snd x) (fst s (fst x)) \<and> mtr_ok xs (mtr_step x s)"

text \<open>The records of one page, in the order in which they were written.\<close>

fun page_log :: "page_id_t \<Rightarrow> (page_id_t \<times> page_op) list \<Rightarrow> pages \<times> mtr_t \<Rightarrow> byte list" where
  "page_log idt [] s = []"
| "page_log idt (x # xs) s =
     (if fst x = idt then drop (length (m_log (snd s))) (m_log (snd (mtr_step x s))) else []) @
     page_log idt xs (mtr_step x s)"

text \<open>The pages have identifiers of 32 bits, and between 256 bytes and 64 KiB.\<close>

definition pages_ok :: "pages \<Rightarrow> page_id_t set \<Rightarrow> bool" where
  "pages_ok pages ids \<longleftrightarrow> (\<forall>idt \<in> ids. page_ok idt (pages idt) \<and> 256 \<le> length (pages idt))"

definition recv_start :: "nat \<Rightarrow> byte list \<Rightarrow> recv_page" where
  "recv_start offset page = \<lparr>frame = page, last_offset = offset, applied = APPLIED_NO, log_corrupted = False\<rparr>"

section \<open>Records of index pages\<close>

text \<open>Whether inserting or deleting a record succeeds does not depend on the log, and the size of the page is kept.\<close>

lemma split_any_log:
  "split_owner_slot n owner r page m = Some (x, page', m') \<Longrightarrow>
   m' = m \<and> split_owner_slot n owner r page m2 = Some (x, page', m2) \<and> (66 \<le> length page \<longrightarrow> length page' = length page)"
  by (auto simp: split_owner_slot_def split: if_splits Option.bind_splits option.splits dest: split_size)

lemma insert_any_log:
  assumes ok: "insert_ok idt cur hdr data fx fd page" and succ: "insert_succeeds idt cur hdr data fx fd page"
  obtains r page' m' where "page_cur_insert_rec_low idt cur hdr data fx fd (page, m) = Some (Some r, page', m')"
    "length page' = length page"
proof -
  let ?q = "writes (insert_writes cur hdr data fx fd page) page" and ?owner = "last (walk 8 page (rec_next page cur))"
  obtain r page' m1 where ins: "page_cur_insert_rec_low idt cur hdr data fx fd (page, mtr_no_redo) = Some (Some r, page', m1)"
    using succ by (auto simp: insert_succeeds_def split: option.splits prod.splits)
  note normal = insert_normal [OF ok insert_has_space [OF ok ins]]
  have "split_owner_slot (rec_owned page ?owner) ?owner (insert_start hdr data fx fd page + length hdr) ?q mtr_no_redo =
      Some (Some r, page', m1)"
    using ins unfolding normal by (simp add: mtr_no_redo_def)
  note any = split_any_log [OF this]
  have len: "length page' = length page"
    using any insert_within [OF ok] page_valid_facts(1) [of idt page] ok by (simp add: insert_ok_def)
  show ?thesis
  proof (cases "m_logged m")
    case True
    then show ?thesis using that [OF _ len] any unfolding normal log_insert_eq [OF ok] by fastforce
  next
    case False
    then show ?thesis using that [OF _ len] any unfolding normal by fastforce
  qed
qed

lemma delete_any_log:
  assumes ok: "delete_ok idt current e d page" and succ: "page_cur_delete_rec idt ix current e d (page, m1) \<noteq> None"
  obtains page' m' where "page_cur_delete_rec idt ix current e d (page, m) = Some (page', m')" "length page' = length page"
proof -
  have len: "66 \<le> length page" "256 \<le> length page"
    using ok page_valid_facts(1) [of idt page] by (simp_all add: delete_ok_def)
  obtain prev owner slot_no where N: "\<And>m. page_cur_delete_rec idt ix current e d (page, m) = delete_steps idt ix current e d prev owner slot_no (page, m)"
    by (rule delete_normal [OF ok]) (rule that)
  have "page_cur_delete_rec idt ix current e d (page, m) \<noteq> None"
    using succ unfolding N by (auto simp: delete_steps_def bind_eq_None_conv simp del: not_None_eq split: if_splits)
  moreover have "length page' = length page" if "page_cur_delete_rec idt ix current e d (page, m) = Some (page', m')" for page' m'
    using that length_create_empty [OF len(2), of idt ix m] unlink_size [OF len(1)] unfolding N
    by (auto simp: delete_steps_def bind_eq_Some_conv sized_def split: if_splits)
  ultimately show ?thesis using that by fastforce
qed

section \<open>Following one operation\<close>

lemma replay_op:
  assumes pg: "page_ok idt page" and f: "follows idt (page, m) st" and on: "m_logged m"
    and env: "block_id env = idt" "\<not> zipped env" and ok: "op_ok idt op page"
  shows "replays env idt (page, m) (run_op idt op (page, m)) st"
proof (cases op)
  case (Write l w ptr val)
  then show ?thesis using ok replay_write [OF pg f on] by simp
next
  case (Memcpy w dest str)
  then show ?thesis using ok replay_memcpy [OF pg f on] by simp
next
  case (Memset ofs len val)
  then show ?thesis using ok replay_memset [OF pg f on] by simp
next
  case (Memset_Str k ofs str)
  then show ?thesis using ok replay_memset_str [OF pg f on] by simp
next
  case (Memmove d a len)
  then show ?thesis using ok replay_memmove [OF pg f on] by simp
next
  case Init_Page
  then show ?thesis using replay_init [OF pg on f env(1)] by simp
next
  case (Create_Page compact)
  then show ?thesis using ok replay_page_create(1) [OF pg on f env(1) _ env(2)] by simp
next
  case Create_Undo_Page
  then show ?thesis using ok replay_page_create(2) [OF pg on f env(1) _ env(2)] by simp
next
  case (Add_Undo data)
  then show ?thesis using ok replay_undo_add [OF pg on f env(1) _ env(2)] by simp
next
  case (Insert_Rec cur hdr data fx fd)
  then have i: "3 \<le> page_no idt" "insert_ok idt cur hdr data fx fd page" "insert_succeeds idt cur hdr data fx fd page"
    using ok by simp_all
  obtain r page' m' where "page_cur_insert_rec_low idt cur hdr data fx fd (page, m) = Some (Some r, page', m')"
    using insert_any_log [OF i(2,3)] by blast
  then show ?thesis using replay_insert [OF pg on f env(1) i(1) env(2) i(2)] Insert_Rec by simp
next
  case (Delete_Rec ix current e d)
  then have d: "3 \<le> page_no idt" "delete_ok idt current e d page"
    "page_cur_delete_rec idt ix current e d (page, mtr_no_redo) \<noteq> None" using ok by simp_all
  obtain page' m' where "page_cur_delete_rec idt ix current e d (page, m) = Some (page', m')"
    using delete_any_log [OF d(2,3)] by blast
  then show ?thesis using replay_delete [OF pg on f env(1) d(1) env(2) d(2)] Delete_Rec by simp
qed

text \<open>An operation logs nothing, or leaves its page as that of the last record.\<close>

definition logs_for :: "page_id_t \<Rightarrow> mtr_t \<Rightarrow> mtr_t \<Rightarrow> bool" where
  "logs_for idt m m' \<longleftrightarrow> m' = m \<or> m_last m' = Some idt \<and> m_logged m' = m_logged m"

lemma log_write_last: "m_last (log_write type idt True len offset m) = Some idt"
  "m_logged (log_write type idt True len offset m) = m_logged m"
  by (auto simp: log_write_eq rel_page_def same_page_as_def)

lemma logs_for_refl: "logs_for idt m m"
  by (simp add: logs_for_def)

lemma logs_for_log:
  "logs_for idt m (memcpy_low idt off data m)" "logs_for idt m (log_memset idt ofs len val m)"
  "logs_for idt m (log_memset_str idt ofs len str m)" "logs_for idt m (log_memmove idt d a len m)"
  "logs_for idt m (mtr_init idt m)" "logs_for idt m (log_write_extended idt type m)"
  "logs_for idt m (undo_append idt data m)"
  unfolding atomize_conj
  by (cases "m_logged m") (simp_all add: memcpy_low_def log_memset_def log_memset_str_def log_memmove_def mtr_init_def
      log_write_extended_def undo_append_def log_extended_def Let_def logs_for_def log_write_last split del: if_split)

lemmas logs_for_intros = logs_for_refl logs_for_log

lemma logs_for_trans: "logs_for idt m m1 \<Longrightarrow> logs_for idt m1 m2 \<Longrightarrow> logs_for idt m m2"
  by (auto simp: logs_for_def)

lemma logs_for_records:
  "logs_for idt m (page_insert_dynamic idt reuse prev info shift hdr_c data_c hdr data m)"
  "logs_for idt m (page_insert_redundant idt reuse prev info n hdr_c data_c hdr data m)"
  "logs_for idt m (page_delete_dynamic idt prev h d m)" "logs_for idt m (page_delete_redundant idt prev m)"
  by (simp_all add: page_insert_dynamic_def page_insert_redundant_def page_delete_dynamic_def page_delete_redundant_def log_extended_def
      Let_def logs_for_def log_write_last)

text \<open>The state that a computation may return has logged for a page.\<close>

definition logging :: "page_id_t \<Rightarrow> mtr_t \<Rightarrow> ('a \<Rightarrow> mtr_t) \<Rightarrow> 'a option \<Rightarrow> bool" where
  "logging idt m f x \<longleftrightarrow> (\<forall>y. x = Some y \<longrightarrow> logs_for idt m (f y))"

lemma logging_intros:
  "(\<And>z. v = Some z \<Longrightarrow> logging idt m f (g z)) \<Longrightarrow> logging idt m f (v \<bind> g)"
  "(c \<Longrightarrow> logging idt m f x) \<Longrightarrow> (\<not> c \<Longrightarrow> logging idt m f x') \<Longrightarrow> logging idt m f (if c then x else x')"
  "logging idt m f x \<Longrightarrow> (\<And>z. v = Some z \<Longrightarrow> logging idt m f (g z)) \<Longrightarrow>
   logging idt m f (case v of None \<Rightarrow> x | Some z \<Rightarrow> g z)"
  "(\<And>a b. p = (a, b) \<Longrightarrow> logging idt m f (k a b)) \<Longrightarrow> logging idt m f (case p of (a, b) \<Rightarrow> k a b)"
  "logs_for idt m (f y) \<Longrightarrow> logging idt m f (Some y)" "logging idt m f None"
  by (auto simp: logging_def bind_eq_Some_conv split: option.split prod.split)

lemma logs_for_insert: "logging idt m (\<lambda>x. snd (snd x)) (page_cur_insert_rec_low idt cur hdr data fx fd (page, m))"
proof -
  have log: "logs_for idt m m2" if "(if m_logged m then log_insert c idt reuse fo cur buf owner hdr data q m else Some m) = Some m2"
    for c reuse fo buf owner q m2
    using that by (auto simp: log_insert_def Let_def bind_eq_Some_conv intro: logs_for_intros logs_for_records split: if_splits)
  have split: "logging idt m (\<lambda>x. snd (snd x)) (split_owner_slot n owner r q m2)" if "logs_for idt m m2" for n owner r q m2
    using that by (auto simp: logging_def dest: split_any_log)
  show ?thesis
    unfolding page_cur_insert_rec_low_def Let_def prod.case
    by (intro logging_intros split) (auto intro: log logs_for_refl)
qed

lemma logs_for_empty: "logs_for idt m (snd (page_create_empty idt ix (page, m)))"
proof -
  have w: "logs_for idt m (snd (snd (mtr_write l w idt ptr val s)))" if "logs_for idt m (snd s)" for l w ptr val s
    using that logs_for_trans [OF that logs_for_log(1)] by (auto simp: mtr_write_def Let_def case_prod_unfold)
  have m: "logs_for idt m (snd (mtr_memset idt off l v s))" if "logs_for idt m (snd s)" for off l v s
    using logs_for_trans [OF that logs_for_log(2)] by (simp add: mtr_memset_def case_prod_unfold)
  have c: "logs_for idt m (snd (page_create_logged idt c (page, m)))" for c
    by (simp add: page_create_logged_def page_create_def logs_for_intros)
  show ?thesis unfolding page_create_empty_def Let_def by (auto intro!: w m c)
qed

lemma logs_for_delete: "logging idt m snd (page_cur_delete_rec idt ix current e d (page, m))"
  unfolding page_cur_delete_rec_def Let_def prod.case
  by (intro logging_intros) (auto intro: logs_for_refl logs_for_records logs_for_empty)

lemma logs_for_op: "logs_for idt m (snd (run_op idt op (page, m)))"
proof (cases op)
  case (Write l w ptr val)
  then show ?thesis by (simp add: mtr_write_def Let_def logs_for_intros)
next
  case (Memcpy w dest str)
  then show ?thesis by (simp add: mtr_memcpy_def log_memcpy_def Let_def logs_for_intros)
next
  case (Add_Undo data)
  then show ?thesis
    by (simp add: undo_page_add_def trx_undo_page_set_next_prev_and_add_def Let_def logs_for_intros)
next
  case (Insert_Rec cur hdr data fx fd)
  then show ?thesis using logs_for_insert [of idt m cur hdr data fx fd page] by (auto simp: logging_def logs_for_refl split: option.split)
next
  case (Delete_Rec ix current e d)
  then show ?thesis using logs_for_delete [of idt m ix current e d page] by (auto simp: logging_def logs_for_refl split: option.split)
qed (simp_all add: mtr_memset_def fsp_init_file_page_def page_create_logged_def page_create_def undo_page_create_def
    undo_create_def logs_for_intros)

lemma length_op:
  assumes "op_ok idt op page" "256 \<le> length page"
  shows "length (fst (run_op idt op (page, m))) = length page"
proof (cases op)
  case (Write l w ptr val)
  then show ?thesis using assms length_int_bytes [of l val] by (simp add: mtr_write_def Let_def)
next
  case (Memcpy w dest str)
  let ?p = "if w \<noteq> FORCED \<and> m_logged m then same_prefix (drop dest page) str else 0"
  have "?p \<le> length str" using same_prefix_le by simp
  then have "dest + ?p + length (drop ?p str) \<le> length page" using Memcpy assms by simp
  then show ?thesis using Memcpy by (simp add: mtr_memcpy_def log_memcpy_def Let_def)
next
  case (Memset_Str k ofs str)
  then show ?thesis using assms by (simp add: length_concat sum_list_replicate)
next
  case (Memmove d a len)
  then have "length (take len (drop a page)) = len" using assms(1) by auto
  then show ?thesis using Memmove assms(1) by (simp add: page_memmove_def length_put del: length_take)
next
  case (Add_Undo data)
  then show ?thesis using assms undo_page_add_eq by simp
next
  case (Insert_Rec cur hdr data fx fd)
  then have i: "insert_ok idt cur hdr data fx fd page" "insert_succeeds idt cur hdr data fx fd page" using assms(1) by simp_all
  obtain r page' m' where "page_cur_insert_rec_low idt cur hdr data fx fd (page, m) = Some (Some r, page', m')"
    "length page' = length page" by (rule insert_any_log [OF i])
  then show ?thesis using Insert_Rec by simp
next
  case (Delete_Rec ix current e d)
  then have d: "delete_ok idt current e d page" "page_cur_delete_rec idt ix current e d (page, mtr_no_redo) \<noteq> None"
    using assms(1) by simp_all
  obtain page' m' where "page_cur_delete_rec idt ix current e d (page, m) = Some (page', m')" "length page' = length page"
    by (rule delete_any_log [OF d])
  then show ?thesis using Delete_Rec by simp
qed (use assms in \<open>simp_all add: mtr_memset_def fsp_init_file_page_def page_create_logged_def
    undo_page_create_def\<close>)

lemma mtr_step_eq:
  "mtr_step x s = ((fst s)(fst x := fst (run_op (fst x) (snd x) (fst s (fst x), snd s))),
     snd (run_op (fst x) (snd x) (fst s (fst x), snd s)))"
  by (simp add: mtr_step_def case_prod_unfold)

lemma pages_ok_step:
  assumes "pages_ok (fst s) ids" "fst x \<in> ids" "op_ok (fst x) (snd x) (fst s (fst x))"
  shows "pages_ok (fst (mtr_step x s)) ids"
proof -
  have "length (fst (run_op (fst x) (snd x) (fst s (fst x), snd s))) = length (fst s (fst x))"
    using assms by (intro length_op) (simp_all add: pages_ok_def)
  then show ?thesis using assms
    by (simp add: mtr_step_eq pages_ok_def page_ok_def)
qed

text \<open>A reader of one page follows the operations on it, and is not disturbed by those on other pages.\<close>

lemma follows_other:
  assumes "follows idt (pages idt, m) st" "idt' \<noteq> idt"
  shows "follows idt (fst (mtr_step (idt', op) (pages, m)) idt, snd (mtr_step (idt', op) (pages, m))) st"
  using assms logs_for_op [of idt' m op "pages idt'"]
  by (auto simp: mtr_step_eq follows_def logs_for_def)

lemma logged_step: "m_logged (snd (mtr_step x (pages, m))) = m_logged m"
  using logs_for_op [of "fst x" m "snd x" "pages (fst x)"]
  by (auto simp: mtr_step_eq logs_for_def)

lemma redo_follows:
  assumes env: "block_id env = idt" "\<not> zipped env"
  shows "\<lbrakk>pages_ok pages ids; fst ` set xs \<subseteq> ids; idt \<in> ids; mtr_ok xs (pages, m); m_logged m;
    follows idt (pages idt, m) st\<rbrakk> \<Longrightarrow>
    \<exists>st'. (\<forall>r. log_apply env (page_log idt xs (pages, m) @ r) st = log_apply env r st') \<and>
      follows idt (fst (fold mtr_step xs (pages, m)) idt, snd (fold mtr_step xs (pages, m))) st'"
proof (induction xs arbitrary: pages m st)
  case Nil
  then show ?case by auto
next
  case (Cons x xs)
  obtain pages1 m1 where s1: "mtr_step x (pages, m) = (pages1, m1)" by fastforce
  have pg: "page_ok idt (pages idt)" and ok: "op_ok (fst x) (snd x) (pages (fst x))"
    using Cons.prems by (auto simp: pages_ok_def)
  have pages1: "pages_ok pages1 ids" using pages_ok_step [of "(pages, m)" ids x] Cons.prems s1 by simp
  have on: "m_logged m1" using logged_step [of x pages m] s1 Cons.prems(5) by simp
  obtain rec st1 where st1: "follows idt (pages1 idt, m1) st1"
      "\<forall>r. log_apply env ((if fst x = idt then drop (length (m_log m)) (m_log m1) else []) @ r) st = log_apply env r st1"
  proof (cases "fst x = idt")
    case True
    then have run: "run_op idt (snd x) (pages idt, m) = (pages1 idt, m1)"
      using s1 by (auto simp: mtr_step_eq prod_eq_iff)
    obtain rec st' where "m_log m1 = m_log m @ rec" "follows idt (pages1 idt, m1) st'"
      "\<forall>r. log_apply env (rec @ r) st = log_apply env r st'"
      using replay_op [OF pg Cons.prems(6,5) env, of "snd x"] ok True run by (auto simp: replays_def)
    then show ?thesis using that [of st'] True by simp
  next
    case False
    then have "follows idt (pages1 idt, m1) st"
      using follows_other [of idt pages m st "fst x" "snd x"] Cons.prems(6) s1 by simp
    then show ?thesis using that [of st] False by simp
  qed
  have "mtr_ok xs (pages1, m1)" using Cons.prems(4) s1 by simp
  from Cons.IH [OF pages1 _ Cons.prems(3) this on st1(1)] Cons.prems(2) show ?case
    using st1(2) s1 by (auto simp: append_assoc)
qed

section \<open>Any log keeps to the page\<close>

definition keeps_size :: "nat \<Rightarrow> verdict \<Rightarrow> bool" where
  "keeps_size n v \<longleftrightarrow>
     (case v of Next st \<Rightarrow> length (frame st) = n | Return _ st \<Rightarrow> length (frame st) = n | Undefined \<Rightarrow> True)"

lemma keeps_size_simps [simp]:
  "keeps_size n (record_corrupted env st) \<longleftrightarrow> length (frame st) = n"
  "keeps_size n (next_after_applying st) \<longleftrightarrow> length (frame st) = n"
  "keeps_size n (next_after_applying_write len st) \<longleftrightarrow> length (frame st) = n"
  "keeps_size n Undefined" "keeps_size n (Next st) \<longleftrightarrow> length (frame st) = n"
  "keeps_size n (Return status st) \<longleftrightarrow> length (frame st) = n"
  by (simp_all add: keeps_size_def record_corrupted_def next_after_applying_def next_after_applying_write_def)

lemma memset_repeat_size:
  "memset_repeat offset llen str s page = Some page' \<Longrightarrow> offset + llen \<le> length page \<Longrightarrow> length page' = length page"
proof (induction offset llen str s page rule: memset_repeat.induct)
  case (1 offset llen str s page)
  show ?case
  proof (cases "s < llen")
    case True
    then have rec: "str \<noteq> []" "memset_repeat offset llen str (s + length str) (put (offset + s) str page) = Some page'"
      using 1(2) by (subst (asm) memset_repeat.simps; simp split: if_splits)+
    have "s + length str \<le> llen"
    proof (rule ccontr)
      assume "\<not> s + length str \<le> llen"
      then show False using rec(2) by (subst (asm) memset_repeat.simps) simp
    qed
    then show ?thesis using 1(1) [OF True rec] 1(3) by simp
  next
    case False
    then show ?thesis using 1(2) by (subst (asm) memset_repeat.simps) (simp split: if_splits)
  qed
qed

lemma apply_data_size: "keeps_size (length (frame st)) (apply_data env type l rlen st)"
proof -
  have "keeps_size (length (frame st)) (apply_memset l' rlen' len st)"
    if "last_offset st + len \<le> length (frame st)" for l' rlen' len
    using that memset_repeat_size by (auto simp: apply_memset_def split: option.split)
  moreover have "keeps_size (length (frame st)) (apply_memmove env l' rlen' len st)"
    if "last_offset st + len \<le> length (frame st)" for l' rlen' len
    using that by (simp add: apply_memmove_def page_memmove_def Let_def)
  ultimately show ?thesis by (simp add: apply_data_def Let_def min_def add.commute)
qed

lemma undo_append_size:
  assumes "256 \<le> length page"
  shows "length (snd (log_phys_undo_append data page)) = length page"
  using assms by (auto simp: log_phys_undo_append_def Let_def)

lemma extended_size:
  assumes page: "256 \<le> length page" and ext: "extended_subtype env type x page = Some (Some (failed, page'))"
  shows "length page' = length page"
proof -
  have "66 \<le> length page" using page by simp
  note index = insert_redundant_size [OF this] insert_dynamic_size [OF this] delete_size [OF this]
  have hs: "page_apply_insert_redundant idt a b c d e f page = Some (x, q) \<Longrightarrow> length q = length page"
    "page_apply_insert_dynamic idt a b c d e i f page = Some (x, q) \<Longrightarrow> length q = length page"
    "page_apply_delete_redundant idt b page = Some (x, q) \<Longrightarrow> length q = length page"
    "page_apply_delete_dynamic idt b c d page = Some (x, q) \<Longrightarrow> length q = length page"
    "log_phys_undo_append f page = (x, q) \<Longrightarrow> length q = length page" for idt a b c d e f i x q
    using index undo_append_size [OF page, of f] by (simp_all add: sized_result_def)
  have dyn: "ext_insert_dynamic env reuse prev y page = Some (Some (failed, page')) \<Longrightarrow> length page' = length page" for reuse prev y
    by (auto simp: ext_insert_dynamic_def split: Option.bind_splits) (rule hs(2))
  have red: "ext_insert_redundant env reuse prev y page = Some (Some (failed, page')) \<Longrightarrow> length page' = length page" for reuse prev y
    by (auto simp: ext_insert_redundant_def split: Option.bind_splits) (rule hs(1))
  have del: "ext_delete_dynamic env y page = Some (Some (failed, page')) \<Longrightarrow> length page' = length page" for y
    by (auto simp: ext_delete_dynamic_def split: Option.bind_splits) (rule hs(4))
  show ?thesis
    using ext page unfolding extended_subtype_def
    by (auto intro: dyn red del split: if_splits Option.bind_splits) (rule hs, assumption)+
qed

lemma apply_record_size:
  assumes "256 \<le> length (frame st)"
  shows "keeps_size (length (frame st)) (apply_record env type l rlen st)"
proof -
  have "keeps_size (length (frame st)) (apply_extended env l rlen st)"
    using extended_size [OF assms] by (simp add: apply_extended_def split: option.split prod.split)
  moreover have "keeps_size (length (frame st)) (apply_at_offset env t l n st)" for t n
    using apply_data_size [of "st\<lparr>last_offset := x\<rparr>" for x] by (simp add: apply_at_offset_def Let_def)
  ultimately show ?thesis using assms by (auto simp: apply_record_def)
qed

lemma log_apply_size:
  assumes "256 \<le> length (frame st)" "log_apply env l st = Some (status, st')"
  shows "length (frame st') = length (frame st)"
  using assms
proof (induction "length l" arbitrary: l st rule: less_induct)
  case less
  show ?case
  proof (cases "l = [] \<or> l ! 0 = 0")
    case True
    then show ?thesis using less.prems(2) by (subst (asm) log_apply.simps) auto
  next
    case False
    obtain l1 rlen st1 where skip: "skip_id (l ! 0) (parse_length l) st = ((l1, rlen), st1)" by (metis surj_pair)
    have fr: "frame st1 = frame st" using skip by (auto simp: skip_id_def Let_def split: prod.splits if_splits)
    have shorter: "length (drop rlen l1) < length l"
      using skip_id_shorter [of "l ! 0" "parse_length l" st] parse_length_shorter [of l] skip False by simp
    have size: "keeps_size (length (frame st)) (apply_record env (l ! 0 AND 0x70) l1 rlen st1)"
      using apply_record_size [of st1] fr less.prems(1) by simp
    have step: "log_apply env l st = (case apply_record env (l ! 0 AND 0x70) l1 rlen st1 of
        Undefined \<Rightarrow> None | Return status st2 \<Rightarrow> Some (status, st2) | Next st2 \<Rightarrow> log_apply env (drop rlen l1) st2)"
      using False skip by (subst log_apply.simps) simp
    show ?thesis
    proof (cases "apply_record env (l ! 0 AND 0x70) l1 rlen st1")
      case (Next st2)
      then show ?thesis using less.hyps [OF shorter, of st2] less.prems size step by simp
    qed (use less.prems size step in auto)
  qed
qed

section \<open>Corner cases\<close>

lemma apply_extended_defined:
  assumes "l ! 0 \<notin> {4, 5, 6, 7, 8, 9}"
  shows "apply_extended env l rlen st \<noteq> Undefined"
proof -
  have "extended_subtype env (l ! 0) x page \<noteq> Some None" for x page
    using assms by (simp add: extended_subtype_def)
  then show ?thesis
    by (auto simp: apply_extended_def record_corrupted_def next_after_applying_def split: option.split)
qed

lemma apply_record_defined:
  assumes "type \<noteq> MEMSET" "type \<noteq> MEMMOVE" "type = EXTENDED \<longrightarrow> l ! 0 \<notin> {4, 5, 6, 7, 8, 9}"
  shows "apply_record env type l rlen st \<noteq> Undefined"
proof (cases "type = EXTENDED")
  case True
  then show ?thesis using assms(3) apply_extended_defined by (simp add: apply_record_def record_types)
next
  case False
  then show ?thesis
    using assms(1,2)
    by (simp add: apply_record_def apply_at_offset_def apply_data_def record_corrupted_def
        next_after_applying_def next_after_applying_write_def Let_def)
qed

lemma memset_repeat_not_multiple:
  "s \<le> llen \<Longrightarrow> \<not> length str dvd llen - s \<Longrightarrow> memset_repeat offset llen str s page = None"
proof (induction offset llen str s page rule: memset_repeat.induct)
  case (1 offset llen str s page)
  have s: "s < llen" using 1(2,3) by (cases "s = llen") auto
  show ?case
  proof (cases "s + length str \<le> llen")
    case True
    have "\<not> length str dvd llen - (s + length str)"
    proof
      assume "length str dvd llen - (s + length str)"
      then have "length str dvd (llen - (s + length str)) + length str" by simp
      moreover have "(llen - (s + length str)) + length str = llen - s" using True by simp
      ultimately show False using 1(3) by simp
    qed
    then show ?thesis using 1(1) [OF s _ True] s by (subst memset_repeat.simps) simp
  next
    case False
    then have "memset_repeat offset llen str (s + length str) p = None" for p by (subst memset_repeat.simps) simp
    then show ?thesis using s by (subst memset_repeat.simps) simp
  qed
qed

lemma same_prefix_same: "take (length b) a = b \<Longrightarrow> same_prefix a b = length b"
  by (induction a b rule: same_prefix.induct) auto

lemma memcpy_low_longer: "m_logged m \<Longrightarrow> length (m_log m) < length (m_log (memcpy_low idt off data m))"
  by (simp add: memcpy_low_def log_write_eq header_bytes_def Let_def)

lemma memset_str_once: "memset_str_loop ofs len str len page = (len, page)"
  by (subst memset_str_loop.simps) simp

end
