(* ===== verification/Index_Properties.thy ===== *)
theory Index_Properties
  imports Redo_Mtr "HOL-Library.Code_Target_Nat"
begin

text \<open>
  Properties of the insertion of records into index pages: what it changes, and that recovery repeats it; and three
  pages where recovery does not, because the insertion compares the new record with bytes that it has already changed.
\<close>

unbundle bit_operations_syntax

section \<open>The page after an insertion\<close>

text \<open>Nothing else is changed.\<close>

lemma insert_frame:
  assumes ok: "insert_ok idt cur hdr data fx fd page"
  defines "start \<equiv> insert_start hdr data fx fd page"
  assumes i: "56 \<le> i" "i < length page" "i + 2 < cur \<or> cur \<le> i" "i < start \<or> start + length hdr + length data \<le> i"
    "i + 5 \<noteq> last (walk 8 page (rec_next page cur))"
  shows "writes (insert_writes cur hdr data fx fd page) page ! i = page ! i"
proof (rule nth_writes_clear [OF insert_within [OF ok] _ i(2)])
  have "66 \<le> length page" using ok page_valid_facts(1) [of idt page] by (simp add: insert_ok_def)
  note hw = header_writes(3,4) [OF this] and f = insert_facts [OF ok]
  show "clear i 1 (insert_writes cur hdr data fx fd page)"
    using i hw f(3,4) f(7) [OF f(10)] by (auto simp: insert_writes_def Let_def length_new_header start_def)
qed

lemma insert_effect:
  assumes ok: "insert_ok idt cur hdr data fx fd page"
  defines "page' \<equiv> writes (insert_writes cur hdr data fx fd page) page" and "start \<equiv> insert_start hdr data fx fd page"
  shows "rec_next page' cur = start + length hdr" "rec_next page' (start + length hdr) = rec_next page cur"
    "take (length data) (drop (start + length hdr) page') = data"
    "page_get_n_recs page' = (page_get_n_recs page + 1) mod 2 ^ 16"
proof -
  let ?e = "length hdr" and ?r = "start + length hdr"
  have valid: "index_page_valid idt page" using ok by (simp add: insert_ok_def)
  note f = page_valid_facts [OF valid] and i = insert_facts [OF ok, folded start_def] and T = insert_writes_parts [OF ok]
  have r: "?r < 2 ^ 16" "cur < 2 ^ 16" "rec_next page cur < 2 ^ 16" using i(2,5) f(3,6) by (simp_all add: rec_next_def)
  have "rd_2 page' (cur - 2) = (?r + 2 ^ 16 - cur) mod 2 ^ 16"
    using rd_2_hit [OF T(2,3), of "cur - 2" "(?r + 2 ^ 16 - cur) mod 2 ^ 16"] unfolding T(1) page'_def
    by (simp add: replay_writes_def Let_def start_def)
  then show "rec_next page' cur = ?r" using r by (simp add: rec_next_def mod_simps)
  show "page_get_n_recs page' = (page_get_n_recs page + 1) mod 2 ^ 16"
    using rd_2_hit [OF T(2,3), of 54 "rd_2 page 54 + 1"] unfolding T(1) page'_def
    by (simp add: page_get_n_recs_def header_field)
  have area: "take (?e + length data) (drop start page') =
      new_header (insert_heap_no hdr data fx fd page) ?r (rec_next page cur) hdr @ data"
    using insert_record_area [OF ok] by (simp add: start_def page'_def)
  from arg_cong [OF this, of "drop ?e"] show "take (length data) (drop ?r page') = data"
    using length_new_header [OF i(3)] by (simp add: drop_take add.commute)
  have e3: "?e - Suc (Suc (?e - 5)) = 3" using i(3) by linarith
  have "take 2 (drop (?r - 2) page') = take 2 (drop (?e - 2) (take (?e + length data) (drop start page')))"
    using i(3) by (simp add: drop_take add.commute numeral_2_eq_2)
  also have "\<dots> = mach_write_to_2 ((rec_next page cur + 2 ^ 16 - ?r) mod 2 ^ 16)"
    unfolding area using i(3) by (simp add: new_header_def Let_def e3)
  finally have "rd_2 page' (?r - 2) = (rec_next page cur + 2 ^ 16 - ?r) mod 2 ^ 16"
    using mach_read_2_take [of "drop (?r - 2) page'"] mach_fixed_round_trip(2) [of _ "[]"] i(2) insert_within [OF ok]
    by (simp add: rd_2_def page'_def)
  then show "rec_next page' ?r = rec_next page cur" using r by (simp add: rec_next_def [of page'] mod_simps)
qed

lemma insert_unsplit:
  assumes ok: "insert_ok idt cur hdr data fx fd page"
    and alloc: "insert_reuse hdr data fx fd page \<or> page_mem_alloc_heap (length hdr + length data) page \<noteq> None"
    and owned: "rec_owned page (last (walk 8 page (rec_next page cur))) \<noteq> 8"
  obtains m' where "page_cur_insert_rec_low idt cur hdr data fx fd (page, m) =
    Some (Some (insert_start hdr data fx fd page + length hdr), writes (insert_writes cur hdr data fx fd page) page, m')"
  using owned unfolding insert_normal [OF ok alloc] log_insert_eq [OF ok]
  by (cases "m_logged m") (auto simp: split_owner_slot_def)

section \<open>Evaluation\<close>

text \<open>Lists of the size of a page are evaluated eight elements at a time.\<close>

definition small_drop :: "nat \<Rightarrow> 'a list \<Rightarrow> 'a list" where
  "small_drop = drop"

definition small_take :: "nat \<Rightarrow> 'a list \<Rightarrow> 'a list" where
  "small_take = take"

definition small_nth :: "'a list \<Rightarrow> nat \<Rightarrow> 'a" where
  "small_nth = nth"

definition small_replicate :: "nat \<Rightarrow> 'a \<Rightarrow> 'a list" where
  "small_replicate = replicate"

lemma small_code [code]:
  "small_drop n [] = []" "small_drop n (x # xs) = (if n = 0 then x # xs else small_drop (n - 1) xs)"
  "small_take n [] = []" "small_take n (x # xs) = (if n = 0 then [] else x # small_take (n - 1) xs)"
  "small_nth (x # xs) n = (if n = 0 then x else small_nth xs (n - 1))"
  "small_replicate n y = (if n = 0 then [] else y # small_replicate (n - 1) y)"
  by (cases n; simp add: small_drop_def small_take_def small_nth_def small_replicate_def)+

lemma eight: "8 \<le> n \<Longrightarrow> \<exists>k. n = Suc (Suc (Suc (Suc (Suc (Suc (Suc (Suc k)))))))"
  by (auto simp: numeral_eq_Suc le_iff_add)

lemma drop_code [code]:
  "drop n xs = (if n < 8 then small_drop n xs
     else case xs of a # b # c # d # e # f # g # h # ys \<Rightarrow> drop (n - 8) ys | _ \<Rightarrow> [])"
  using eight [of n] by (auto simp: small_drop_def split: list.splits)

lemma take_code [code]:
  "take n xs = (if n < 8 then small_take n xs
     else case xs of a # b # c # d # e # f # g # h # ys \<Rightarrow> a # b # c # d # e # f # g # h # take (n - 8) ys | _ \<Rightarrow> xs)"
  using eight [of n] by (auto simp: small_take_def split: list.splits)

lemma nth_code [code]: "xs ! n = (if n < length xs then hd (drop n xs) else small_nth xs n)"
  by (simp add: small_nth_def hd_drop_conv_nth)

lemma replicate_code [code]:
  "replicate n x = (if n < 8 then small_replicate n x else x # x # x # x # x # x # x # x # replicate (n - 8) x)"
  using eight [of n] by (auto simp: small_replicate_def)

section \<open>Properties\<close>

definition example_index :: page_id_t where
  "example_index = \<lparr>space = 1, page_no = 5\<rparr>"

definition example_index_block :: block_env where
  "example_index_block = \<lparr>block_id = example_index, zipped = False, force_recovery = False, encryption_offset = 0,
     my_crc32c = (\<lambda>crc b. crc)\<rparr>"

text \<open>A page with two records, of which the second was inserted behind the first.\<close>

definition two_records :: "byte list" where
  "two_records = writes
     [(4, [0, 0, 0, 5]), (24, [69, 191]), (38, [0, 2, 0, 138, 128, 4]), (48, [0, 135, 0, 2, 0, 1, 0, 2]),
      (94, [1, 0, 2, 0, 27, 105, 110, 102, 105, 109, 117, 109, 0, 3, 0, 11, 0, 0, 115, 117, 112, 114, 101, 109, 117, 109]),
      (120, [3, 0, 0, 16, 0, 9, 1, 2, 0]), (129, [3, 0, 0, 24, 255, 233, 1, 2, 1]), (244, [0, 112, 0, 99])] (replicate 256 0)"

lemma two_records_ok:
  "insert_ok example_index 135 [3, 0, 0, 0, 0, 0] [1, 2, 2] 0 0 two_records"
  "insert_reuse [3, 0, 0, 0, 0, 0] [1, 2, 2] 0 0 two_records \<or> page_mem_alloc_heap (length [3, 0, 0, 0, 0, 0 :: byte] + length [1, 2, 2 :: byte]) two_records \<noteq> None"
  "rec_owned two_records (last (walk 8 two_records (rec_next two_records 135))) \<noteq> 8"
  "insert_start [3, 0, 0, 0, 0, 0] [1, 2, 2] 0 0 two_records = 138"
  by code_simp+



section \<open>Where recovery differs\<close>

text \<open>Recovery of an insertion from its log record, on the page as it was before: the page differs from the one that the insertion left, and nothing is reported.\<close>

definition redo_differs :: "nat \<Rightarrow> byte list \<Rightarrow> byte list \<Rightarrow> nat \<Rightarrow> nat \<Rightarrow> byte list \<Rightarrow> bool" where
  "redo_differs cur hdr data fextra fdata page =
     (case page_cur_insert_rec_low example_index cur hdr data fextra fdata (page, mtr_start) of
        Some (Some r, page', m) \<Rightarrow>
          (case log_apply example_index_block (m_log m @ [0]) (recv_start 0 page) of
             Some (status, st) \<Rightarrow> status = APPLIED_YES \<and> \<not> log_corrupted st \<and> frame st \<noteq> page' | None \<Rightarrow> False)
      | _ \<Rightarrow> False)"

text \<open>
  A page with nine records, of which the fourth owns four. The new record has the bytes of the third record and of the header of the fourth as they are after
  the insertion, hence all of its data is logged as common with the predecessor; recovery copies it before the owner owns one record more.
\<close>

definition nine_records :: "byte list" where
  "nine_records = writes
     [(4, [0, 0, 0, 5]), (24, [69, 191]), (38, [0, 3, 0, 201, 128, 11]), (48, [0, 198, 0, 2, 0, 8, 0, 9]),
      (94, [1, 0, 2, 0, 27, 105, 110, 102, 105, 109, 117, 109, 0, 6, 0, 11, 0, 0, 115, 117, 112, 114, 101, 109, 117, 109]),
      (120, [3, 0, 0, 16, 0, 9, 1, 2, 0]), (129, [3, 0, 0, 24, 0, 9, 1, 2, 1]), (138, [3, 0, 0, 32, 0, 9, 1, 2, 2]),
      (147, [3, 4, 0, 40, 0, 9, 1, 2, 3]), (156, [3, 0, 0, 48, 0, 9, 1, 2, 4]), (165, [3, 0, 0, 56, 0, 9, 1, 2, 5]),
      (174, [3, 0, 0, 64, 0, 9, 1, 2, 6]), (183, [3, 0, 0, 72, 0, 9, 1, 2, 7]), (192, [3, 0, 0, 80, 255, 170, 1, 2, 8]),
      (242, [0, 112, 0, 153, 0, 99])] (replicate 256 0)"

lemma redo_insert_common_data: "redo_differs 144 [10, 0, 0, 0, 0, 0] [1, 2, 2, 3, 5, 0, 40, 0, 9, 1] 0 0 nine_records"
  by code_simp

text \<open>
  A page with three records, of which the first was deleted and its space is reused: the header of the new record is bigger than that of its
  predecessor, and is compared with bytes before it, which are already those of the new record.
\<close>

definition freed_record :: "byte list" where
  "freed_record = writes
     [(4, [0, 0, 0, 5]), (24, [69, 191]), (38, [0, 2, 0, 147, 128, 5, 0, 126, 0, 9, 0, 0, 0, 2, 0, 2, 0, 2]),
      (94, [1, 0, 2, 0, 36, 105, 110, 102, 105, 109, 117, 109, 0, 3, 0, 11, 0, 0, 115, 117, 112, 114, 101, 109, 117, 109]),
      (120, [3, 0, 0, 16, 0, 0, 0, 0, 0]), (129, [3, 0, 0, 24, 0, 9, 1, 2, 1]), (138, [3, 0, 0, 32, 255, 224, 1, 2, 2]),
      (244, [0, 112, 0, 99])] (replicate 256 0)"

lemma redo_insert_common_header: "redo_differs 135 [9, 1, 3, 0, 0, 0, 0, 0] [1] 6 3 freed_record"
  by code_simp

text \<open>
  A page with nine records, of which the fourth and the fifth are in the other order in the space of the page: the header of the new record, which is
  bigger than that of its predecessor, is compared with the header of the owner before the predecessor, which owns one record more already.
\<close>

definition owner_before :: "byte list" where
  "owner_before = writes
     [(107, [5]), (142, [0, 18]), (147, [3, 5, 0, 40, 0, 18]), (160, [255, 247])] nine_records"

lemma redo_insert_owner_header:
  "redo_differs 162 [9, 6, 0, 40, 0, 18, 1, 2, 3, 3, 0, 0, 0, 0, 0] [1] 0 0 owner_before"
  by code_simp

end
