(* ===== verification/Redo_Parse.thy ===== *)
theory Redo_Parse
  imports Redo_Mtr
begin

text \<open>
  Reading the log of a mini-transaction at recovery, \<open>recv_sys_t::parse_tail\<close> in
  \<open>src/storage/innobase/log/log0recv.cc\<close> and the functions it calls, for a log that is not encrypted and whose records are
  stored (\<open>storing == YES\<close>): the records are checked, and those of pages are collected for each page.
  Memory for them is sufficient, so that nothing has to be rewound; whether a record fits behind the one before is a
  parameter, and so is what is done with the names in records on files. The extents to be scrubbed in
  tablespaces that are open already (\<open>srv_immediate_scrub_data_uncompressed\<close>) are not tracked.
\<close>

unbundle bit_operations_syntax

section \<open>State\<close>

datatype parse_mtr_result = OK | PREMATURE_EOF | GOT_EOF | GOT_OOM

definition RESERVED :: byte where "RESERVED = 0x60"
definition FILE_CREATE :: byte where "FILE_CREATE = 0x80"
definition FILE_DELETE :: byte where "FILE_DELETE = 0x90"
definition FILE_RENAME :: byte where "FILE_RENAME = 0xA0"
definition FILE_MODIFY :: byte where "FILE_MODIFY = 0xB0"
definition FILE_CHECKPOINT :: byte where "FILE_CHECKPOINT = 0xF0"

record file_name_t =
  has_space :: bool
  file_size :: nat
  file_flags :: nat
  freed_pages :: "nat set"

text \<open>The records of one mini-transaction for one page.\<close>

record log_phys_t =
  start_lsn_of :: nat
  lsn_of :: nat
  recs :: "byte list"

record page_recv_t =
  rec_log :: "log_phys_t list"
  skip_read :: bool
  rec_offset :: nat

record trunc =
  trunc_lsn :: nat
  trunc_pages :: nat

record recv_sys_t =
  start_lsn :: nat
  lsn :: nat
  file_checkpoint :: nat
  found_corrupt_log :: bool
  found_corrupt_fs :: bool
  recv_spaces :: "nat \<rightharpoonup> file_name_t"
  recv_pages :: "page_id_t \<rightharpoonup> page_recv_t"
  mlog_init :: "page_id_t \<rightharpoonup> nat"
  recv_sizes :: "(nat \<times> nat \<times> nat) list"
  truncated_undo_spaces :: "nat \<Rightarrow> trunc"
  renamed_spaces :: "nat \<rightharpoonup> byte list"

record recv_env =
  srv_page_size :: nat
  srv_force_recovery :: bool
  srv_undo_space_id_start :: nat
  srv_undo_tablespaces_open :: nat
  next_checkpoint_lsn :: nat
  if_exists :: bool
  space_exists :: "nat \<Rightarrow> bool"
  skip_files :: bool
  append_fits :: "recv_sys_t \<Rightarrow> log_phys_t \<Rightarrow> byte list \<Rightarrow> bool"
  fil_name_process :: "byte list \<Rightarrow> nat \<Rightarrow> byte \<Rightarrow> recv_sys_t \<Rightarrow> recv_sys_t"

text \<open>The local variables of the loop.\<close>

record parse_vars =
  space_id :: nat
  page_nr :: nat
  last_ofs :: nat
  got_page_op :: bool

datatype parse_step = Continue parse_vars recv_sys_t | Result parse_mtr_result recv_sys_t

section \<open>Errors\<close>

definition set_corrupt_log :: "recv_sys_t \<Rightarrow> parse_mtr_result \<times> recv_sys_t" where
  "set_corrupt_log st = (GOT_EOF, st\<lparr>found_corrupt_log := True\<rparr>)"

definition log_unknown :: "recv_env \<Rightarrow> recv_sys_t \<Rightarrow> parse_mtr_result \<times> recv_sys_t" where
  "log_unknown env st = (if srv_force_recovery env then (OK, st) else set_corrupt_log st)"

definition log_page_id_corrupted :: "recv_env \<Rightarrow> recv_sys_t \<Rightarrow> parse_mtr_result \<times> recv_sys_t" where
  "log_page_id_corrupted env st = (if srv_force_recovery env then (OK, st) else set_corrupt_log st)"

definition log_record_corrupted :: "recv_env \<Rightarrow> recv_sys_t \<Rightarrow> parse_mtr_result \<times> recv_sys_t" where
  "log_record_corrupted env st = (if srv_force_recovery env then (OK, st) else set_corrupt_log st)"

definition parse_record_corrupted :: "recv_env \<Rightarrow> parse_vars \<Rightarrow> recv_sys_t \<Rightarrow> parse_step" where
  "parse_record_corrupted env v st =
     (case log_record_corrupted env st of
        (OK, st) \<Rightarrow> Continue (v\<lparr>last_ofs := 1\<rparr>) st
      | (r, st) \<Rightarrow> Result r st)"

definition parse_page_id_corrupted :: "recv_env \<Rightarrow> parse_vars \<Rightarrow> recv_sys_t \<Rightarrow> parse_step" where
  "parse_page_id_corrupted env v st =
     (case log_page_id_corrupted env st of (OK, st) \<Rightarrow> Continue v st | (r, st) \<Rightarrow> Result r st)"

section \<open>Tablespaces\<close>

definition srv_is_undo_tablespace :: "recv_env \<Rightarrow> nat \<Rightarrow> bool" where
  "srv_is_undo_tablespace env n \<longleftrightarrow>
     srv_undo_space_id_start env > 0 \<and> n \<ge> srv_undo_space_id_start env \<and>
     n < srv_undo_space_id_start env + srv_undo_tablespaces_open env"

definition new_file_name :: file_name_t where
  "new_file_name = \<lparr>has_space = False, file_size = 0, file_flags = 0x10, freed_pages = {}\<rparr>"

definition log_page_modify :: "recv_env \<Rightarrow> nat \<Rightarrow> recv_sys_t \<Rightarrow> parse_mtr_result \<times> recv_sys_t" where
  "log_page_modify env sp st =
     (if srv_is_undo_tablespace env sp then (OK, st)
      else if recv_spaces st sp \<noteq> None then (OK, st)
      else if lsn st < file_checkpoint st
      then (OK, st\<lparr>recv_spaces := (recv_spaces st)(sp \<mapsto> new_file_name)\<rparr>)
      else if \<not> srv_force_recovery env then set_corrupt_log st
      else (PREMATURE_EOF, st))"

definition store_freed_or_init_rec :: "recv_env \<Rightarrow> page_id_t \<Rightarrow> bool \<Rightarrow> recv_sys_t \<Rightarrow> recv_sys_t" where
  "store_freed_or_init_rec env idt freed st =
     (if space idt = 0 \<or> srv_is_undo_tablespace env (space idt) then st
      else case recv_spaces st (space idt) of
             None \<Rightarrow> st
           | Some f \<Rightarrow>
               st\<lparr>recv_spaces := (recv_spaces st)(space idt \<mapsto>
                 f\<lparr>freed_pages := (if freed then insert (page_no idt) (freed_pages f)
                                  else freed_pages f - {page_no idt})\<rparr>)\<rparr>)"

text \<open>The size and the flags of a tablespace, from a write of \<open>rlen\<close> bytes \<open>l\<close> to its first page.\<close>

definition parse_page0 :: "page_id_t \<Rightarrow> byte list \<Rightarrow> nat \<Rightarrow> bool \<Rightarrow> bool \<Rightarrow> recv_sys_t \<Rightarrow> recv_sys_t" where
  "parse_page0 idt l ofs has_size has_flags st =
     (if \<not> has_size \<and> \<not> has_flags then st
      else let s = (if has_size then mach_read_from_4 (drop (38 + 8 - ofs) l) else 0);
               f = (if has_flags then mach_read_from_4 (drop (38 + 16 - ofs) l) else 0x10);
               spaces = (case recv_spaces st (space idt) of
                           Some i \<Rightarrow>
                             if has_space i then recv_spaces st
                             else (recv_spaces st)(space idt \<mapsto>
                                    i\<lparr>file_size := (if has_size then s else file_size i),
                                      file_flags := (if has_flags then f else file_flags i)\<rparr>)
                         | None \<Rightarrow> recv_spaces st)
           in st\<lparr>recv_spaces := spaces, recv_sizes := recv_sizes st @ [(space idt, s, f)]\<rparr>)"

section \<open>Records on files\<close>

definition ends_ibd :: "byte list \<Rightarrow> bool" where
  "ends_ibd name \<longleftrightarrow> 4 \<le> length name \<and> drop (length name - 4) name = [0x2E, 0x69, 0x62, 0x64]"

definition parse_file_checkpoint :: "recv_env \<Rightarrow> nat \<Rightarrow> byte list \<Rightarrow> nat \<Rightarrow> recv_sys_t \<Rightarrow> parse_mtr_result \<times> recv_sys_t" where
  "parse_file_checkpoint env sp l rlen st =
     (if sp \<noteq> 0 \<or> l ! rlen > 1 then log_record_corrupted env st
      else if rlen \<noteq> 8 then
        if rlen > 65536 \<or> take rlen l \<noteq> replicate rlen 0 then log_record_corrupted env st else (OK, st)
      else let c = mach_read_from_8 l
           in if c \<noteq> 0 \<and> c = next_checkpoint_lsn env \<and> file_checkpoint st = 0
              then (GOT_EOF, st\<lparr>file_checkpoint := lsn st\<rparr>) else (OK, st))"

text \<open>The names are the bytes before a NUL, and, for a rename, those after it.\<close>

definition parse_file_name :: "recv_env \<Rightarrow> nat \<Rightarrow> byte \<Rightarrow> byte list \<Rightarrow> recv_sys_t \<Rightarrow> parse_mtr_result \<times> recv_sys_t" where
  "parse_file_name env sp type l st =
     (let fn = takeWhile (\<lambda>c. c \<noteq> 0) l;
          has_fn2 = (0 \<in> set l);
          fn2 = drop (length fn + 1) l
      in if sp = 0 \<or> (\<not> has_fn2) = (type = FILE_RENAME) then log_record_corrupted env st
         else if has_fn2 \<and> (0 \<in> set fn2 \<or> \<not> ends_ibd fn2) then log_record_corrupted env st
         else if srv_is_undo_tablespace env sp \<or> \<not> ends_ibd fn then log_record_corrupted env st
         else if skip_files env then (OK, st)
         else let st1 = fil_name_process env fn sp (if has_fn2 then FILE_MODIFY else type) st;
                  st2 = (if has_fn2 then fil_name_process env fn2 sp type st1 else st1);
                  st3 = (if has_fn2 \<and> file_checkpoint st2 \<noteq> 0
                         then st2\<lparr>renamed_spaces := (renamed_spaces st2)(sp \<mapsto> fn2)\<rparr> else st2)
              in if found_corrupt_fs st3 then (GOT_EOF, st3) else (OK, st3))"

definition log_parse_file ::
  "recv_env \<Rightarrow> page_id_t \<Rightarrow> byte \<Rightarrow> byte list \<Rightarrow> nat \<Rightarrow> recv_sys_t \<Rightarrow> parse_mtr_result \<times> recv_sys_t" where
  "log_parse_file env idt b l rlen st =
     (if rlen = 0 then
        if space idt = 0 \<and> page_no idt = 0 \<and> b = FILE_CHECKPOINT + 2 then (OK, st) else log_record_corrupted env st
      else if page_no idt \<noteq> 0 then log_record_corrupted env st
      else if b AND 0xF0 = FILE_CHECKPOINT then parse_file_checkpoint env (space idt) l rlen st
      else if b AND 0xF0 \<in> {FILE_DELETE, FILE_MODIFY, FILE_RENAME, FILE_CREATE}
      then parse_file_name env (space idt) (b AND 0xF0) (take rlen l) st
      else log_record_corrupted env st)"

section \<open>Storing records\<close>

definition will_avoid_read :: "recv_sys_t \<Rightarrow> page_id_t \<Rightarrow> bool" where
  "will_avoid_read st idt \<longleftrightarrow> (case mlog_init st idt of Some n \<Rightarrow> n > start_lsn st | None \<Rightarrow> False)"

text \<open>
  The records of one mini-transaction for a page are appended to one another if the memory
  behind the last of them permits.
\<close>

definition new_page_recv :: page_recv_t where
  "new_page_recv = \<lparr>rec_log = [], skip_read = False, rec_offset = 1\<rparr>"

definition will_not_read :: "page_recv_t \<Rightarrow> page_recv_t" where
  "will_not_read p = p\<lparr>skip_read := True, rec_log := []\<rparr>"

definition mlog_init_add :: "page_id_t \<Rightarrow> nat \<Rightarrow> (page_id_t \<rightharpoonup> nat) \<Rightarrow> (page_id_t \<rightharpoonup> nat)" where
  "mlog_init_add idt n inits =
     (case inits idt of
        Some n' \<Rightarrow> if n' \<ge> n then inits else inits(idt \<mapsto> n)
      | None \<Rightarrow> inits(idt \<mapsto> n))"

definition recv_add :: "recv_env \<Rightarrow> page_id_t \<Rightarrow> page_recv_t \<Rightarrow> byte list \<Rightarrow> recv_sys_t \<Rightarrow> recv_sys_t" where
  "recv_add env idt p l st =
     (let init = (l ! 0 AND 0x70 = FREE_PAGE \<or> l ! 0 AND 0x70 = INIT_PAGE);
          p = (if init then will_not_read p else p);
          inits = (if init then mlog_init_add idt (start_lsn st) (mlog_init st) else mlog_init st);
          old = rec_log p;
          new = (if old \<noteq> [] \<and> start_lsn_of (last old) = start_lsn st \<and> append_fits env st (last old) l
                 then butlast old @ [(last old)\<lparr>recs := recs (last old) @ l\<rparr>]
                 else old @ [\<lparr>start_lsn_of = start_lsn st, lsn_of = lsn st, recs = l\<rparr>])
      in st\<lparr>recv_pages := (recv_pages st)(idt \<mapsto> p\<lparr>rec_log := new\<rparr>), mlog_init := inits\<rparr>)"

definition parse_store :: "recv_env \<Rightarrow> page_id_t \<Rightarrow> byte list \<Rightarrow> recv_sys_t \<Rightarrow> recv_sys_t" where
  "parse_store env idt l st =
     (if will_avoid_read st idt then st
      else recv_add env idt (case recv_pages st idt of Some p \<Rightarrow> p | None \<Rightarrow> new_page_recv) l st)"

definition page_recv_trim :: "nat \<Rightarrow> page_recv_t \<Rightarrow> page_recv_t option" where
  "page_recv_trim n p =
     (let l = dropWhile (\<lambda>r. lsn_of r \<le> n) (rec_log p)
      in if l = [] then None
         else Some (p\<lparr>rec_log := l, rec_offset := (if length l < length (rec_log p) then 1 else rec_offset p)\<rparr>))"

definition recv_trim :: "nat \<Rightarrow> recv_sys_t \<Rightarrow> recv_sys_t" where
  "recv_trim sp st =
     st\<lparr>recv_pages := (\<lambda>idt. if space idt = sp then Option.bind (recv_pages st idt) (page_recv_trim (start_lsn st))
                             else recv_pages st idt)\<rparr>"

section \<open>One record\<close>

text \<open>
  The checks of WRITE, MEMSET and MEMMOVE: None if the record is malformed, otherwise where the
  data of the record start, its length without the header, the offset on the page and the offset that the next record is
  relative to.
\<close>

definition check_offset_record ::
  "nat \<Rightarrow> byte \<Rightarrow> byte list \<Rightarrow> nat \<Rightarrow> nat \<Rightarrow> (byte list \<times> nat \<times> nat \<times> nat) option" where
  "check_offset_record psize type l rlen lo =
     (if rlen = 0 \<or> lo = 1 then None
      else do {
        (offset, l, rlen) \<leftarrow> ext_varint 3 (<) (l, rlen);
        (let lo = lo + offset
         in if offset \<ge> psize \<or> lo < 8 \<or> lo \<ge> psize then None
            else if type = WRITE then
              if rlen + lo > psize then None else Some (l, rlen, lo, lo + rlen)
            else do {
              (len, l, rlen) \<leftarrow> ext_varint 3 (\<le>) (l, rlen);
              (if lo + len > psize then None
               else if type = MEMSET then if rlen > len then None else Some (l, rlen, lo, lo + rlen)
               else do {
                 (s, _, _) \<leftarrow> ext_varint 3 (=) (l, rlen);
                 (let s = (if s AND 1 \<noteq> 0 then (lo + 2 ^ 32 - drop_bit 1 s - 1) mod 2 ^ 32
                           else (lo + drop_bit 1 s + 1) mod 2 ^ 32)
                  in if s < 8 \<or> (s + len) mod 2 ^ 32 > psize then None else Some (l, rlen, lo, lo + rlen))
               })
            })
      })"

definition store_record :: "recv_env \<Rightarrow> byte list \<Rightarrow> parse_vars \<Rightarrow> recv_sys_t \<Rightarrow> parse_step" where
  "store_record env record v st =
     (if if_exists env \<and> \<not> space_exists env (space_id v) then Continue v st
      else Continue v (parse_store env \<lparr>space = space_id v, page_no = page_nr v\<rparr> record st))"

definition parse_extended :: "recv_env \<Rightarrow> byte list \<Rightarrow> byte list \<Rightarrow> nat \<Rightarrow> parse_vars \<Rightarrow> recv_sys_t \<Rightarrow> parse_step" where
  "parse_extended env record l rlen v st =
     (if rlen = 0 then parse_record_corrupted env v st
      else if rlen = 1 \<and> l ! 0 = 10 then
        if \<not> srv_is_undo_tablespace env (space_id v) \<or> page_nr v \<noteq> 10 * 2 ^ 20 div 16384
        then parse_record_corrupted env v st
        else Continue (v\<lparr>last_ofs := 1\<rparr>)
               ((recv_trim (space_id v) st)
                  \<lparr>truncated_undo_spaces := (truncated_undo_spaces st)
                     (space_id v - srv_undo_space_id_start env := \<lparr>trunc_lsn = start_lsn st, trunc_pages = page_nr v\<rparr>)\<rparr>)
      else store_record env record (v\<lparr>last_ofs := FIL_PAGE_TYPE\<rparr>) st)"

definition parse_write :: "recv_env \<Rightarrow> byte \<Rightarrow> byte list \<Rightarrow> byte list \<Rightarrow> nat \<Rightarrow> parse_vars \<Rightarrow> recv_sys_t \<Rightarrow> parse_step" where
  "parse_write env type record l rlen v st =
     (case check_offset_record (srv_page_size env) type l rlen (last_ofs v) of
        None \<Rightarrow> parse_record_corrupted env v st
      | Some (l, rlen, offset, new_offset) \<Rightarrow>
          let has_size = (offset \<le> 38 + 8 \<and> offset + rlen \<ge> 38 + 8 + 4);
              has_flags = (offset \<le> 38 + 16 \<and> offset + rlen \<ge> 38 + 16 + 4);
              st = (if type = WRITE \<and> page_nr v = 0 \<and> file_checkpoint st \<noteq> 0
                    then parse_page0 \<lparr>space = space_id v, page_no = 0\<rparr> l offset has_size has_flags st else st)
          in store_record env record (v\<lparr>last_ofs := new_offset\<rparr>) st)"

definition parse_page_record ::
  "recv_env \<Rightarrow> byte \<Rightarrow> byte list \<Rightarrow> byte list \<Rightarrow> nat \<Rightarrow> parse_vars \<Rightarrow> recv_sys_t \<Rightarrow> parse_step" where
  "parse_page_record env type record l rlen v st =
     (let idt = \<lparr>space = space_id v, page_no = page_nr v\<rparr>
      in if rlen \<noteq> 0 \<and> length record > srv_page_size env then parse_record_corrupted env v st
         else if type = FREE_PAGE \<or> type = INIT_PAGE then
           if rlen \<noteq> 0 then parse_record_corrupted env v st
           else store_record env record (v\<lparr>last_ofs := (if type = FREE_PAGE then 1 else FIL_PAGE_TYPE)\<rparr>)
                  (store_freed_or_init_rec env idt (type = FREE_PAGE) st)
         else if type = EXTENDED then parse_extended env record l rlen v st
         else if type = OPTION then
           if rlen = 5 \<and> l ! 0 = 0 then store_record env record v st else Continue v st
         else if type = RESERVED then Continue v st
         else parse_write env type record l rlen v st)"

definition parse_with_id ::
  "recv_env \<Rightarrow> byte \<Rightarrow> byte list \<Rightarrow> byte list \<Rightarrow> nat \<Rightarrow> parse_vars \<Rightarrow> recv_sys_t \<Rightarrow> parse_step" where
  "parse_with_id env b record l rlen v st =
     (let v = v\<lparr>got_page_op := (b AND 0x80 = 0)\<rparr>
      in if got_page_op v then
           if space_id v \<noteq> 0 then
             case log_page_modify env (space_id v) st of
               (OK, st) \<Rightarrow> parse_page_record env (b AND 0x70) record l rlen v st
             | (PREMATURE_EOF, st) \<Rightarrow> Continue v st
             | (r, st) \<Rightarrow> Result r st
           else parse_page_record env (b AND 0x70) record l rlen v st
         else case log_parse_file env \<lparr>space = space_id v, page_no = page_nr v\<rparr> b l rlen st of
                (OK, st) \<Rightarrow> Continue v st
              | (r, st) \<Rightarrow> Result r st)"

text \<open>
  A record for another page than the one before starts with the page identifier. When the page number turns out to be
  malformed, the variable for the tablespace has been assigned already.
\<close>

definition parse_id_record ::
  "recv_env \<Rightarrow> byte \<Rightarrow> byte list \<Rightarrow> byte list \<Rightarrow> nat \<Rightarrow> parse_vars \<Rightarrow> recv_sys_t \<Rightarrow> parse_step" where
  "parse_id_record env b record l rlen v st =
     (let v = v\<lparr>last_ofs := 0\<rparr>; idlen = mlog_decode_varint_length (l ! 0)
      in if idlen > 5 \<or> idlen \<ge> rlen then
           if l ! 0 = 0 \<and> b = FILE_CHECKPOINT + 1 then Continue v st else parse_page_id_corrupted env v st
         else let v = v\<lparr>space_id := mlog_decode_varint l\<rparr>
              in if space_id v = MLOG_DECODE_ERROR then parse_page_id_corrupted env v st
                 else let l = drop idlen l; rlen = rlen - idlen; idlen = mlog_decode_varint_length (l ! 0)
                      in if idlen > 5 \<or> idlen > rlen then parse_page_id_corrupted env v st
                         else let v = v\<lparr>page_nr := mlog_decode_varint l\<rparr>
                              in if page_nr v = MLOG_DECODE_ERROR then parse_page_id_corrupted env v st
                                 else parse_with_id env b record (drop idlen l) (rlen - idlen) v st)"

definition parse_record :: "recv_env \<Rightarrow> byte list \<Rightarrow> parse_vars \<Rightarrow> recv_sys_t \<Rightarrow> parse_step" where
  "parse_record env log v st =
     (let b = log ! 0; (l, rlen) = parse_length log; record = take (length log - length l + rlen) log
      in if b AND 0x70 = RESERVED \<and> fst (log_unknown env st) \<noteq> OK
         then Result (fst (log_unknown env st)) (snd (log_unknown env st))
         else if b AND 0x80 \<noteq> 0 \<and> got_page_op v then
           if b AND 0x70 \<le> INIT_PAGE then parse_record_corrupted env v st
           else parse_page_record env (b AND 0x70) record l rlen v st
         else parse_id_record env b record l rlen v st)"

section \<open>The loop\<close>

function parse_records :: "recv_env \<Rightarrow> byte list \<Rightarrow> parse_vars \<Rightarrow> recv_sys_t \<Rightarrow> parse_mtr_result \<times> recv_sys_t" where
  "parse_records env log v st =
     (if log = [] \<or> log ! 0 \<le> 1 then (OK, st)
      else case parse_record env log v st of
             Continue v' st' \<Rightarrow> parse_records env (drop (snd (parse_length log)) (fst (parse_length log))) v' st'
           | Result r st' \<Rightarrow> (r, st'))"
  by pat_completeness auto
termination
proof (relation "measure (\<lambda>(env, log, v, st). length log)", goal_cases)
  case (2 env log v st v' st')
  then show ?case using parse_length_shorter [of log] by auto
qed simp

declare parse_records.simps [simp del]

definition parse_tail :: "recv_env \<Rightarrow> byte list \<Rightarrow> nat \<Rightarrow> recv_sys_t \<Rightarrow> parse_mtr_result \<times> recv_sys_t" where
  "parse_tail env begin_log log_size st =
     parse_records env begin_log \<lparr>space_id = 0, page_nr = 0, last_ofs = 0, got_page_op = False\<rparr>
       (st\<lparr>start_lsn := lsn st, lsn := lsn st + log_size\<rparr>)"

section \<open>Reading what was logged\<close>

text \<open>The reader is at the last page of the writer, and not after its last offset.\<close>

definition parse_sync :: "mtr_t \<Rightarrow> parse_vars \<Rightarrow> bool" where
  "parse_sync m v \<longleftrightarrow>
     (\<forall>idt. m_last m = Some idt \<longrightarrow>
        got_page_op v \<and> space_id v = space idt \<and> page_nr v = page_no idt \<and> 8 \<le> last_ofs v \<and> last_ofs v \<le> m_last_offset m)"

definition id_ok :: "page_id_t \<Rightarrow> bool" where
  "id_ok idt \<longleftrightarrow> space idt < MLOG_DECODE_ERROR \<and> page_no idt < MLOG_DECODE_ERROR"

definition known_space :: "recv_env \<Rightarrow> recv_sys_t \<Rightarrow> nat \<Rightarrow> bool" where
  "known_space env st sp \<longleftrightarrow> sp = 0 \<or> srv_is_undo_tablespace env sp \<or> recv_spaces st sp \<noteq> None"

definition vars_for :: "page_id_t \<Rightarrow> nat \<Rightarrow> parse_vars" where
  "vars_for idt lo = \<lparr>space_id = space idt, page_nr = page_no idt, last_ofs = lo, got_page_op = True\<rparr>"

lemma same_page_id: "\<lparr>space = space (idt :: page_id_t), page_no = page_no idt\<rparr> = idt"
  by simp

lemma byte_le_1: "(b :: byte) \<le> 1 \<Longrightarrow> b = 0 \<or> b = 1"
proof -
  assume "b \<le> 1"
  then have "unat b = 0 \<or> unat b = 1" by (auto simp: word_le_nat_alt)
  moreover have "b = byte_of 0" if "unat b = 0" using that byte_of_unat [of b] by (simp only:)
  moreover have "b = byte_of 1" if "unat b = 1" using that byte_of_unat [of b] by (simp only:)
  ultimately show ?thesis by auto
qed

lemma parse_id_ok:
  assumes id: "id_ok idt" and sp: "known_space env st (space idt)" and b: "b AND 0x80 = 0"
  shows "parse_id_record env b record (id_bytes idt @ l) (length (id_bytes idt) + n) v st =
    parse_page_record env (b AND 0x70) record l n (vars_for idt 0) st"
proof -
  let ?s = "mlog_encode_varint (space idt)" and ?p = "mlog_encode_varint (page_no idt)"
  have id': "space idt < 2 ^ 32" "page_no idt < 2 ^ 32" "space idt \<noteq> MLOG_DECODE_ERROR" "page_no idt \<noteq> MLOG_DECODE_ERROR"
    using id by (auto simp: id_ok_def MLOG_DECODE_ERROR_def)
  note vs = varint_round_trip [OF id'(1), of "?p @ l"] and vp = varint_round_trip [OF id'(2), of l]
  have len: "length ?s \<le> 5" "length ?p \<le> 5" "0 < length ?p" using length_varint(2,3) by (simp_all add: Suc_le_eq)
  have mod: "space idt \<noteq> 0 \<Longrightarrow> log_page_modify env (space idt) st = (OK, st)"
    using sp by (auto simp: known_space_def log_page_modify_def)
  have "parse_id_record env b record (?s @ ?p @ l) (length ?s + length ?p + n) v st =
    parse_with_id env b record l n (v\<lparr>last_ofs := 0, space_id := space idt, page_nr := page_no idt\<rparr>) st"
    unfolding parse_id_record_def Let_def vs using len id'(3,4) vp by simp
  then show ?thesis
    using b mod by (cases v) (simp add: parse_with_id_def id_bytes_def vars_for_def Let_def add.assoc)
qed

lemma parse_header:
  assumes id: "id_ok idt" and sp: "known_space env st (space idt)" and sync: "parse_sync m v"
    and t: "type \<in> {INIT_PAGE, EXTENDED, WRITE, MEMSET, MEMMOVE}"
    and len: "length p < 2 ^ 18" "0 < length p \<or> header_body type idt True off m \<noteq> []"
    and none: "type = INIT_PAGE \<Longrightarrow> length p = 0"
  shows "parse_records env (header_bytes type idt True (length p) off m @ p @ r) v st =
    (case parse_page_record env type (header_bytes type idt True (length p) off m @ p)
            (offset_bytes type idt off m @ p @ r) (length (offset_bytes type idt off m) + length p)
            (vars_for idt (if rel_page type idt True off m then last_ofs v else 0)) st of
       Continue v' st' \<Rightarrow> parse_records env r v' st' | Result x st' \<Rightarrow> (x, st'))"
proof -
  let ?b = "header_bytes type idt True (length p) off m" and ?rel = "rel_page type idt True off m"
  let ?o = "offset_bytes type idt off m" and ?body = "header_body type idt True off m"
  have types: "type \<in> log_types" "type \<noteq> FREE_PAGE" "type \<noteq> 0" "type \<noteq> RESERVED" "type \<noteq> INIT_PAGE \<Longrightarrow> \<not> type \<le> INIT_PAGE"
    using t by (auto simp: log_types_def record_types RESERVED_def)
  have none': "type = INIT_PAGE \<or> type = FREE_PAGE \<Longrightarrow> length p = 0" using none types(2) by blast
  note h = header_parse [OF types(1) len none']
  have ty: "?b ! 0 AND 0x70 = type" using h(2) by simp
  have body: "?body = (if ?rel then [] else id_bytes idt) @ ?o" by (simp add: header_body_def offset_bytes_def)
  have ne: "?b \<noteq> []" "length ?body \<le> length ?b" by (simp_all add: header_bytes_def Let_def)
  then have nth: "(?b @ p @ r) ! 0 = ?b ! 0" by (simp add: nth_append)
  have b1: "\<not> ?b ! 0 \<le> 1"
  proof
    assume "?b ! 0 \<le> 1"
    then have "?b ! 0 = 0 \<or> ?b ! 0 = 1" by (rule byte_le_1)
    then show False using h(2) types(3) by auto
  qed
  have pl: "parse_length (?b @ p @ r) = (?body @ p @ r, length ?body + length p)" using h(1) [of "p @ r"] by simp
  have rec: "take (length (?b @ p @ r) - length (?body @ p @ r) + (length ?body + length p)) (?b @ p @ r) = ?b @ p"
    using ne(2) by simp
  have step: "parse_record env (?b @ p @ r) v st =
    parse_page_record env type (?b @ p) (?o @ p @ r) (length ?o + length p) (vars_for idt (if ?rel then last_ofs v else 0)) st"
  proof (cases ?rel)
    case True
    then have "m_last m = Some idt" "type \<noteq> INIT_PAGE" by (auto simp: rel_page_def same_page_as_def)
    then have "got_page_op v" "vars_for idt (last_ofs v) = v" using sync by (auto simp: parse_sync_def vars_for_def)
    then show ?thesis
      using True \<open>type \<noteq> INIT_PAGE\<close> types(4,5) h(3) body
      unfolding parse_record_def pl Let_def prod.case rec nth ty by simp
  next
    case False
    then have "?b ! 0 AND 0x80 = 0" using h(3) by simp
    then show ?thesis
      using False types(4) parse_id_ok [OF id sp, of "?b ! 0" "?b @ p" "?o @ p @ r" "length ?o + length p" v] body
      unfolding parse_record_def pl Let_def prod.case rec nth ty by (simp add: add.assoc)
  qed
  have rest: "drop (length ?body + length p) (?body @ p @ r) = r" by simp
  have "(?b @ p @ r = [] \<or> (?b @ p @ r) ! 0 \<le> 1) = False" using ne(1) nth b1 by simp
  then show ?thesis
    by (subst parse_records.simps) (simp only: pl step fst_conv snd_conv rest if_False)
qed

text \<open>
  The records that the operations on a page of \<open>n\<close> bytes write: the type, what follows the offset, the offset,
  and the offset that the next record is relative to. Moves are of at least three bytes, and towards the start of the page.
\<close>

definition log_record :: "nat \<Rightarrow> byte \<Rightarrow> byte list \<Rightarrow> nat \<Rightarrow> nat \<Rightarrow> bool" where
  "log_record n type p off e \<longleftrightarrow>
     type = INIT_PAGE \<and> p = [] \<and> off = 0 \<and> e = FIL_PAGE_TYPE \<or>
     type = EXTENDED \<and> p \<noteq> [] \<and> p \<noteq> [10] \<and> off = 0 \<and> e = FIL_PAGE_TYPE \<or>
     type = WRITE \<and> p \<noteq> [] \<and> 8 \<le> off \<and> e = off + length p \<and> e \<le> n \<or>
     type = MEMSET \<and> 8 \<le> off \<and>
       (\<exists>len d. p = mlog_encode_varint len @ d \<and> d \<noteq> [] \<and> length d \<le> len \<and> e = off + len \<and> e \<le> n) \<or>
     type = MEMMOVE \<and> 8 \<le> off \<and>
       (\<exists>len a. p = mlog_encode_varint len @ mlog_encode_varint (memmove_code off a) \<and> off < a \<and> a + len \<le> n \<and>
          3 \<le> len \<and> e = off + len)"

lemma ext_varint_ok:
  assumes "i < 2 ^ 32" "length (mlog_encode_varint i) \<le> k" "ok (length (mlog_encode_varint i)) (length (mlog_encode_varint i) + n)"
  shows "ext_varint k ok (mlog_encode_varint i @ l, length (mlog_encode_varint i) + n) = Some (i, l, n)"
  using assms varint_round_trip [OF assms(1), of l] by (simp add: ext_varint_def)

lemma small_varint:
  assumes "i < 2 ^ 18"
  shows "i < 2 ^ 32" "length (mlog_encode_varint i) \<le> 3" "0 < length (mlog_encode_varint i)"
proof -
  have "i < MIN_4BYTE" using assms by (simp add: min_bytes)
  then show "length (mlog_encode_varint i) \<le> 3" using length_varint(1) by (simp add: varint_size_def)
  show "0 < length (mlog_encode_varint i)" using length_varint(3) [of i] by linarith
qed (use assms in simp)

lemma check_write:
  assumes "p \<noteq> []" "off + length p \<le> n" "n \<le> 2 ^ 16" "lo + ofs \<le> off" "8 \<le> lo + ofs" "lo \<noteq> 1"
  shows "check_offset_record n WRITE (mlog_encode_varint ofs @ p @ r) (length (mlog_encode_varint ofs) + length p) lo =
    Some (p @ r, length p, lo + ofs, lo + ofs + length p)"
proof -
  have p: "0 < length p" using assms(1) by simp
  have o: "ofs < 2 ^ 18" using assms by simp
  have less: "lo + ofs < n" using assms(2,4) p by linarith
  note o = small_varint [OF o]
  have "ext_varint 3 (<) (mlog_encode_varint ofs @ p @ r, length (mlog_encode_varint ofs) + length p) = Some (ofs, p @ r, length p)"
    by (rule ext_varint_ok) (use o p in simp_all)
  then show ?thesis using assms o(3) less by (simp add: check_offset_record_def Let_def)
qed

lemma check_memset:
  assumes "d \<noteq> []" "length d \<le> len" "off + len \<le> n" "n \<le> 2 ^ 16" "lo + ofs \<le> off" "8 \<le> lo + ofs" "lo \<noteq> 1"
  shows "check_offset_record n MEMSET (mlog_encode_varint ofs @ (mlog_encode_varint len @ d) @ r)
      (length (mlog_encode_varint ofs) + length (mlog_encode_varint len @ d)) lo =
    Some (d @ r, length d, lo + ofs, lo + ofs + length d)"
proof -
  have d: "0 < length d" using assms(1) by simp
  have ol: "ofs < 2 ^ 18" "len < 2 ^ 18" using assms by simp_all
  have less: "lo + ofs < n" using assms(2,3,5) d by linarith
  note o = small_varint [OF ol(1)] and l = small_varint [OF ol(2)]
  have 1: "ext_varint 3 (<) (mlog_encode_varint ofs @ (mlog_encode_varint len @ d) @ r,
      length (mlog_encode_varint ofs) + length (mlog_encode_varint len @ d)) =
    Some (ofs, (mlog_encode_varint len @ d) @ r, length (mlog_encode_varint len @ d))"
    by (rule ext_varint_ok) (use o l in simp_all)
  have 2: "ext_varint 3 (\<le>) (mlog_encode_varint len @ d @ r, length (mlog_encode_varint len) + length d) = Some (len, d @ r, length d)"
    by (rule ext_varint_ok) (use l in simp_all)
  show ?thesis
    using assms o(3) 1 2 less by (simp add: check_offset_record_def record_types Let_def)
qed

lemma check_memmove:
  assumes "off < a" "a + len \<le> n" "0 < len" "n \<le> 2 ^ 16" "lo + ofs \<le> off" "8 \<le> lo + ofs" "lo \<noteq> 1"
  defines "c \<equiv> memmove_code off a"
  shows "check_offset_record n MEMMOVE (mlog_encode_varint ofs @ (mlog_encode_varint len @ mlog_encode_varint c) @ r)
      (length (mlog_encode_varint ofs) + length (mlog_encode_varint len @ mlog_encode_varint c)) lo =
    Some (mlog_encode_varint c @ r, length (mlog_encode_varint c), lo + ofs, lo + ofs + length (mlog_encode_varint c))"
proof -
  have c: "c = 2 * (a - off - 1)" using assms(1) by (simp add: c_def memmove_code_eq)
  then have "ofs < 2 ^ 18" "len < 2 ^ 18" "c < 2 ^ 18" "lo + ofs < n" using assms by simp_all
  note o = small_varint [OF this(1)] and l = small_varint [OF this(2)] and d = small_varint [OF this(3)]
  have 1: "ext_varint 3 (<) (mlog_encode_varint ofs @ (mlog_encode_varint len @ mlog_encode_varint c) @ r,
      length (mlog_encode_varint ofs) + length (mlog_encode_varint len @ mlog_encode_varint c)) =
    Some (ofs, (mlog_encode_varint len @ mlog_encode_varint c) @ r, length (mlog_encode_varint len @ mlog_encode_varint c))"
    by (rule ext_varint_ok) (use o l in simp_all)
  have 2: "ext_varint 3 (\<le>) (mlog_encode_varint len @ mlog_encode_varint c @ r,
      length (mlog_encode_varint len) + length (mlog_encode_varint c)) =
    Some (len, mlog_encode_varint c @ r, length (mlog_encode_varint c))"
    by (rule ext_varint_ok) (use l in simp_all)
  have 3: "ext_varint 3 (=) (mlog_encode_varint c @ r, length (mlog_encode_varint c) + 0) = Some (c, r, 0)"
    by (rule ext_varint_ok) (use d in simp_all)
  have s: "(lo + ofs + drop_bit 1 c + 1) mod 2 ^ 32 = lo + ofs + (a - off)" "c AND 1 = 0"
    using assms(1-7) by (simp_all add: c and_one_eq drop_bit_eq_div)
  have "(lo + ofs + (a - off) + len) mod 2 ^ 32 \<le> n" using assms by (simp add: mod_less)
  then show ?thesis
    using assms(1-7) o(3) 1 2 3 s \<open>lo + ofs < n\<close> by (simp add: check_offset_record_def record_types Let_def)
qed

section \<open>Collecting the records of a page\<close>

definition page_recs :: "recv_sys_t \<Rightarrow> page_id_t \<Rightarrow> log_phys_t list" where
  "page_recs st idt = (case recv_pages st idt of Some p \<Rightarrow> rec_log p | None \<Rightarrow> [])"

definition skipped :: "recv_sys_t \<Rightarrow> page_id_t \<Rightarrow> bool" where
  "skipped st idt = (case recv_pages st idt of Some p \<Rightarrow> skip_read p | None \<Rightarrow> False)"

definition recv_ok :: "recv_env \<Rightarrow> page_id_t set \<Rightarrow> recv_sys_t \<Rightarrow> bool" where
  "recv_ok env ids st \<longleftrightarrow>
     (\<forall>idt \<in> ids. id_ok idt \<and> known_space env st (space idt)) \<and>
     (\<forall>idt n. mlog_init st idt = Some n \<longrightarrow> n \<le> start_lsn st) \<and>
     (\<forall>idt. \<forall>s \<in> set (page_recs st idt). start_lsn_of s = start_lsn st \<longrightarrow> lsn_of s = lsn st) \<and> \<not> found_corrupt_log st"

definition is_init :: "byte \<Rightarrow> bool" where
  "is_init type \<longleftrightarrow> type = FREE_PAGE \<or> type = INIT_PAGE"

text \<open>A record was appended to the last one or after it.\<close>

definition snippet_added :: "nat \<Rightarrow> nat \<Rightarrow> byte list \<Rightarrow> log_phys_t list \<Rightarrow> log_phys_t list \<Rightarrow> bool" where
  "snippet_added n n' l old new \<longleftrightarrow>
     old \<noteq> [] \<and> start_lsn_of (last old) = n \<and> lsn_of (last old) = n' \<and>
       new = butlast old @ [(last old)\<lparr>recs := recs (last old) @ l\<rparr>] \<or>
     new = old @ [\<lparr>start_lsn_of = n, lsn_of = n', recs = l\<rparr>]"

definition same_recs :: "recv_sys_t \<Rightarrow> recv_sys_t \<Rightarrow> bool" where
  "same_recs st st' \<longleftrightarrow>
     recv_pages st' = recv_pages st \<and> mlog_init st' = mlog_init st \<and> start_lsn st' = start_lsn st \<and> lsn st' = lsn st"

definition adds :: "page_id_t \<Rightarrow> bool \<Rightarrow> byte list \<Rightarrow> recv_sys_t \<Rightarrow> recv_sys_t \<Rightarrow> bool" where
  "adds idt init l st st' \<longleftrightarrow>
     (\<forall>idt'. idt' \<noteq> idt \<longrightarrow> recv_pages st' idt' = recv_pages st idt') \<and> recv_pages st' idt \<noteq> None \<and>
     (skipped st' idt \<longleftrightarrow> init \<or> skipped st idt) \<and>
     snippet_added (start_lsn st) (lsn st) l (if init then [] else page_recs st idt) (page_recs st' idt) \<and>
     mlog_init st' = (if init then (mlog_init st)(idt \<mapsto> start_lsn st) else mlog_init st) \<and>
     start_lsn st' = start_lsn st \<and> lsn st' = lsn st"

lemma parse_store_ok:
  assumes "recv_ok env ids st"
  shows "recv_ok env ids (parse_store env idt l st)"
    and "adds idt (is_init (l ! 0 AND 0x70)) l st (parse_store env idt l st)"
proof -
  define p where "p = (case recv_pages st idt of Some p \<Rightarrow> p | None \<Rightarrow> new_page_recv)"
  have "\<not> will_avoid_read st idt"
    using assms by (auto simp: recv_ok_def will_avoid_read_def not_less split: option.split)
  then have add: "parse_store env idt l st = recv_add env idt p l st" by (simp add: parse_store_def p_def)
  have p: "rec_log p = page_recs st idt" "skip_read p = skipped st idt"
    by (simp_all add: p_def page_recs_def skipped_def new_page_recv_def split: option.split)
  have init: "mlog_init_add idt (start_lsn st) (mlog_init st) = (mlog_init st)(idt \<mapsto> start_lsn st)"
    using assms by (auto simp: mlog_init_add_def recv_ok_def fun_eq_iff intro: antisym split: option.split)
  have lsns: "page_recs st idt \<noteq> [] \<Longrightarrow> start_lsn_of (last (page_recs st idt)) = start_lsn st \<Longrightarrow>
    lsn_of (last (page_recs st idt)) = lsn st"
    using assms last_in_set [of "page_recs st idt"] unfolding recv_ok_def by blast
  show ad: "adds idt (is_init (l ! 0 AND 0x70)) l st (parse_store env idt l st)"
    unfolding add using p init lsns
    by (auto simp: adds_def recv_add_def Let_def is_init_def snippet_added_def page_recs_def [of "_\<lparr>mlog_init := _\<rparr>"]
        skipped_def [of "_\<lparr>mlog_init := _\<rparr>"] will_not_read_def)
  show "recv_ok env ids (parse_store env idt l st)"
    unfolding recv_ok_def
  proof (intro conjI allI ballI impI)
    fix idt' s assume s: "s \<in> set (page_recs (parse_store env idt l st) idt')" "start_lsn_of s = start_lsn (parse_store env idt l st)"
    show "lsn_of s = lsn (parse_store env idt l st)"
    proof (cases "idt' = idt")
      case True
      then show ?thesis
        using s ad assms by (fastforce simp: recv_ok_def adds_def snippet_added_def dest: in_set_butlastD split: if_splits)
    next
      case False
      then show ?thesis using s ad assms by (simp add: recv_ok_def adds_def page_recs_def)
    qed
  qed (use assms ad in \<open>auto simp: recv_ok_def adds_def known_space_def add recv_add_def Let_def split: if_splits\<close>)
qed

text \<open>The two functions that keep track of tablespaces do not disturb this.\<close>

lemma recv_ok_spaces:
  assumes "recv_ok env ids st" "same_recs st st'" "found_corrupt_log st' = found_corrupt_log st"
    "dom (recv_spaces st') = dom (recv_spaces st)"
  shows "recv_ok env ids st'"
proof -
  have "recv_spaces st' sp = None \<longleftrightarrow> recv_spaces st sp = None" for sp using assms(4) by (metis domIff)
  moreover have "page_recs st' idt = page_recs st idt" for idt using assms(2) by (simp add: same_recs_def page_recs_def)
  ultimately show ?thesis using assms by (simp add: recv_ok_def known_space_def same_recs_def)
qed

lemma freed_or_init_ok:
  assumes "recv_ok env ids st"
  shows "recv_ok env ids (store_freed_or_init_rec env' idt freed st)"
    and "same_recs st (store_freed_or_init_rec env' idt freed st)"
proof -
  show same: "same_recs st (store_freed_or_init_rec env' idt freed st)"
    by (simp add: same_recs_def store_freed_or_init_rec_def split: option.split)
  show "recv_ok env ids (store_freed_or_init_rec env' idt freed st)"
    by (rule recv_ok_spaces [OF assms same]) (auto simp: store_freed_or_init_rec_def split: option.splits if_splits)
qed

lemma parse_page0_ok:
  assumes "recv_ok env ids st"
  shows "recv_ok env ids (parse_page0 idt l ofs s f st)" and "same_recs st (parse_page0 idt l ofs s f st)"
proof -
  show same: "same_recs st (parse_page0 idt l ofs s f st)" by (simp add: same_recs_def parse_page0_def Let_def)
  show "recv_ok env ids (parse_page0 idt l ofs s f st)"
    by (rule recv_ok_spaces [OF assms same]) (auto simp: parse_page0_def Let_def split: option.splits if_splits)
qed

lemma store_record_ok:
  assumes "recv_ok env ids st" "\<not> if_exists env"
  shows "\<exists>st'. store_record env record (vars_for idt lo) st = Continue (vars_for idt lo) st' \<and> recv_ok env ids st' \<and>
    adds idt (is_init (record ! 0 AND 0x70)) record st st'"
  using assms parse_store_ok [OF assms(1), of idt "record"] by (simp add: store_record_def vars_for_def same_page_id)

text \<open>What the loop does after the header of a record that an operation wrote.\<close>

definition takes_record :: "recv_env \<Rightarrow> page_id_t set \<Rightarrow> page_id_t \<Rightarrow> byte \<Rightarrow> byte list \<Rightarrow> nat \<Rightarrow> recv_sys_t \<Rightarrow> parse_step \<Rightarrow> bool" where
  "takes_record env ids idt type record e st r \<longleftrightarrow>
     (\<exists>lo st'. r = Continue (vars_for idt lo) st' \<and> 8 \<le> lo \<and> lo \<le> e \<and> recv_ok env ids st' \<and>
        adds idt (is_init type) record st st')"

lemma takes_cong: "same_recs st st1 \<Longrightarrow> takes_record env ids idt type x e st1 r = takes_record env ids idt type x e st r"
  by (simp add: takes_record_def same_recs_def adds_def skipped_def page_recs_def)

lemma takes_store_record:
  assumes "recv_ok env ids st" "\<not> if_exists env" "record ! 0 AND 0x70 = type" "8 \<le> lo" "lo \<le> e"
  shows "takes_record env ids idt type record e st (store_record env record (vars_for idt lo) st)"
  using store_record_ok [OF assms(1,2), of "record" idt lo] assms(3-5) by (auto simp: takes_record_def)

lemma takes_parse_write:
  assumes ok: "recv_ok env ids st" "\<not> if_exists env" "record ! 0 AND 0x70 = type" "\<not> is_init type"
    and c: "check_offset_record (srv_page_size env) type l rlen lo = Some (l', rlen', ofs, lo')" "8 \<le> lo'" "lo' \<le> e"
  shows "takes_record env ids idt type record e st (parse_write env type record l rlen (vars_for idt lo) st)"
proof -
  define st1 where "st1 = (if type = WRITE \<and> page_no idt = 0 \<and> file_checkpoint st \<noteq> 0
    then parse_page0 \<lparr>space = space idt, page_no = 0\<rparr> l' ofs (ofs \<le> 38 + 8 \<and> ofs + rlen' \<ge> 38 + 8 + 4)
      (ofs \<le> 38 + 16 \<and> ofs + rlen' \<ge> 38 + 16 + 4) st else st)"
  have st: "recv_ok env ids st1" "same_recs st st1"
    using ok(1) parse_page0_ok by (auto simp: st1_def same_recs_def)
  have "parse_write env type record l rlen (vars_for idt lo) st = store_record env record (vars_for idt lo') st1"
    using c(1) by (simp add: parse_write_def vars_for_def st1_def)
  then show ?thesis
    using takes_store_record [OF st(1) ok(2,3) c(2,3), of idt] takes_cong [OF st(2)] by simp
qed

lemma parse_page_record_ok:
  assumes ok: "recv_ok env ids st" "\<not> if_exists env" and rec: "record ! 0 AND 0x70 = type" "length record \<le> srv_page_size env"
    and r: "log_record (srv_page_size env) type p off e" and size: "srv_page_size env \<le> 2 ^ 16"
    and lo: "type \<in> {WRITE, MEMSET, MEMMOVE} \<Longrightarrow> offs = mlog_encode_varint ofs \<and> lo + ofs \<le> off \<and> 8 \<le> lo + ofs \<and> lo \<noteq> 1"
      "type \<notin> {WRITE, MEMSET, MEMMOVE} \<Longrightarrow> offs = []"
  shows "takes_record env ids idt type record e st
    (parse_page_record env type record (offs @ p @ rest) (length offs + length p) (vars_for idt lo) st)"
proof -
  let ?x = "parse_page_record env type record (offs @ p @ rest) (length offs + length p) (vars_for idt lo) st"
  let ?n = "srv_page_size env"
  consider (init) "type = INIT_PAGE" "p = []" "e = FIL_PAGE_TYPE"
    | (ext) "type = EXTENDED" "p \<noteq> []" "p \<noteq> [10]" "e = FIL_PAGE_TYPE"
    | (wr) "type = WRITE" "p \<noteq> []" "e = off + length p" "e \<le> ?n"
    | (memset) len d where "type = MEMSET" "p = mlog_encode_varint len @ d" "d \<noteq> []" "length d \<le> len" "e = off + len" "e \<le> ?n"
    | (memmove) len a where "type = MEMMOVE" "p = mlog_encode_varint len @ mlog_encode_varint (memmove_code off a)"
        "off < a" "a + len \<le> ?n" "3 \<le> len" "e = off + len"
    using r unfolding log_record_def by blast
  moreover have w: "?x = parse_write env type record (offs @ p @ rest) (length offs + length p) (vars_for idt lo) st"
    if "type \<in> {WRITE, MEMSET, MEMMOVE}"
    using that rec(2) by (auto simp: parse_page_record_def record_types RESERVED_def)
  moreover have ni: "\<not> is_init type" if "type \<in> {WRITE, MEMSET, MEMMOVE}"
    using that by (auto simp: is_init_def record_types)
  ultimately show ?thesis
  proof cases
    case init
    then have "?x = store_record env record (vars_for idt FIL_PAGE_TYPE) (store_freed_or_init_rec env idt False st)"
      using lo(2) by (simp add: parse_page_record_def vars_for_def record_types is_init_def same_page_id)
    then show ?thesis
      using takes_store_record [OF freed_or_init_ok(1) [OF ok(1)] ok(2) rec(1), of FIL_PAGE_TYPE e idt]
        takes_cong [OF freed_or_init_ok(2) [OF ok(1)]] init by (simp add: FIL_PAGE_TYPE_def)
  next
    case ext
    then have "\<not> (length p = 1 \<and> (p @ rest) ! 0 = 10)" by (cases p) auto
    then have "?x = store_record env record (vars_for idt FIL_PAGE_TYPE) st"
      using lo(2) ext rec(2) by (auto simp: parse_page_record_def parse_extended_def vars_for_def record_types)
    then show ?thesis using takes_store_record [OF ok rec(1), of FIL_PAGE_TYPE e idt] ext by (simp add: FIL_PAGE_TYPE_def)
  next
    case wr
    then have t: "type \<in> {WRITE, MEMSET, MEMMOVE}" by simp
    have "check_offset_record ?n type (offs @ p @ rest) (length offs + length p) lo =
      Some (p @ rest, length p, lo + ofs, lo + ofs + length p)"
      using check_write [of p off ?n lo ofs rest] lo(1) [OF t] wr size by simp
    from takes_parse_write [OF ok rec(1) ni [OF t] this, of e idt] show ?thesis
      using lo(1) [OF t] wr w [OF t] by simp
  next
    case memset
    then have t: "type \<in> {WRITE, MEMSET, MEMMOVE}" by simp
    have "check_offset_record ?n type (offs @ p @ rest) (length offs + length p) lo =
      Some (d @ rest, length d, lo + ofs, lo + ofs + length d)"
      using check_memset [of d len off ?n lo ofs rest] lo(1) [OF t] memset size by simp
    from takes_parse_write [OF ok rec(1) ni [OF t] this, of e idt] show ?thesis
      using lo(1) [OF t] memset w [OF t] by simp
  next
    case memmove
    then have t: "type \<in> {WRITE, MEMSET, MEMMOVE}" by simp
    let ?c = "mlog_encode_varint (memmove_code off a)"
    have "memmove_code off a < 2 ^ 18" using memmove size by (simp add: memmove_code_eq)
    then have c3: "length ?c \<le> 3" by (rule small_varint)
    have "check_offset_record ?n type (offs @ p @ rest) (length offs + length p) lo =
      Some (?c @ rest, length ?c, lo + ofs, lo + ofs + length ?c)"
      using check_memmove [of off a len ?n lo ofs rest] lo(1) [OF t] memmove size by simp
    from takes_parse_write [OF ok rec(1) ni [OF t] this, of e idt] show ?thesis
      using lo(1) [OF t] memmove w [OF t] c3 by simp
  qed
qed

section \<open>Following the writer\<close>

definition logs :: "byte \<Rightarrow> page_id_t \<Rightarrow> byte list \<Rightarrow> nat \<Rightarrow> nat \<Rightarrow> mtr_t \<Rightarrow> mtr_t" where
  "logs type idt p off e m =
     (log_write type idt True (length p) off m)
       \<lparr>m_log := m_log (log_write type idt True (length p) off m) @ p, m_last_offset := e\<rparr>"

definition parses :: "recv_env \<Rightarrow> page_id_t set \<Rightarrow> page_id_t \<Rightarrow> bool \<Rightarrow> mtr_t \<Rightarrow> mtr_t \<Rightarrow> parse_vars \<Rightarrow> recv_sys_t \<Rightarrow> bool" where
  "parses env ids idt init m m' v st \<longleftrightarrow>
     (\<exists>rec. m_log m' = m_log m @ rec \<and>
        (\<forall>r. \<exists>v' st'. parse_records env (rec @ r) v st = parse_records env r v' st' \<and>
           parse_sync m' v' \<and> recv_ok env ids st' \<and> (if m' = m then st' = st else adds idt init rec st st')))"

lemma parses_refl: "parse_sync m v \<Longrightarrow> recv_ok env ids st \<Longrightarrow> parses env ids idt False m m v st"
  unfolding parses_def by (rule exI [of _ "[]"]) auto

lemma logged_type:
  assumes r: "log_record n type p off e"
  shows "type \<in> {INIT_PAGE, EXTENDED, WRITE, MEMSET, MEMMOVE}" "type = INIT_PAGE \<Longrightarrow> length p = 0"
    "type \<noteq> INIT_PAGE \<Longrightarrow> 0 < length p" "off = 0 \<or> type \<in> {WRITE, MEMSET, MEMMOVE} \<and> 8 \<le> off"
    "0 < length p \<or> header_body type idt True off m \<noteq> []"
    "length p < 2 ^ 18 \<Longrightarrow> (header_bytes type idt True (length p) off m @ p) ! 0 AND 0x70 = type"
proof -
  show t: "type \<in> {INIT_PAGE, EXTENDED, WRITE, MEMSET, MEMMOVE}" "type = INIT_PAGE \<Longrightarrow> length p = 0"
    "type \<noteq> INIT_PAGE \<Longrightarrow> 0 < length p" "off = 0 \<or> type \<in> {WRITE, MEMSET, MEMMOVE} \<and> 8 \<le> off"
    using r by (auto simp: log_record_def record_types encode_varint_not_Nil)
  show hb: "0 < length p \<or> header_body type idt True off m \<noteq> []"
    using t(3) by (auto simp: header_body_def rel_page_def id_bytes_def encode_varint_not_Nil)
  have ty: "type \<in> log_types" "type = INIT_PAGE \<or> type = FREE_PAGE \<Longrightarrow> length p = 0"
    using t by (auto simp: log_types_def record_types)
  show "(header_bytes type idt True (length p) off m @ p) ! 0 AND 0x70 = type" if "length p < 2 ^ 18"
  proof -
    have "header_bytes type idt True (length p) off m \<noteq> []" by (simp add: header_bytes_def Let_def)
    then show ?thesis using header_parse(2) [OF ty(1) that hb ty(2)] by (simp add: nth_append)
  qed
qed

lemma parses_logged:
  assumes ok: "recv_ok env ids st" "\<not> if_exists env" "idt \<in> ids" and sync: "parse_sync m v"
    and r: "log_record (srv_page_size env) type p off e" and size: "srv_page_size env \<le> 2 ^ 16" "length p + 21 \<le> srv_page_size env"
  shows "parses env ids idt (is_init type) m (logs type idt p off e m) v st"
proof -
  let ?rel = "rel_page type idt True off m" and ?h = "header_bytes type idt True (length p) off m"
  let ?ofs = "if ?rel then off - m_last_offset m else off" and ?lo = "if ?rel then last_ofs v else 0"
  have id: "id_ok idt" "known_space env st (space idt)" using ok(1,3) by (auto simp: recv_ok_def)
  note t = logged_type(1-4) [OF r]
  have lp: "length p < 2 ^ 18" using size by simp
  have hb: "0 < length p \<or> header_body type idt True off m \<noteq> []" by (rule logged_type(5) [OF r])
  have h0: "(?h @ p) ! 0 AND 0x70 = type" by (rule logged_type(6) [OF r lp])
  have len: "length (?h @ p) \<le> srv_page_size env"
    using size(2) header_bytes_length [of type idt True "length p" off m] by simp
  have lo: "type \<in> {WRITE, MEMSET, MEMMOVE} \<Longrightarrow>
      offset_bytes type idt off m = mlog_encode_varint ?ofs \<and> ?lo + ?ofs \<le> off \<and> 8 \<le> ?lo + ?ofs \<and> ?lo \<noteq> 1"
    "type \<notin> {WRITE, MEMSET, MEMMOVE} \<Longrightarrow> offset_bytes type idt off m = []"
  proof -
    assume w: "type \<in> {WRITE, MEMSET, MEMMOVE}"
    then have "?rel \<Longrightarrow> m_last m = Some idt \<and> m_last_offset m \<le> off" by (auto simp: rel_page_def same_page_as_def)
    moreover have "8 \<le> off" using t(4) w r by (auto simp: log_record_def record_types)
    ultimately show "offset_bytes type idt off m = mlog_encode_varint ?ofs \<and> ?lo + ?ofs \<le> off \<and> 8 \<le> ?lo + ?ofs \<and> ?lo \<noteq> 1"
      using w sync by (auto simp: offset_bytes_def parse_sync_def)
  qed (simp add: offset_bytes_def)
  have step: "\<exists>v' st'. parse_records env ((?h @ p) @ r) v st = parse_records env r v' st' \<and>
      parse_sync (logs type idt p off e m) v' \<and> recv_ok env ids st' \<and>
      adds idt (is_init type) (?h @ p) st st'" for r
  proof -
    obtain lo' st' where lo': "parse_page_record env type (?h @ p) (offset_bytes type idt off m @ p @ r)
        (length (offset_bytes type idt off m) + length p) (vars_for idt ?lo) st = Continue (vars_for idt lo') st'"
      "8 \<le> lo'" "lo' \<le> e" "recv_ok env ids st'"
      "adds idt (is_init type) (?h @ p) st st'"
      using parse_page_record_ok [OF ok(1,2) h0 len r size(1) lo, of idt r] unfolding takes_record_def by blast
    have "parse_records env ((?h @ p) @ r) v st = parse_records env r (vars_for idt lo') st'"
      using parse_header [OF id sync t(1) lp hb t(2), of r] lo'(1) by simp
    moreover have "parse_sync (logs type idt p off e m) (vars_for idt lo')"
      using lo'(2,3) by (simp add: parse_sync_def logs_def vars_for_def log_write_last)
    ultimately show ?thesis using lo'(4,5) by blast
  qed
  have log: "m_log (logs type idt p off e m) = m_log m @ ?h @ p" by (simp add: logs_def log_write_eq)
  moreover have "?h @ p \<noteq> []" by (simp add: header_bytes_def Let_def)
  ultimately have "logs type idt p off e m \<noteq> m" by auto
  then show ?thesis unfolding parses_def using step log by (simp del: append_assoc)
qed

text \<open>
  What the checks demand of the operations on pages of \<open>n\<close> bytes, beyond their assertions: records that fit
  in a page, and moves of at least three bytes towards the start of the page.
\<close>

fun op_parse_ok :: "nat \<Rightarrow> page_op \<Rightarrow> bool" where
  "op_parse_ok n (Memcpy w dest str) \<longleftrightarrow> length str + 21 \<le> n"
| "op_parse_ok n (Memset_Str k ofs str) \<longleftrightarrow> length str + 24 \<le> n"
| "op_parse_ok n (Memmove d a len) \<longleftrightarrow> d < a \<and> 3 \<le> len"
| "op_parse_ok n (Insert_Rec cur hdr data fextra fdata) \<longleftrightarrow> False"
| "op_parse_ok n (Delete_Rec ix current extra_size data_size) \<longleftrightarrow> False"
| "op_parse_ok n _ \<longleftrightarrow> True"

definition logs_op :: "nat \<Rightarrow> page_id_t \<Rightarrow> bool \<Rightarrow> mtr_t \<Rightarrow> mtr_t \<Rightarrow> bool" where
  "logs_op n idt init m m' \<longleftrightarrow>
     m' = m \<and> \<not> init \<or>
     (\<exists>type p off e. m' = logs type idt p off e m \<and> log_record n type p off e \<and> length p + 21 \<le> n \<and> is_init type = init)"

lemma logs_opI:
  "m' = logs type idt p off e m \<Longrightarrow> log_record n type p off e \<Longrightarrow> length p + 21 \<le> n \<Longrightarrow> is_init type = init \<Longrightarrow>
   logs_op n idt init m m'"
  unfolding logs_op_def by blast

lemma not_init: "\<not> is_init WRITE" "\<not> is_init MEMSET" "\<not> is_init MEMMOVE" "\<not> is_init EXTENDED" "is_init INIT_PAGE"
  by (simp_all add: is_init_def record_types)

lemma memcpy_low_logs:
  assumes "m_logged m" "data \<noteq> []" "8 \<le> off" "off + length data \<le> n" "n < 2 ^ 16" "length data + 21 \<le> n"
  shows "logs_op n idt False m (memcpy_low idt (off mod 2 ^ 16) data m)"
proof (rule logs_opI)
  have "off + length data < 2 ^ 16" using assms(4,5) by linarith
  then show "memcpy_low idt (off mod 2 ^ 16) data m = logs WRITE idt data off (off + length data) m"
    using assms(1) by (simp add: memcpy_low_def logs_def Let_def)
  show "log_record n WRITE data off (off + length data)" using assms by (simp add: log_record_def)
qed (use assms not_init in auto)

lemma log_memset_logs:
  assumes "m_logged m" "d \<noteq> []" "length d \<le> len" "8 \<le> off" "off + len \<le> n" "n < 2 ^ 16" "length d + 24 \<le> n"
    and m': "m' = (log_write MEMSET idt True (varint_size len + length d) off m)
      \<lparr>m_log := m_log (log_write MEMSET idt True (varint_size len + length d) off m) @ mlog_encode_varint len @ d,
       m_last_offset := (off + len) mod 2 ^ 16\<rparr>"
  shows "logs_op n idt False m m'"
proof (rule logs_opI)
  have l: "len < 2 ^ 18" "len < MIN_4BYTE" using assms(5,6) by (simp_all add: min_bytes)
  have "off + len < 2 ^ 16" using assms(5,6) by linarith
  then show "m' = logs MEMSET idt (mlog_encode_varint len @ d) off (off + len) m"
    using m' length_varint(1) [OF l(2)] by (simp add: logs_def)
  show "log_record n MEMSET (mlog_encode_varint len @ d) off (off + len)" using assms by (auto simp: log_record_def)
  show "length (mlog_encode_varint len @ d) + 21 \<le> n" using small_varint(2) [OF l(1)] assms(7) by simp
qed (rule eq_False [THEN iffD2, OF not_init(2)])

lemma log_memmove_logs:
  assumes "m_logged m" "8 \<le> d" "d < a" "a + len \<le> n" "3 \<le> len" "n < 2 ^ 16" "256 \<le> n"
  shows "logs_op n idt False m (log_memmove idt d a len m)"
proof (rule logs_opI)
  let ?c = "memmove_code d a"
  have l: "len < 2 ^ 18" "len < MIN_4BYTE" "?c < 2 ^ 18" "?c < MIN_4BYTE"
    using assms by (simp_all add: min_bytes memmove_code_eq)
  have "d + len < 2 ^ 16" using assms by linarith
  then show "log_memmove idt d a len m = logs MEMMOVE idt (mlog_encode_varint len @ mlog_encode_varint ?c) d (d + len) m"
    using assms(1) length_varint(1) [OF l(2)] length_varint(1) [OF l(4)]
    unfolding log_memmove_def Let_def memmove_code_def [symmetric] logs_def by simp
  show "log_record n MEMMOVE (mlog_encode_varint len @ mlog_encode_varint ?c) d (d + len)"
    using assms by (auto simp: log_record_def)
  show "length (mlog_encode_varint len @ mlog_encode_varint ?c) + 21 \<le> n"
    using small_varint(2) [OF l(1)] small_varint(2) [OF l(3)] assms(7) by simp
qed (rule eq_False [THEN iffD2, OF not_init(3)])

lemma extended_logs:
  assumes "type # data \<noteq> [10]" "length data + 22 \<le> n"
  shows "logs_op n idt False m ((log_extended idt True (length data + 1) (type # data) m)\<lparr>m_last_offset := FIL_PAGE_TYPE\<rparr>)"
  by (rule logs_opI [where type = EXTENDED and p = "type # data" and off = 0 and e = FIL_PAGE_TYPE])
    (use assms not_init(4) in \<open>auto simp: log_extended_def logs_def log_record_def Let_def\<close>)

lemma changed_logs:
  assumes "m_logged m" "p < l" "8 \<le> ptr" "ptr + l \<le> n" "n < 2 ^ 16" "l + 21 \<le> n" "length page = n"
  shows "logs_op n idt False m (memcpy_low idt ((ptr + p) mod 2 ^ 16) (take (l - p) (drop (ptr + p) page)) m)"
proof -
  have d: "length (take (l - p) (drop (ptr + p) page)) = l - p" using assms by simp
  show ?thesis
  proof (rule memcpy_low_logs [OF assms(1)])
    show "take (l - p) (drop (ptr + p) page) \<noteq> []" using d assms(2) by (metis length_greater_0_conv zero_less_diff)
    show "ptr + p + length (take (l - p) (drop (ptr + p) page)) \<le> n" "length (take (l - p) (drop (ptr + p) page)) + 21 \<le> n"
      using d assms by linarith+
  qed (use assms in auto)
qed

lemma op_logs:
  assumes ok: "op_ok idt op page" "op_parse_ok n op" and n: "length page = n" "256 \<le> n" "n < 2 ^ 16" and on: "m_logged m"
  shows "logs_op n idt (op = Init_Page) m (snd (run_op idt op (page, m)))"
proof (cases op)
  case (Write l w ptr val)
  let ?p = "if w \<noteq> FORCED then same_prefix (drop ptr page) (int_bytes l val) else 0"
  have l: "length (int_bytes l val) = l" "ptr + l \<le> n" "8 \<le> ptr" "0 < l" "l + 21 \<le> n"
    using ok(1) Write length_int_bytes [of l val] n(1,2) by auto
  have p: "?p \<le> l" using same_prefix_le [of "drop ptr page" "int_bytes l val"] l(1) by simp
  show ?thesis
  proof (cases "?p < l")
    case False
    then have "w \<noteq> FORCED" "?p = l" using p l(4) by (auto split: if_splits)
    then show ?thesis using Write on by (simp add: mtr_write_def logs_op_def)
  next
    case True
    from changed_logs [OF on this l(3,2) n(3) l(5), of "put ptr (int_bytes l val) page" idt] show ?thesis
      using True Write on l n(1) by (simp add: mtr_write_def Let_def)
  qed
next
  case (Memcpy w dest str)
  let ?p = "if w \<noteq> FORCED then same_prefix (drop dest page) str else 0"
  have l: "dest + length str \<le> n" "8 \<le> dest" "0 < length str" "length str + 21 \<le> n"
    using ok Memcpy n(1) by auto
  have p: "?p \<le> length str" using same_prefix_le [of "drop dest page" str] by simp
  show ?thesis
  proof (cases "?p < length str")
    case False
    then have "w \<noteq> FORCED" "?p = length str" using p l(3) by (auto split: if_splits)
    then show ?thesis using Memcpy on by (simp add: mtr_memcpy_def logs_op_def)
  next
    case True
    have "length (put (dest + ?p) (drop ?p str) page) = n" using l(1) n(1) True by simp
    from changed_logs [OF on True l(2,1) n(3) l(4) this, of idt] show ?thesis
      using True Memcpy on by (simp add: mtr_memcpy_def log_memcpy_def Let_def)
  qed
next
  case (Memset ofs len val)
  then show ?thesis
    using ok n on log_memset_logs [of m "[val]" len ofs n "log_memset idt ofs len val m" idt]
    by (simp add: mtr_memset_def log_memset_def Let_def)
next
  case (Memset_Str k ofs str)
  then have "length str \<le> k * length str" using ok(1) by simp
  then show ?thesis
    using Memset_Str ok n on log_memset_logs [of m str "k * length str" ofs n "log_memset_str idt ofs (k * length str) str m" idt]
    by (simp add: log_memset_str_def Let_def)
next
  case (Memmove d a len)
  then show ?thesis using ok n on log_memmove_logs by simp
next
  case Init_Page
  then show ?thesis
    using on n not_init(5)
    by (simp, intro logs_opI [where type = INIT_PAGE and p = "[]" and off = 0 and e = FIL_PAGE_TYPE])
      (simp_all add: fsp_init_file_page_def mtr_init_def logs_def log_record_def)
next
  case (Create_Page compact)
  then show ?thesis
    using on n extended_logs [of "if compact then 1 else 0" "[]" n idt m]
    by (simp add: page_create_logged_def page_create_def log_write_extended_def)
next
  case Create_Undo_Page
  then show ?thesis
    using on n extended_logs [of 2 "[]" n idt m] by (simp add: undo_page_create_def undo_create_def log_write_extended_def)
next
  case (Add_Undo data)
  have room: "undo_room data page" "3 # data \<noteq> [10]" "length data + 22 \<le> n"
    using ok(1) Add_Undo n(1) by (auto simp: undo_room_def trx_undo_left_def)
  then show ?thesis
    using Add_Undo on undo_page_add_eq(1) [OF room(1)] extended_logs [OF room(2,3), of idt m] by (simp add: undo_append_def)
qed (use ok(2) in simp_all)

lemma parses_op:
  assumes "recv_ok env ids st" "\<not> if_exists env" "idt \<in> ids" "parse_sync m v" "srv_page_size env \<le> 2 ^ 16"
    and "logs_op (srv_page_size env) idt init m m'"
  shows "parses env ids idt init m m' v st"
  using assms(6) parses_refl [OF assms(4,1)] parses_logged [OF assms(1-4) _ assms(5)] unfolding logs_op_def by metis

definition sizes :: "nat \<Rightarrow> pages \<Rightarrow> page_id_t set \<Rightarrow> bool" where
  "sizes n pages ids \<longleftrightarrow> (\<forall>idt \<in> ids. length (pages idt) = n)"

lemma sizes_step:
  assumes "sizes n pages ids" "op_ok (fst x) (snd x) (pages (fst x))" "fst x \<in> ids" "256 \<le> n"
  shows "sizes n (fst (mtr_step x (pages, m))) ids"
  using assms length_op [OF assms(2)] by (auto simp: sizes_def mtr_step_eq)

end
