(* ===== verification/Redo_Recover.thy ===== *)
theory Redo_Recover
  imports Redo_Parse
begin

text \<open>
  Applying the collected records to a page, \<open>recv_recover_page\<close> in
  \<open>src/storage/innobase/log/log0recv.cc\<close>: records that the page contains already according to its LSN
  are skipped. Then the relation between a page in memory and its image in a file, and what the snippets of log for a
  page have to satisfy so that they recover it.
\<close>

unbundle bit_operations_syntax

section \<open>Recovering a page\<close>

abbreviation (input) FIL_PAGE_LSN :: nat where "FIL_PAGE_LSN \<equiv> 16"
abbreviation (input) FSP_HEADER_OFFSET :: nat where "FSP_HEADER_OFFSET \<equiv> 38"

record fsp_header =
  hdr_flags :: nat
  size_in_header :: nat
  free_limit :: nat
  free_len :: nat

text \<open>The page, and what was assigned to the tablespace object or passed to \<open>fil_crypt_parse\<close>.\<close>

record recover_state =
  rs_page :: recv_page
  rs_start :: nat
  rs_end :: nat
  rs_free :: bool
  rs_header :: "fsp_header option"
  rs_crypt :: "byte list option"

datatype recover_step = Proceed recover_state | Failed | Undef

definition CRYPT_MAGIC :: "byte list" where
  "CRYPT_MAGIC = [0x73, 0xE, 0xC, 0x52, 0x45, 0x74]"

definition read_fsp_header :: "byte list \<Rightarrow> fsp_header" where
  "read_fsp_header page =
     \<lparr>hdr_flags = mach_read_from_4 (drop (FSP_HEADER_OFFSET + 16) page),
      size_in_header = mach_read_from_4 (drop (FSP_HEADER_OFFSET + 8) page),
      free_limit = mach_read_from_4 (drop (FSP_HEADER_OFFSET + 12) page),
      free_len = mach_read_from_4 (drop (FSP_HEADER_OFFSET + 24 + 0) page)\<rparr>"

definition recover_space :: "block_env \<Rightarrow> bool \<Rightarrow> apply_status \<Rightarrow> recover_state \<Rightarrow> recover_state" where
  "recover_space env sp_open a s =
     (if \<not> sp_open then s
      else if a = APPLIED_TO_FSP_HEADER then s\<lparr>rs_header := Some (read_fsp_header (frame (rs_page s)))\<rparr>
      else if a = APPLIED_TO_ENCRYPTION then
        let b = drop (encryption_offset env + FSP_HEADER_OFFSET) (frame (rs_page s));
            c = drop 6 b
        in if take 6 b \<noteq> CRYPT_MAGIC \<or> c ! 0 \<notin> {0, 1} \<or> c ! 1 \<noteq> 16 \<or> c ! (2 + 16 + 4 + 4) > 2 then s
           else s\<lparr>rs_crypt := Some c\<rparr>
      else s)"

definition recover_record :: "block_env \<Rightarrow> bool \<Rightarrow> nat \<Rightarrow> nat \<Rightarrow> log_phys_t \<Rightarrow> recover_state \<Rightarrow> recover_step" where
  "recover_record env sp_open page_lsn init_lsn l s =
     (if start_lsn_of l < page_lsn then Proceed (s\<lparr>rs_end := lsn_of l\<rparr>)
      else if start_lsn_of l < init_lsn then Proceed (s\<lparr>rs_end := lsn_of l\<rparr>)
      else case log_apply env (recs l @ [0]) ((rs_page s)\<lparr>applied := APPLIED_NO\<rparr>) of
             None \<Rightarrow> Undef
           | Some (a, p) \<Rightarrow>
               let s = s\<lparr>rs_end := lsn_of l, rs_page := p\<rparr>
               in if a = APPLIED_NO then Proceed (s\<lparr>rs_free := True, rs_start := 0\<rparr>)
                  else let s = recover_space env sp_open a s
                       in if (a = APPLIED_CORRUPTED \<or> log_corrupted p) \<and> \<not> force_recovery env then Failed
                          else Proceed (s\<lparr>rs_start := (if rs_start s = 0 then start_lsn_of l else rs_start s)\<rparr>))"

fun recover_records :: "block_env \<Rightarrow> bool \<Rightarrow> nat \<Rightarrow> nat \<Rightarrow> log_phys_t list \<Rightarrow> recover_state \<Rightarrow> recover_step" where
  "recover_records env sp_open page_lsn init_lsn [] s = Proceed s"
| "recover_records env sp_open page_lsn init_lsn (l # ls) s =
     (case recover_record env sp_open page_lsn init_lsn l s of
        Proceed s \<Rightarrow> recover_records env sp_open page_lsn init_lsn ls s
      | r \<Rightarrow> r)"

definition write_end_lsn :: "block_env \<Rightarrow> nat \<Rightarrow> byte list \<Rightarrow> byte list" where
  "write_end_lsn env end_lsn page =
     (let page = put FIL_PAGE_LSN (mach_write_to_8 end_lsn) page
      in if zipped env then page else put (length page - 8) (mach_write_to_8 end_lsn) page)"

text \<open>
  The page is registered as modified since \<open>oldest_modification\<close>, or it was freed. \<open>init\<close> is the LSN of
  the initialization of the page, if there was one. The result is None in case of a read or write
  outside of the page, and \<open>Some None\<close> if the page could not be recovered.
\<close>

record recovered =
  rec_frame :: "byte list"
  oldest_modification :: nat
  set_freed :: bool
  space_header :: "fsp_header option"
  space_crypt :: "byte list option"

definition recv_recover_page ::
  "block_env \<Rightarrow> bool \<Rightarrow> page_recv_t \<Rightarrow> nat option \<Rightarrow> bool \<Rightarrow> byte list \<Rightarrow> recovered option option" where
  "recv_recover_page env sp_open p init corrupt_log page =
     (let page_lsn = (if init \<noteq> None then 0 else mach_read_from_8 (drop FIL_PAGE_LSN page));
          init_lsn = (case init of Some n \<Rightarrow> n | None \<Rightarrow> 0);
          s = \<lparr>rs_page = \<lparr>frame = page, last_offset = rec_offset p, applied = APPLIED_NO, log_corrupted = corrupt_log\<rparr>,
               rs_start = 0, rs_end = 0, rs_free = False, rs_header = None, rs_crypt = None\<rparr>
      in case recover_records env sp_open page_lsn init_lsn (rec_log p) s of
           Undef \<Rightarrow> None
         | Failed \<Rightarrow> Some None
         | Proceed s \<Rightarrow>
             Some (Some
               \<lparr>rec_frame = (if rs_start s \<noteq> 0 then write_end_lsn env (rs_end s) (frame (rs_page s)) else frame (rs_page s)),
                oldest_modification = rs_start s,
                set_freed = (rs_start s = 0 \<and> rs_free s \<and> init \<noteq> None),
                space_header = rs_header s, space_crypt = rs_crypt s\<rparr>))"

text \<open>When a page was read: the records for it are looked up.\<close>

definition recv_recover :: "block_env \<Rightarrow> bool \<Rightarrow> recv_sys_t \<Rightarrow> byte list \<Rightarrow> recovered option option" where
  "recv_recover env sp_open st page =
     (case recv_pages st (block_id env) of
        None \<Rightarrow> Some (Some \<lparr>rec_frame = page, oldest_modification = 0, set_freed = False, space_header = None, space_crypt = None\<rparr>)
      | Some p \<Rightarrow>
          recv_recover_page env sp_open p (if skip_read p then mlog_init st (block_id env) else None)
            (found_corrupt_log st) page)"

section \<open>Images of a page\<close>

text \<open>
  The checksum at the start, the LSN and the last 8 bytes are written when a mini-transaction is committed
  or the page is written to a file (\<open>mtr_t::commit_log\<close>, \<open>buf_flush_init_for_writing\<close>), and not
  covered by the log.
\<close>

definition volatile :: "nat \<Rightarrow> nat \<Rightarrow> bool" where
  "volatile n i \<longleftrightarrow> i < 4 \<or> 16 \<le> i \<and> i < 24 \<or> n \<le> i + 8"

definition same_image :: "byte list \<Rightarrow> byte list \<Rightarrow> bool" where
  "same_image p q \<longleftrightarrow> length q = length p \<and> (\<forall>i < length p. \<not> volatile (length p) i \<longrightarrow> q ! i = p ! i)"

text \<open>An area that contains none of these bytes.\<close>

definition stable :: "nat \<Rightarrow> nat \<Rightarrow> nat \<Rightarrow> bool" where
  "stable n a k \<longleftrightarrow> 4 \<le> a \<and> (a + k \<le> 16 \<or> 24 \<le> a) \<and> a + k + 8 \<le> n"

lemma same_image_refl [simp]: "same_image p p"
  by (simp add: same_image_def)

lemma same_image_trans: "same_image p q \<Longrightarrow> same_image q r \<Longrightarrow> same_image p r"
  by (simp add: same_image_def)

lemma same_image_length: "same_image p q \<Longrightarrow> length q = length p"
  by (simp add: same_image_def)

lemma same_image_area:
  assumes "same_image p q" "stable (length p) a k"
  shows "take k (drop a q) = take k (drop a p)"
  by (rule nth_equalityI) (use assms in \<open>auto simp: same_image_def stable_def volatile_def\<close>)

lemma same_image_put: "same_image p q \<Longrightarrow> a + length d \<le> length p \<Longrightarrow> same_image (put a d p) (put a d q)"
  by (simp add: same_image_def nth_put)

lemma same_image_update: "same_image p q \<Longrightarrow> same_image (p[i := b]) (q[i := b])"
  by (cases "i < length p") (auto simp: same_image_def nth_list_update)

lemma same_image_volatile:
  assumes "a + length d \<le> length p" "\<And>i. a \<le> i \<Longrightarrow> i < a + length d \<Longrightarrow> volatile (length p) i"
  shows "same_image p (put a d p)"
  using assms by (auto simp: same_image_def nth_put)

lemma same_image_prefix:
  assumes "same_image p q" "stable (length p) a (length d)"
  shows "same_prefix (drop a q) d = same_prefix (drop a p) d"
proof -
  have "same_prefix (take (length d) x) d = same_prefix x d" for x
    by (induction x d rule: same_prefix.induct) auto
  from this [of "drop a q"] this [of "drop a p"] show ?thesis using same_image_area [OF assms] by simp
qed

text \<open>What an operation reads of the page does not include these bytes.\<close>

fun reads_ok :: "nat \<Rightarrow> page_op \<Rightarrow> bool" where
  "reads_ok n (Write l w ptr val) \<longleftrightarrow> stable n ptr l"
| "reads_ok n (Memcpy w dest str) \<longleftrightarrow> stable n dest (length str)"
| "reads_ok n (Memmove d a len) \<longleftrightarrow> stable n a len"
| "reads_ok n (Insert_Rec cur hdr data fextra fdata) \<longleftrightarrow> False"
| "reads_ok n (Delete_Rec ix current extra_size data_size) \<longleftrightarrow> False"
| "reads_ok n _ \<longleftrightarrow> True"

lemma same_image_create: 
  assumes "same_image p q" "256 \<le> length p"
  shows "same_image (page_create_low compact p) (page_create_low compact q)"
  using assms same_image_length [OF assms(1)]
  by (auto simp: page_create_low_def Let_def infimum_supremum_compact_def infimum_supremum_redundant_def
      intro!: same_image_put same_image_update)

lemma same_image_undo_init:
  assumes "same_image p q" "256 \<le> length p"
  shows "same_image (trx_undo_page_init p) (trx_undo_page_init q)"
proof -
  note len = same_image_length [OF assms(1)]
  define p1 where "p1 = put 40 (mach_write_to_2 56) (put 38 (replicate 2 0) (put 24 (mach_write_to_2 2) p))"
  define q1 where "q1 = put 40 (mach_write_to_2 56) (put 38 (replicate 2 0) (put 24 (mach_write_to_2 2) q))"
  have 1: "same_image p1 q1" "length p1 = length p"
    unfolding p1_def q1_def using assms by (auto intro!: same_image_put)
  have "take 2 (drop 40 q1) = take 2 (drop 40 p1)"
    using same_image_area [OF 1(1), of 40 2] 1(2) assms(2) by (simp add: stable_def)
  then show ?thesis
    using 1 assms(2) len unfolding trx_undo_page_init_def Let_def p1_def q1_def
    by (auto intro!: same_image_put)
qed

lemma undo_free_image:
  assumes "same_image p q" "256 \<le> length p"
  shows "undo_page_free q = undo_page_free p"
  unfolding undo_page_free_def
  by (rule mach_read_2_cong) (use same_image_area [OF assms(1), of 42 2] same_image_length [OF assms(1)] assms(2)
      in \<open>simp_all add: stable_def\<close>)

lemma same_image_undo_append:
  assumes "same_image p q" "256 \<le> length p" "undo_room data p"
  shows "undo_room data q" "same_image (snd (log_phys_undo_append data p)) (snd (log_phys_undo_append data q))"
proof -
  note free = undo_free_image [OF assms(1,2)] and len = same_image_length [OF assms(1)]
  define f where "f = undo_page_free p"
  let ?e = "mach_write_to_2 (f + 4 + length data)"
  have r: "56 \<le> f" "f + length data + 22 \<le> length p" 
    using assms(3) by (auto simp: undo_room_def trx_undo_left_def f_def)
  have e: "take 2 (drop 42 (put 42 ?e p)) = ?e" "take 2 (drop 42 (put 42 ?e q)) = ?e"
    using drop_put [of 42 p ?e] drop_put [of 42 q ?e] assms(2) len by simp_all
  show "undo_room data q" using assms(3) free len by (simp add: undo_room_def)
  show "same_image (snd (log_phys_undo_append data p)) (snd (log_phys_undo_append data q))"
    using r e assms(1,2) len
    by (auto simp: log_phys_undo_append_def Let_def free f_def [symmetric] intro!: same_image_put)
qed

text \<open>On another image of a page, an operation does the same and logs the same.\<close>

lemma image_op_ok:
  "same_image p q \<Longrightarrow> 256 \<le> length p \<Longrightarrow> op_ok idt op p \<Longrightarrow> reads_ok (length p) op \<Longrightarrow> op_ok idt op q"
  using same_image_length [of p q] same_image_undo_append(1) [of p q] by (cases op) auto

lemma changed_data: "a + length d \<le> length p \<Longrightarrow> length d = l \<Longrightarrow> take (l - k) (drop (a + k) (put a d p)) = drop k d"
  by (simp add: put_def drop_take)

lemma image_write:
  assumes "same_image p q" "stable (length p) ptr l" "l \<in> {1, 2, 4, 8}" "ptr + l \<le> length p"
  shows "snd (snd (mtr_write l w idt ptr val (q, m))) = snd (snd (mtr_write l w idt ptr val (p, m)))"
    and "same_image (fst (snd (mtr_write l w idt ptr val (p, m)))) (fst (snd (mtr_write l w idt ptr val (q, m))))"
proof -
  let ?b = "int_bytes l val"
  have l: "length ?b = l" by (rule length_int_bytes [OF assms(3)])
  have pre: "same_prefix (drop ptr q) ?b = same_prefix (drop ptr p) ?b"
    using same_image_prefix [OF assms(1), of ptr ?b] assms(2) l by simp
  have put: "same_image (put ptr ?b p) (put ptr ?b q)" using assms(1,4) l by (simp add: same_image_put)
  have data: "take (l - k) (drop (ptr + k) (put ptr ?b q)) = take (l - k) (drop (ptr + k) (put ptr ?b p))" for k
    using changed_data [OF _ l] assms(4) l same_image_length [OF assms(1)] by simp
  show "snd (snd (mtr_write l w idt ptr val (q, m))) = snd (snd (mtr_write l w idt ptr val (p, m)))"
    using pre data data [of 0] by (simp add: mtr_write_def Let_def)
  show "same_image (fst (snd (mtr_write l w idt ptr val (p, m)))) (fst (snd (mtr_write l w idt ptr val (q, m))))"
    using pre put assms(1) by (simp add: mtr_write_def Let_def)
qed

lemma image_memcpy:
  assumes "same_image p q" "stable (length p) dest (length str)" "dest + length str \<le> length p"
  shows "snd (mtr_memcpy w idt dest str (q, m)) = snd (mtr_memcpy w idt dest str (p, m))"
    and "same_image (fst (mtr_memcpy w idt dest str (p, m))) (fst (mtr_memcpy w idt dest str (q, m)))"
proof -
  define k where "k = (if w \<noteq> FORCED \<and> m_logged m then same_prefix (drop dest p) str else 0)"
  have kq: "(if w \<noteq> FORCED \<and> m_logged m then same_prefix (drop dest q) str else 0) = k"
    using same_image_prefix [OF assms(1,2)] by (simp add: k_def)
  have k: "k \<le> length str" using same_prefix_le by (simp add: k_def)
  have le: "dest + k + length (drop k str) \<le> length p" using k assms(3) by simp
  note len = same_image_length [OF assms(1)]
  have data: "take (length (drop k str)) (drop (dest + k) (put (dest + k) (drop k str) q)) =
    take (length (drop k str)) (drop (dest + k) (put (dest + k) (drop k str) p))"
    using drop_put [of "dest + k" p "drop k str"] drop_put [of "dest + k" q "drop k str"] le len by simp
  show "snd (mtr_memcpy w idt dest str (q, m)) = snd (mtr_memcpy w idt dest str (p, m))"
    using data unfolding mtr_memcpy_def prod.case kq k_def [symmetric] by (simp add: log_memcpy_def Let_def)
  show "same_image (fst (mtr_memcpy w idt dest str (p, m))) (fst (mtr_memcpy w idt dest str (q, m)))"
    using same_image_put [OF assms(1) le] assms(1)
    unfolding mtr_memcpy_def prod.case kq k_def [symmetric] by (simp add: Let_def)
qed

lemma image_op:
  assumes img: "same_image p q" "256 \<le> length p" and ok: "op_ok idt op p" "reads_ok (length p) op"
  shows "snd (run_op idt op (q, m)) = snd (run_op idt op (p, m))"
    and "same_image (fst (run_op idt op (p, m))) (fst (run_op idt op (q, m)))"
proof -
  note len = same_image_length [OF img(1)]
  have "snd (run_op idt op (q, m)) = snd (run_op idt op (p, m)) \<and>
    same_image (fst (run_op idt op (p, m))) (fst (run_op idt op (q, m)))"
  proof (cases op)
    case (Write l w ptr val)
    then show ?thesis using image_write [OF img(1)] ok by simp
  next
    case (Memcpy w dest str)
    then show ?thesis using image_memcpy [OF img(1)] ok by simp
  next
    case (Memset ofs l val)
    then show ?thesis using ok(1) same_image_put [OF img(1), of ofs "replicate l val"] by (simp add: mtr_memset_def)
  next
    case (Memset_Str k ofs str)
    then show ?thesis
      using ok(1) same_image_put [OF img(1), of ofs "concat (replicate k str)"] by (simp add: length_concat sum_list_replicate)
  next
    case (Memmove d a l)
    have area: "take l (drop a q) = take l (drop a p)" using same_image_area [OF img(1)] ok(2) Memmove by simp
    have "length (take l (drop a p)) = l" using ok(1) Memmove by auto
    then have "same_image (put d (take l (drop a p)) p) (put d (take l (drop a p)) q)"
      using same_image_put [OF img(1), of d "take l (drop a p)"] ok(1) Memmove by simp
    then show ?thesis using area Memmove by (simp add: page_memmove_def)
  next
    case Init_Page
    then show ?thesis using len by (simp add: fsp_init_file_page_def fsp_apply_init_file_page_def)
  next
    case (Create_Page compact)
    then show ?thesis using same_image_create [OF img] by (simp add: page_create_logged_def)
  next
    case Create_Undo_Page
    then show ?thesis using same_image_undo_init [OF img] by (simp add: undo_page_create_def)
  next
    case (Add_Undo data)
    then have room: "undo_room data p" using ok(1) by simp
    note q = same_image_undo_append [OF img room]
    show ?thesis using undo_page_add_eq(1) [OF room] undo_page_add_eq(1) [OF q(1)] q(2) Add_Undo by simp
  qed (use ok(2) in simp_all)
  then show "snd (run_op idt op (q, m)) = snd (run_op idt op (p, m))"
    and "same_image (fst (run_op idt op (p, m))) (fst (run_op idt op (q, m)))" by blast+
qed

lemma header_not_Nil: "header_bytes type idt bpage len offset m \<noteq> []"
  by (simp add: header_bytes_def Let_def)

lemma memcpy_low_changes: "m_logged m \<Longrightarrow> m_log (memcpy_low idt off data m) \<noteq> m_log m"
  using memcpy_low_longer [of m idt off data] by auto

lemma op_unlogged:
  assumes "m_logged m" "op_ok idt op page" "reads_ok (length page) op" "m_log (snd (run_op idt op (page, m))) = m_log m"
  shows "fst (run_op idt op (page, m)) = page"
proof (cases op)
  case (Write l w ptr val)
  then show ?thesis
    using assms by (simp add: mtr_write_def Let_def memcpy_low_changes split: if_splits)
next
  case (Memcpy w dest str)
  then show ?thesis
    using assms by (simp add: mtr_memcpy_def log_memcpy_def Let_def memcpy_low_changes split: if_splits)
next
  case (Add_Undo data)
  then show ?thesis
    using assms by (simp add: undo_page_add_eq undo_append_def log_extended_def log_write_eq header_not_Nil Let_def)
qed (use assms in \<open>simp_all add: mtr_memset_def log_memset_def log_memset_str_def
      log_memmove_def fsp_init_file_page_def mtr_init_def page_create_logged_def page_create_def undo_page_create_def
      undo_create_def log_write_extended_def log_extended_def log_write_eq header_not_Nil Let_def\<close>)

section \<open>The status after applying records\<close>

lemma status_basic:
  "\<not> force_recovery env \<Longrightarrow> record_corrupted env st = Return (applied st) (st\<lparr>log_corrupted := True\<rparr>)"
  "next_after_applying st = Next st' \<Longrightarrow> applied st' \<noteq> APPLIED_NO \<and> (applied st \<noteq> APPLIED_CORRUPTED \<longrightarrow> applied st' \<noteq> APPLIED_CORRUPTED)"
  "next_after_applying st \<noteq> Return a st'"
  by (auto simp: record_corrupted_def next_after_applying_def split: if_splits)

definition status_ok :: "apply_status \<Rightarrow> verdict \<Rightarrow> bool" where
  "status_ok a v \<longleftrightarrow>
     (case v of
        Next st \<Rightarrow> applied st \<noteq> APPLIED_NO \<and> (a \<noteq> APPLIED_CORRUPTED \<longrightarrow> applied st \<noteq> APPLIED_CORRUPTED)
      | Return a' st \<Rightarrow> log_corrupted st \<or> a' = APPLIED_CORRUPTED \<and> applied st = a
      | Undefined \<Rightarrow> True)"

lemma status_intros:
  "\<not> force_recovery env \<Longrightarrow> status_ok a (record_corrupted env st)"
  "a = applied st \<Longrightarrow> status_ok a (Return APPLIED_CORRUPTED st)"
  "a \<noteq> APPLIED_CORRUPTED \<Longrightarrow> applied st \<noteq> APPLIED_CORRUPTED \<Longrightarrow> status_ok a (next_after_applying st)"
  "a = APPLIED_CORRUPTED \<Longrightarrow> status_ok a (next_after_applying st)"
  "status_ok a Undefined"
  by (auto simp: status_ok_def record_corrupted_def next_after_applying_def)

lemma status_applying: "applied st = applied st' \<Longrightarrow> status_ok (applied st') (next_after_applying st)"
  by (cases "applied st' = APPLIED_CORRUPTED") (auto intro: status_intros)

lemma status_write: "applied st = applied st' \<Longrightarrow> status_ok (applied st') (next_after_applying_write n st)"
  unfolding next_after_applying_write_def by (rule status_applying) simp

lemma status_memset: "applied st = applied st' \<Longrightarrow> status_ok (applied st') (apply_memset l rlen len st)"
  by (auto simp: apply_memset_def intro: status_intros(5) status_write split: option.split)

lemma status_memmove:
  "\<not> force_recovery env \<Longrightarrow> applied st = applied st' \<Longrightarrow> status_ok (applied st') (apply_memmove env l rlen len st)"
  by (auto simp: apply_memmove_def Let_def intro: status_intros(1,5) status_write)

lemma status_apply_data:
  assumes "\<not> force_recovery env" "applied st = applied st'"
  shows "status_ok (applied st') (apply_data env type l rlen st)"
proof -
  have "status_ok (applied st') (next_after_applying_write rlen (st\<lparr>frame := x, applied := write_status env a b (applied st)\<rparr>))" for x a b
    using assms(2)
    by (auto simp: next_after_applying_write_def next_after_applying_def status_ok_def write_status_def)
  then show ?thesis
    using assms by (auto simp: apply_data_def Let_def intro: status_intros(1) status_memset status_memmove)
qed

lemma apply_record_status:
  assumes "\<not> force_recovery env" "type \<noteq> FREE_PAGE"
  shows "status_ok (applied st) (apply_record env type l rlen st)"
proof -
  have "status_ok (applied st) (apply_at_offset env type l rlen st)"
    using assms(1) by (auto simp: apply_at_offset_def Let_def intro!: status_intros(1) status_apply_data)
  moreover have "status_ok (applied st) (apply_extended env l rlen st)"
    using assms(1) by (auto simp: apply_extended_def intro!: status_intros(1,2,5) status_applying split: option.split)
  ultimately show ?thesis
    using assms by (auto simp: apply_record_def intro!: status_intros(1,2) status_applying)
qed

lemma skip_id_applied: "skip_id b x st = (y, st') \<Longrightarrow> applied st' = applied st"
  by (cases x) (auto simp: skip_id_def Let_def split: if_splits)

lemma log_apply_status:
  "\<not> force_recovery env \<Longrightarrow> log_apply env l st = Some (applied st', st') \<Longrightarrow> \<not> log_corrupted st' \<Longrightarrow> applied st \<noteq> APPLIED_CORRUPTED \<Longrightarrow>
    applied st' \<noteq> APPLIED_CORRUPTED \<and>
    (applied st \<noteq> APPLIED_NO \<or> l \<noteq> [] \<and> l ! 0 \<noteq> 0 \<and> l ! 0 AND 0x70 \<noteq> FREE_PAGE \<longrightarrow> applied st' \<noteq> APPLIED_NO)"
proof (induction env l st rule: log_apply.induct)
  case (1 env l st)
  show ?case
  proof (cases "l = [] \<or> l ! 0 = 0")
    case True
    then show ?thesis using 1 by (subst (asm) log_apply.simps) auto
  next
    case False
    obtain l1 rlen st1 where sk: "skip_id (l ! 0) (parse_length l) st = ((l1, rlen), st1)" by (metis prod.exhaust)
    note st1 = skip_id_applied [OF sk]
    let ?t = "l ! 0 AND 0x70" and ?r = "apply_record env (l ! 0 AND 0x70) l1 rlen st1"
    have run: "log_apply env l st = (case ?r of Undefined \<Rightarrow> None | Return a st2 \<Rightarrow> Some (a, st2)
        | Next st2 \<Rightarrow> log_apply env (drop rlen l1) st2)"
      using False sk by (subst log_apply.simps) simp
    have ok: "?t \<noteq> FREE_PAGE \<Longrightarrow> status_ok (applied st) ?r" using apply_record_status [OF 1(2), of ?t st1 l1 rlen] st1 by simp
    have free: "?t = FREE_PAGE \<Longrightarrow> ?r = Next (st1\<lparr>last_offset := 1\<rparr>)" by (simp add: apply_record_def)
    show ?thesis
    proof (cases ?r)
      case (Next st2)
      then have "applied st2 \<noteq> APPLIED_CORRUPTED \<and> (applied st \<noteq> APPLIED_NO \<or> ?t \<noteq> FREE_PAGE \<longrightarrow> applied st2 \<noteq> APPLIED_NO)"
        using ok free 1(5) st1 by (cases "?t = FREE_PAGE") (auto simp: status_ok_def)
      then show ?thesis using 1(1) [OF False sk [symmetric] refl Next] 1(2-4) run Next False by auto
    next
      case (Return a st2)
      then show ?thesis using run ok free 1(3-5) by (cases "?t = FREE_PAGE") (auto simp: status_ok_def)
    next
      case Undefined
      then show ?thesis using run 1(3) by simp
    qed
  qed
qed

end
