(* ===== verification/Redo_Follow.thy ===== *)
theory Redo_Follow
  imports Redo_Recover
begin

text \<open>
  The simulation between a mini-transaction and its recovery: while its operations change pages and append to
  the log, the parser collects snippets of log that recover each page from whichever image of it is in the file.
\<close>

unbundle bit_operations_syntax

section \<open>Snippets of log\<close>

definition runs :: "block_env \<Rightarrow> byte list \<Rightarrow> recv_page \<Rightarrow> recv_page \<Rightarrow> bool" where
  "runs env l st st' \<longleftrightarrow> (\<forall>r. log_apply env (l @ r) st = log_apply env r st')"

lemma runs_trans: "runs env k st st1 \<Longrightarrow> runs env l st1 st2 \<Longrightarrow> runs env (k @ l) st st2"
  by (simp add: runs_def)

lemma runs_end: "runs env l st st' \<Longrightarrow> log_apply env (l @ [0]) st = Some (applied st', st')"
  by (simp add: runs_def) (simp add: log_apply.simps)

text \<open>The page has been changed, and nothing is wrong with it.\<close>

definition changed :: "recv_page \<Rightarrow> bool" where
  "changed st \<longleftrightarrow> applied st \<noteq> APPLIED_NO \<and> applied st \<noteq> APPLIED_CORRUPTED"

lemma runs_changed:
  assumes "runs env l st st'" "\<not> force_recovery env" "\<not> log_corrupted st'" "applied st \<noteq> APPLIED_CORRUPTED"
    and "l \<noteq> []" "l ! 0 \<noteq> 0" "l ! 0 AND 0x70 \<noteq> FREE_PAGE"
  shows "changed st'"
  using log_apply_status [OF assms(2) runs_end [OF assms(1)] assms(3,4)] assms(5-7)
  by (simp add: changed_def nth_append)

fun snips_run :: "block_env \<Rightarrow> log_phys_t list \<Rightarrow> recv_page \<Rightarrow> recv_page \<Rightarrow> bool" where
  "snips_run env [] st st' \<longleftrightarrow> st' = st"
| "snips_run env (x # xs) st st' \<longleftrightarrow>
     (\<exists>st1. runs env (recs x) (st\<lparr>applied := APPLIED_NO\<rparr>) st1 \<and> changed st1 \<and> \<not> log_corrupted st1 \<and> snips_run env xs st1 st')"

lemma snips_run_append:
  "snips_run env (xs @ ys) st st' \<longleftrightarrow> (\<exists>st1. snips_run env xs st st1 \<and> snips_run env ys st1 st')"
  by (induction xs arbitrary: st) auto

lemma snips_run_added:
  assumes old: "snips_run env old st st1" and add: "snippet_added n n' l old new"
    and step: "\<And>a. a \<noteq> APPLIED_CORRUPTED \<Longrightarrow>
      \<exists>st2. runs env l (st1\<lparr>applied := a\<rparr>) st2 \<and> changed st2 \<and> \<not> log_corrupted st2 \<and> P st2"
  shows "\<exists>st2. snips_run env new st st2 \<and> P st2"
  using add unfolding snippet_added_def
proof (elim disjE conjE)
  assume new: "old \<noteq> []" "new = butlast old @ [(last old)\<lparr>recs := recs (last old) @ l\<rparr>]"
  have "snips_run env (butlast old @ [last old]) st st1" using old new(1) by simp
  then obtain st0 where st0: "snips_run env (butlast old) st st0" "runs env (recs (last old)) (st0\<lparr>applied := APPLIED_NO\<rparr>) st1"
    "changed st1" by (auto simp: snips_run_append)
  have "st1\<lparr>applied := applied st1\<rparr> = st1" by simp
  then obtain st2 where "runs env l st1 st2" "changed st2" "\<not> log_corrupted st2" "P st2"
    using step [of "applied st1"] st0(3) by (metis changed_def)
  then show ?thesis
    using st0 new(2) runs_trans by (fastforce simp: snips_run_append)
next
  assume "new = old @ [\<lparr>start_lsn_of = n, lsn_of = n', recs = l\<rparr>]"
  then show ?thesis using old step [of APPLIED_NO] by (fastforce simp: snips_run_append)
qed

text \<open>A page that the snippets recover, from the image \<open>q\<close> and whatever last offset.\<close>

definition recovers :: "block_env \<Rightarrow> log_phys_t list \<Rightarrow> byte list \<Rightarrow> byte list \<Rightarrow> mtr_t \<Rightarrow> bool" where
  "recovers env xs q page m \<longleftrightarrow>
     (\<forall>offset. \<exists>st. snips_run env xs (recv_start offset q) st \<and> same_image page (frame st) \<and>
        follows (block_id env) (frame st, m) st)"

lemma same_image_sym: "same_image p q \<Longrightarrow> same_image q p"
  by (auto simp: same_image_def)

lemma recovers_image: "recovers env xs q page m \<Longrightarrow> same_image page page' \<Longrightarrow> recovers env xs q page' m"
  unfolding recovers_def using same_image_trans same_image_sym by blast

lemma recovers_other:
  assumes "recovers env xs q page m" "logs_for idt' m m'" "idt' \<noteq> block_id env"
  shows "recovers env xs q page m'"
  using assms unfolding recovers_def follows_def logs_for_def by fastforce

lemma recovers_start: "recovers env xs q page m \<Longrightarrow> recovers env xs q page mtr_start"
  unfolding recovers_def follows_def mtr_start_def by fastforce

lemma recovers_base: "same_image page q \<Longrightarrow> recovers env [] q page mtr_start"
  by (simp add: recovers_def follows_def mtr_start_def recv_start_def)

text \<open>The records that an operation writes do not start with a type that leaves the page alone.\<close>

lemma logs_first:
  assumes "logs_op n idt init m m'" "m_log m' = m_log m @ l" "l \<noteq> []" "n \<le> 2 ^ 16"
  shows "l ! 0 \<noteq> 0" "l ! 0 AND 0x70 \<noteq> FREE_PAGE"
proof -
  obtain type p off e where r: "m' = logs type idt p off e m" "log_record n type p off e" "length p + 21 \<le> n"
    using assms(1-3) by (auto simp: logs_op_def)
  have "l = header_bytes type idt True (length p) off m @ p" using assms(2) r(1) by (simp add: logs_def log_write_eq)
  then have "l ! 0 AND 0x70 = type" using logged_type(6) [OF r(2)] r(3) assms(4) by simp
  moreover have "type \<noteq> FREE_PAGE" "type \<noteq> 0" using logged_type(1) [OF r(2)] by (auto simp: record_types)
  ultimately show "l ! 0 \<noteq> 0" "l ! 0 AND 0x70 \<noteq> FREE_PAGE" by auto
qed

section \<open>One operation\<close>

text \<open>Pages of an uncompressed table, without forced recovery.\<close>

definition block_ok :: "block_env \<Rightarrow> bool" where
  "block_ok env \<longleftrightarrow> \<not> zipped env \<and> \<not> force_recovery env \<and> id_ok (block_id env)"

definition op_good :: "nat \<Rightarrow> page_id_t \<Rightarrow> page_op \<Rightarrow> byte list \<Rightarrow> bool" where
  "op_good n idt op page \<longleftrightarrow>
     op_ok idt op page \<and> op_parse_ok n op \<and> reads_ok n op \<and> length page = n \<and> 256 \<le> n \<and> n < 2 ^ 16"

lemma page_ok_block: "block_ok env \<Longrightarrow> length page \<le> 2 ^ 16 \<Longrightarrow> page_ok (block_id env) page"
  by (simp add: block_ok_def page_ok_def id_ok_def MLOG_DECODE_ERROR_def)

lemma op_runs:
  assumes env: "block_ok env" "block_id env = idt" and ok: "op_good n idt op q" and on: "m_logged m"
    and f: "follows idt (q, m) st" "applied st \<noteq> APPLIED_CORRUPTED"
    and run: "run_op idt op (q, m) = (q', m')" "m_log m' = m_log m @ l" "l \<noteq> []"
  shows "\<exists>st'. runs env l st st' \<and> changed st' \<and> follows idt (q', m') st'"
proof -
  have z: "\<not> zipped env" "\<not> force_recovery env" using env(1) by (simp_all add: block_ok_def)
  have n: "op_ok idt op q" "op_parse_ok n op" "length q = n" "256 \<le> n" "n < 2 ^ 16" using ok by (simp_all add: op_good_def)
  have "page_ok idt q" using page_ok_block [OF env(1), of q] env(2) n(3,5) by simp
  from replay_op [OF this f(1) on env(2) z(1) n(1)] obtain rec st' where
    st': "m_log m' = m_log m @ rec" "follows idt (q', m') st'" "runs env rec st st'"
    unfolding replays_def runs_def run(1) by auto
  then have l: "runs env l st st'" using run(2) by simp
  have "logs_op n idt (op = Init_Page) m m'" using op_logs [OF n(1-5) on] run(1) by simp
  note first = logs_first [OF this run(2,3)]
  have "\<not> log_corrupted st'" using st'(2) by (simp add: follows_def)
  from runs_changed [OF l z(2) this f(2) run(3)] first n(5) show ?thesis using l st'(2) by auto
qed

lemma recovers_op:
  assumes rec: "recovers env old q page m" and env: "block_ok env" "block_id env = idt"
    and ok: "op_good n idt op page" and on: "m_logged m"
    and run: "run_op idt op (page, m) = (page', m')" "m_log m' = m_log m @ l" "l \<noteq> []"
    and add: "snippet_added k k' l old new"
  shows "recovers env new q page' m'"
  unfolding recovers_def
proof
  fix offset
  obtain st1 where st1: "snips_run env old (recv_start offset q) st1" "same_image page (frame st1)" "follows idt (frame st1, m) st1"
    using rec env(2) unfolding recovers_def by blast
  have n: "256 \<le> length page" "op_ok idt op page" "reads_ok (length page) op" using ok by (simp_all add: op_good_def)
  note img = image_op [OF st1(2) n, of m]
  have q: "op_good n idt op (frame st1)"
    using ok image_op_ok [OF st1(2) n] same_image_length [OF st1(2)] by (simp add: op_good_def)
  obtain f' where run': "run_op idt op (frame st1, m) = (f', m')" "same_image page' f'"
    using img run(1) by (cases "run_op idt op (frame st1, m)") auto
  have step: "\<exists>st2. runs env l (st1\<lparr>applied := a\<rparr>) st2 \<and> changed st2 \<and> \<not> log_corrupted st2 \<and>
      (same_image page' (frame st2) \<and> follows idt (frame st2, m') st2)" if "a \<noteq> APPLIED_CORRUPTED" for a
  proof -
    have "follows idt (frame st1, m) (st1\<lparr>applied := a\<rparr>)" using st1(3) by (simp add: follows_def)
    from op_runs [OF env q on this _ run'(1) run(2,3)] that obtain st2 where
      st2: "runs env l (st1\<lparr>applied := a\<rparr>) st2" "changed st2" "follows idt (f', m') st2" by auto
    then have "frame st2 = f'" "\<not> log_corrupted st2" by (simp_all add: follows_def)
    then show ?thesis using st2 run'(2) by blast
  qed
  from snips_run_added [OF st1(1) add step] env(2)
  show "\<exists>st. snips_run env new (recv_start offset q) st \<and> same_image page' (frame st) \<and> follows (block_id env) (frame st, m') st"
    by blast
qed

text \<open>Initializing a page makes what was before irrelevant.\<close>

lemma recovers_init:
  assumes env: "block_ok env" "block_id env = idt" and ok: "op_good n idt Init_Page page" and on: "m_logged m"
    and run: "run_op idt Init_Page (page, m) = (page', m')" "m_log m' = m_log m @ l" "l \<noteq> []"
    and q: "length q = n" and new: "recs s = l"
  shows "recovers env [s] q page' m'"
  unfolding recovers_def
proof
  fix offset
  let ?m = "m\<lparr>m_last := None\<rparr>" and ?st = "recv_start offset q"
  have "mtr_init idt ?m = mtr_init idt m"
    using on by (simp add: mtr_init_def log_write_eq header_bytes_def header_body_def rel_page_def Let_def)
  then have run': "run_op idt Init_Page (q, ?m) = (page', m')"
    using run(1) q ok by (auto simp: fsp_init_file_page_def fsp_apply_init_file_page_def op_good_def)
  have "follows idt (q, ?m) ?st" "applied ?st \<noteq> APPLIED_CORRUPTED" by (simp_all add: follows_def recv_start_def)
  moreover have "op_good n idt Init_Page q" using ok q by (simp add: op_good_def)
  ultimately obtain st' where st': "runs env l ?st st'" "changed st'" "follows idt (page', m') st'"
    using op_runs [OF env _ _ _ _ run', of n ?st l] on run(2,3) by auto
  have "?st\<lparr>applied := APPLIED_NO\<rparr> = ?st" by (simp add: recv_start_def)
  then have "snips_run env [s] ?st st'" using st' new by (simp add: follows_def)
  moreover have "same_image page' (frame st')" "follows idt (frame st', m') st'" using st'(3) by (simp_all add: follows_def)
  ultimately show "\<exists>st. snips_run env [s] ?st st \<and> same_image page' (frame st) \<and> follows (block_id env) (frame st, m') st"
    using env(2) by blast
qed

section \<open>The snippets of a page\<close>

text \<open>
  A page that was initialized is recovered without regard to the file. Otherwise, \<open>q\<close> is the image in the file, and
  the snippets since its LSN \<open>n0\<close> recover it.
\<close>

definition page_inv :: "block_env \<Rightarrow> nat \<Rightarrow> nat \<Rightarrow> byte list \<Rightarrow> recv_sys_t \<Rightarrow> byte list \<Rightarrow> mtr_t \<Rightarrow> bool" where
  "page_inv env n n0 q st page m \<longleftrightarrow>
     (let idt = block_id env; xs = page_recs st idt
      in if skipped st idt
         then xs \<noteq> [] \<and> (\<forall>q. length q = n \<longrightarrow> recovers env xs q page m) \<and>
              (\<exists>k. mlog_init st idt = Some k \<and> (\<forall>s \<in> set xs. k \<le> start_lsn_of s))
         else recovers env (filter (\<lambda>s. n0 \<le> start_lsn_of s) xs) q page m)"

definition lsns :: "recv_sys_t \<Rightarrow> page_id_t \<Rightarrow> (nat \<times> nat) set" where
  "lsns st idt = (\<lambda>s. (start_lsn_of s, lsn_of s)) ` set (page_recs st idt)"

text \<open>From one state to a later one of the same mini-transaction; \<open>t\<close> is whether it has logged something for the page.\<close>

definition page_rel :: "block_env \<Rightarrow> nat \<Rightarrow> recv_sys_t \<Rightarrow> recv_sys_t \<Rightarrow> byte list \<Rightarrow> byte list \<Rightarrow> mtr_t \<Rightarrow> mtr_t \<Rightarrow> bool \<Rightarrow> bool" where
  "page_rel env n st st' page page' m m' t \<longleftrightarrow>
     (\<forall>n0 q. n0 \<le> start_lsn st \<longrightarrow> page_inv env n n0 q st page m \<longrightarrow> page_inv env n n0 q st' page' m') \<and>
     start_lsn st' = start_lsn st \<and> lsn st' = lsn st \<and>
     (if t
      then page_recs st' (block_id env) \<noteq> [] \<and> start_lsn_of (last (page_recs st' (block_id env))) = start_lsn st \<and>
           lsn_of (last (page_recs st' (block_id env))) = lsn st \<and>
           lsns st' (block_id env) \<subseteq> insert (start_lsn st, lsn st) (lsns st (block_id env))
      else recv_pages st' (block_id env) = recv_pages st (block_id env) \<and> page' = page)"

lemma page_inv_same:
  "recv_pages st' (block_id env) = recv_pages st (block_id env) \<Longrightarrow> mlog_init st' (block_id env) = mlog_init st (block_id env) \<Longrightarrow>
   page_inv env n n0 q st' page m = page_inv env n n0 q st page m"
  by (simp add: page_inv_def page_recs_def skipped_def)

lemma page_inv_recovers:
  assumes "page_inv env n n0 q st page m" "\<And>xs q. recovers env xs q page m \<Longrightarrow> recovers env xs q page' m'"
  shows "page_inv env n n0 q st page' m'"
  using assms by (auto simp: page_inv_def Let_def split: if_splits)

lemma same_page_recs:
  "recv_pages st' idt = recv_pages st idt \<Longrightarrow> page_recs st' idt = page_recs st idt \<and> lsns st' idt = lsns st idt"
  by (simp add: page_recs_def lsns_def)

lemma page_rel_trans:
  assumes "page_rel env n st st1 page page1 m m1 t1" "page_rel env n st1 st2 page1 page2 m1 m2 t2"
  shows "page_rel env n st st2 page page2 m m2 (t1 \<or> t2)"
  using assms by (cases t1; cases t2) (auto simp: page_rel_def dest!: same_page_recs)

lemma snippet_added_filter:
  assumes "snippet_added k k' l old new" "n0 \<le> k"
  shows "snippet_added k k' l (filter (\<lambda>s. n0 \<le> start_lsn_of s) old) (filter (\<lambda>s. n0 \<le> start_lsn_of s) new)"
  using assms(1) [unfolded snippet_added_def]
proof (elim disjE conjE)
  assume old: "old \<noteq> []" "start_lsn_of (last old) = k" "lsn_of (last old) = k'" "new = butlast old @ [(last old)\<lparr>recs := recs (last old) @ l\<rparr>]"
  then obtain xs x where "old = xs @ [x]" by (metis append_butlast_last_id)
  then show "snippet_added k k' l (filter (\<lambda>s. n0 \<le> start_lsn_of s) old) (filter (\<lambda>s. n0 \<le> start_lsn_of s) new)"
    using old assms(2) by (simp add: snippet_added_def)
qed (use assms(2) in \<open>simp add: snippet_added_def\<close>)

lemma snippet_added_lsns:
  assumes "snippet_added k k' l old new"
  shows "new \<noteq> []" "start_lsn_of (last new) = k" "lsn_of (last new) = k'"
    "\<And>s. s \<in> set new \<Longrightarrow> (start_lsn_of s, lsn_of s) = (k, k') \<or> s \<in> set old"
  using assms by (auto simp: snippet_added_def dest: in_set_butlastD)

lemma page_inv_op:
  assumes inv: "page_inv env n n0 q st page m" and env: "block_ok env" "block_id env = idt"
    and ok: "op_good n idt op page" "m_logged m" "n0 \<le> start_lsn st" "\<And>k. mlog_init st idt = Some k \<Longrightarrow> k \<le> start_lsn st"
    and run: "run_op idt op (page, m) = (page', m')" "m_log m' = m_log m @ l" "l \<noteq> []"
    and add: "adds idt (op = Init_Page) l st st'"
  shows "page_inv env n n0 q st' page' m'"
proof (cases "op = Init_Page")
  case True
  then have st': "skipped st' idt" "page_recs st' idt = [\<lparr>start_lsn_of = start_lsn st, lsn_of = lsn st, recs = l\<rparr>]"
    "mlog_init st' idt = Some (start_lsn st)"
    using add by (auto simp: adds_def snippet_added_def)
  have "recovers env (page_recs st' idt) q page' m'" if "length q = n" for q
    unfolding st'(2) using recovers_init [OF env _ ok(2) _ run(2,3) that] ok(1) run(1) True by simp
  then show ?thesis using st' env(2) by (simp add: page_inv_def)
next
  case False
  then have st': "skipped st' idt = skipped st idt" "snippet_added (start_lsn st) (lsn st) l (page_recs st idt) (page_recs st' idt)"
    "mlog_init st' idt = mlog_init st idt" using add by (auto simp: adds_def)
  note step = recovers_op [OF _ env ok(1,2) run]
  show ?thesis
  proof (cases "skipped st idt")
    case True
    then obtain k where k: "mlog_init st idt = Some k" "\<forall>s \<in> set (page_recs st idt). k \<le> start_lsn_of s"
      and all: "\<And>q. length q = n \<Longrightarrow> recovers env (page_recs st idt) q page m"
      using inv env(2) by (auto simp: page_inv_def Let_def)
    have "\<forall>s \<in> set (page_recs st' idt). k \<le> start_lsn_of s"
      using snippet_added_lsns(4) [OF st'(2)] k ok(4) [OF k(1)] by fastforce
    then show ?thesis
      using True st' k(1) env(2) step [OF all st'(2)] snippet_added_lsns(1) [OF st'(2)] by (auto simp: page_inv_def)
  next
    case False
    then show ?thesis
      using inv st' env(2) step [OF _ snippet_added_filter [OF st'(2) ok(3)]] by (simp add: page_inv_def)
  qed
qed

section \<open>A mini-transaction\<close>

lemma page_rel_refl: "page_rel env n st st page page m m False"
  by (simp add: page_rel_def)

lemma page_rel_other:
  assumes "adds idt init l st st'" "block_id env \<noteq> idt" "logs_for idt m m'"
  shows "page_rel env n st st' page page m m' False"
proof -
  have same: "recv_pages st' (block_id env) = recv_pages st (block_id env)" "mlog_init st' (block_id env) = mlog_init st (block_id env)"
    "start_lsn st' = start_lsn st" "lsn st' = lsn st"
    using assms(1,2) by (auto simp: adds_def)
  have "page_inv env n n0 q st' page m'" if "page_inv env n n0 q st page m" for n0 q
    unfolding page_inv_same [OF same(1,2)]
    by (rule page_inv_recovers [OF that]) (use recovers_other assms(2,3) in blast)
  then show ?thesis using same by (simp add: page_rel_def)
qed

lemma page_rel_op:
  assumes env: "block_ok env" "block_id env = idt" and st: "recv_ok renv ids st"
    and ok: "op_good n idt op page" "m_logged m" and run: "run_op idt op (page, m) = (page', m')" "m_log m' = m_log m @ l" "l \<noteq> []"
    and add: "adds idt (op = Init_Page) l st st'"
  shows "page_rel env n st st' page page' m m' True"
proof -
  have init: "k \<le> start_lsn st" if "mlog_init st idt = Some k" for k using st that by (auto simp: recv_ok_def)
  have new: "snippet_added (start_lsn st) (lsn st) l (if op = Init_Page then [] else page_recs st idt) (page_recs st' idt)"
    "start_lsn st' = start_lsn st" "lsn st' = lsn st" using add by (simp_all add: adds_def)
  have "lsns st' idt \<subseteq> insert (start_lsn st, lsn st) (lsns st idt)"
    using snippet_added_lsns(4) [OF new(1)] by (fastforce simp: lsns_def split: if_splits)
  then show ?thesis
    using page_inv_op [OF _ env ok _ init run add] new snippet_added_lsns(1-3) [OF new(1)] env(2) by (simp add: page_rel_def)
qed

lemma parse_op:
  assumes renv: "\<not> if_exists renv" "srv_page_size renv = n"
    and st: "recv_ok renv ids st" "parse_sync m v" "m_logged m" and ok: "idt \<in> ids" "op_good n idt op (pages idt)"
    and run: "run_op idt op (pages idt, m) = (page', m')"
  shows "\<exists>rec. m_log m' = m_log m @ rec \<and>
    (\<forall>r. \<exists>v' st'. parse_records renv (rec @ r) v st = parse_records renv r v' st' \<and> parse_sync m' v' \<and> recv_ok renv ids st' \<and>
       (\<forall>idt. idt \<notin> ids \<longrightarrow> recv_pages st' idt = recv_pages st idt) \<and>
       (\<forall>env. block_ok env \<longrightarrow>
          page_rel env n st st' (pages (block_id env)) ((pages(idt := page')) (block_id env)) m m' (block_id env = idt \<and> rec \<noteq> [])))"
proof -
  have n: "op_ok idt op (pages idt)" "op_parse_ok n op" "length (pages idt) = n" "256 \<le> n" "n < 2 ^ 16"
    using ok(2) by (simp_all add: op_good_def)
  have lo: "logs_op n idt (op = Init_Page) m m'" using op_logs [OF n st(3)] run by simp
  have lf: "logs_for idt m m'" using logs_for_op [of idt m op "pages idt"] run by simp
  have "parses renv ids idt (op = Init_Page) m m' v st"
    using parses_op [OF st(1) renv(1) ok(1) st(2)] lo renv(2) n(5) by simp
  then obtain rec where rec: "m_log m' = m_log m @ rec"
    "\<And>r. \<exists>v' st'. parse_records renv (rec @ r) v st = parse_records renv r v' st' \<and> parse_sync m' v' \<and> recv_ok renv ids st' \<and>
       (if m' = m then st' = st else adds idt (op = Init_Page) rec st st')"
    unfolding parses_def by blast
  have same: "m' = m \<longleftrightarrow> rec = []"
    using lo rec(1) header_not_Nil by (auto simp: logs_op_def logs_def log_write_eq)
  have rel: "page_rel env n st st' (pages (block_id env)) ((pages(idt := page')) (block_id env)) m m' (block_id env = idt \<and> rec \<noteq> [])"
    if env: "block_ok env" and st': "if m' = m then st' = st else adds idt (op = Init_Page) rec st st'" for env st'
  proof (cases "m' = m")
    case True
    then have "page' = pages idt" using op_unlogged [OF st(3) n(1)] ok(2) run by (simp add: op_good_def)
    then show ?thesis using True same st' page_rel_refl by simp
  next
    case False
    then show ?thesis
      using same st' page_rel_op [OF env _ st(1) ok(2) st(3) run rec(1)] page_rel_other [OF _ _ lf]
      by (cases "block_id env = idt") auto
  qed
  have out: "recv_pages st' idt' = recv_pages st idt'"
    if "idt' \<notin> ids" "if m' = m then st' = st else adds idt (op = Init_Page) rec st st'" for idt' st'
    using that ok(1) by (auto simp: adds_def split: if_splits)
  show ?thesis using rec rel out by blast
qed

fun mtr_good :: "nat \<Rightarrow> page_id_t set \<Rightarrow> (page_id_t \<times> page_op) list \<Rightarrow> pages \<times> mtr_t \<Rightarrow> bool" where
  "mtr_good n ids [] s \<longleftrightarrow> True"
| "mtr_good n ids (x # xs) s \<longleftrightarrow>
     fst x \<in> ids \<and> op_good n (fst x) (snd x) (fst s (fst x)) \<and> mtr_good n ids xs (mtr_step x s)"

lemma parse_mtr:
  assumes renv: "\<not> if_exists renv" "srv_page_size renv = n"
  shows "\<lbrakk>recv_ok renv ids st; parse_sync m v; m_logged m; mtr_good n ids xs (pages, m)\<rbrakk> \<Longrightarrow>
    \<exists>rec. m_log (snd (fold mtr_step xs (pages, m))) = m_log m @ rec \<and>
      (\<forall>r. \<exists>v' st'. parse_records renv (rec @ r) v st = parse_records renv r v' st' \<and> recv_ok renv ids st' \<and>
         (\<forall>idt. idt \<notin> ids \<longrightarrow> recv_pages st' idt = recv_pages st idt) \<and>
         (\<forall>env. block_ok env \<longrightarrow>
            page_rel env n st st' (pages (block_id env)) (fst (fold mtr_step xs (pages, m)) (block_id env)) m
              (snd (fold mtr_step xs (pages, m))) (page_log (block_id env) xs (pages, m) \<noteq> [])))"
proof (induction xs arbitrary: pages m v st)
  case Nil
  then show ?case by (intro exI [of _ "[]"]) (simp, metis page_rel_refl)
next
  case (Cons x xs)
  obtain page1 m1 where run: "run_op (fst x) (snd x) (pages (fst x), m) = (page1, m1)" by fastforce
  let ?pages1 = "pages(fst x := page1)"
  have s1: "mtr_step x (pages, m) = (?pages1, m1)" using run by (simp add: mtr_step_eq)
  have good: "fst x \<in> ids" "op_good n (fst x) (snd x) (pages (fst x))" "mtr_good n ids xs (?pages1, m1)"
    using Cons.prems(4) s1 by simp_all
  have on: "m_logged m1" using logged_step [of x pages m] s1 Cons.prems(3) by simp
  obtain rec where rec: "m_log m1 = m_log m @ rec"
    "\<And>r. \<exists>v1 st1. parse_records renv (rec @ r) v st = parse_records renv r v1 st1 \<and> parse_sync m1 v1 \<and> recv_ok renv ids st1 \<and>
       (\<forall>idt. idt \<notin> ids \<longrightarrow> recv_pages st1 idt = recv_pages st idt) \<and>
       (\<forall>env. block_ok env \<longrightarrow>
          page_rel env n st st1 (pages (block_id env)) (?pages1 (block_id env)) m m1 (block_id env = fst x \<and> rec \<noteq> []))"
    using parse_op [OF renv Cons.prems(1-3) good(1), of "snd x" pages page1 m1] good(2) run by blast
  let ?s2 = "fold mtr_step xs (?pages1, m1)"
  define rec2 where "rec2 = drop (length (m_log m1)) (m_log (snd ?s2))"
  have step: "m_log (snd ?s2) = m_log m1 @ rec2 \<and>
    (\<exists>v' st'. parse_records renv ((rec @ rec2) @ r) v st = parse_records renv r v' st' \<and> recv_ok renv ids st' \<and>
       (\<forall>idt. idt \<notin> ids \<longrightarrow> recv_pages st' idt = recv_pages st idt) \<and>
       (\<forall>env. block_ok env \<longrightarrow>
          page_rel env n st st' (pages (block_id env)) (fst ?s2 (block_id env)) m (snd ?s2)
            (page_log (block_id env) (x # xs) (pages, m) \<noteq> [])))" for r
  proof -
    obtain v1 st1 where st1: "parse_records renv (rec @ rec2 @ r) v st = parse_records renv (rec2 @ r) v1 st1"
      "parse_sync m1 v1" "recv_ok renv ids st1" "\<And>idt. idt \<notin> ids \<Longrightarrow> recv_pages st1 idt = recv_pages st idt"
      "\<And>env. block_ok env \<Longrightarrow>
          page_rel env n st st1 (pages (block_id env)) (?pages1 (block_id env)) m m1 (block_id env = fst x \<and> rec \<noteq> [])"
      using rec(2) [of "rec2 @ r"] by blast
    obtain rec3 where rec3: "m_log (snd ?s2) = m_log m1 @ rec3"
      "\<exists>v' st'. parse_records renv (rec3 @ r) v1 st1 = parse_records renv r v' st' \<and> recv_ok renv ids st' \<and>
         (\<forall>idt. idt \<notin> ids \<longrightarrow> recv_pages st' idt = recv_pages st1 idt) \<and>
         (\<forall>env. block_ok env \<longrightarrow> page_rel env n st1 st' (?pages1 (block_id env)) (fst ?s2 (block_id env)) m1 (snd ?s2)
            (page_log (block_id env) xs (?pages1, m1) \<noteq> []))"
      using Cons.IH [OF st1(3,2) on good(3)] by blast
    have eq: "rec3 = rec2" using rec3(1) by (simp add: rec2_def)
    obtain v' st' where st': "parse_records renv (rec2 @ r) v1 st1 = parse_records renv r v' st'" "recv_ok renv ids st'"
      "\<And>idt. idt \<notin> ids \<Longrightarrow> recv_pages st' idt = recv_pages st1 idt"
      "\<And>env. block_ok env \<Longrightarrow> page_rel env n st1 st' (?pages1 (block_id env)) (fst ?s2 (block_id env)) m1 (snd ?s2)
         (page_log (block_id env) xs (?pages1, m1) \<noteq> [])"
      using rec3(2) unfolding eq by blast
    have t: "(page_log idt (x # xs) (pages, m) \<noteq> []) = ((idt = fst x \<and> rec \<noteq> []) \<or> page_log idt xs (?pages1, m1) \<noteq> [])" for idt
      using s1 rec(1) by auto
    have "page_rel env n st st' (pages (block_id env)) (fst ?s2 (block_id env)) m (snd ?s2)
        (page_log (block_id env) (x # xs) (pages, m) \<noteq> [])" if "block_ok env" for env
      unfolding t by (rule page_rel_trans [OF st1(5) [OF that] st'(4) [OF that]])
    then show ?thesis
      using rec3(1) eq st1(1,4) st'(1-3)
      by (intro conjI exI [of _ v'] exI [of _ st'] allI impI) (simp_all del: page_log.simps)
  qed
  have "m_log (snd (fold mtr_step (x # xs) (pages, m))) = m_log m @ rec @ rec2" using step rec(1) s1 by simp
  then show ?case using step s1 by (intro exI [of _ "rec @ rec2"]) (simp del: page_log.simps)
qed

end
