(* ===== verification/Redo_Scan.thy ===== *)
theory Redo_Scan
  imports Redo_Follow
begin

text \<open>
  The log as a sequence of mini-transactions: how one is written (\<open>mtr_t::crc32c\<close> and
  \<open>mtr_t::finish_writer\<close> in \<open>src/storage/innobase/mtr/mtr0mtr.cc\<close>), and how
  recovery finds and checks it (\<open>log_parse_start\<close>, \<open>recv_sys_t::parse\<close> and the
  loop of \<open>recv_scan_log\<close> in \<open>src/storage/innobase/log/log0recv.cc\<close>), for an unencrypted log
  that is read into a buffer that does not wrap around.
\<close>

unbundle bit_operations_syntax

section \<open>Writing\<close>

record log_t =
  first_lsn :: nat
  log_capacity :: nat
  log_crc32c :: "nat \<Rightarrow> byte list \<Rightarrow> nat"

definition get_sequence_bit :: "log_t \<Rightarrow> nat \<Rightarrow> byte" where
  "get_sequence_bit lg n = (if ((n - first_lsn lg) div log_capacity lg) AND 1 = 0 then 1 else 0)"

definition mtr_crc32c :: "log_t \<Rightarrow> mtr_t \<Rightarrow> nat \<times> nat" where
  "mtr_crc32c lg m = (log_crc32c lg 0 (m_log m), 5 + length (m_log m))"

text \<open>The bytes that are appended to the log at the LSN \<open>start\<close>, and the LSN after them.\<close>

definition finish_writer :: "log_t \<Rightarrow> nat \<Rightarrow> mtr_t \<Rightarrow> byte list \<times> nat" where
  "finish_writer lg start m =
     (case mtr_crc32c lg m of (crc, len) \<Rightarrow>
        (m_log m @ get_sequence_bit lg (start + len - 5) # mach_write_to_4 crc, start + len))"

section \<open>Reading\<close>

definition MTR_SIZE_MAX :: nat where "MTR_SIZE_MAX = 2 ^ 20"

text \<open>The loop over the records, up to the end marker; \<open>total_len\<close> is the length of the records so far.\<close>

function find_end :: "byte list \<Rightarrow> nat \<Rightarrow> parse_mtr_result \<times> byte list" where
  "find_end l total_len =
     (if l = [] then (PREMATURE_EOF, l)
      else if total_len \<ge> MTR_SIZE_MAX then (GOT_EOF, l)
      else if l ! 0 \<le> 1 then (OK, l)
      else let rlen = unat (l ! 0 AND 0xF); l = drop 1 l
           in if rlen \<noteq> 0 then find_end (drop rlen l) (total_len + rlen)
              else if l = [] then (PREMATURE_EOF, l)
              else if length l \<le> mlog_decode_varint_length (l ! 0) then (PREMATURE_EOF, l)
              else let addlen = mlog_decode_varint l
                   in if addlen \<ge> MTR_SIZE_MAX then (GOT_EOF, l)
                      else find_end (drop (addlen + 15) l) (total_len + (addlen + 15)))"
  by pat_completeness auto
termination by (relation "measure (\<lambda>(l, total_len). length l)") (auto simp: not_less)

declare find_end.simps [simp del]

text \<open>The log from the start of a mini-transaction at the LSN \<open>n\<close>; the second result is what follows the records.\<close>

definition log_parse_start :: "log_t \<Rightarrow> nat \<Rightarrow> byte list \<Rightarrow> parse_mtr_result \<times> byte list" where
  "log_parse_start lg n buf =
     (if buf = [] then (PREMATURE_EOF, buf)
      else if buf ! 0 \<le> 1 then (GOT_EOF, buf)
      else case find_end buf 0 of
             (OK, l) \<Rightarrow>
               let s = length buf - length l
               in if l ! 0 \<noteq> get_sequence_bit lg (s + n) then (GOT_EOF, l)
                  else if length l \<le> 5 then (PREMATURE_EOF, l)
                  else if log_crc32c lg 0 (take s buf) = mach_read_from_4 (drop 1 l) then (OK, l) else (GOT_EOF, l)
           | r \<Rightarrow> r)"

definition recv_parse ::
  "recv_env \<Rightarrow> log_t \<Rightarrow> byte list \<Rightarrow> recv_sys_t \<Rightarrow> parse_mtr_result \<times> byte list \<times> recv_sys_t" where
  "recv_parse env lg buf st =
     (case log_parse_start lg (lsn st) buf of
        (OK, l) \<Rightarrow>
          let s = length buf - length l
          in case parse_tail env buf (s + 5) st of (r, st') \<Rightarrow> (r, drop (s + 5) buf, st')
      | (r, l) \<Rightarrow> (r, buf, st))"

lemma recv_parse_shorter: "recv_parse env lg buf st = (OK, rest, st') \<Longrightarrow> length rest < length buf"
  by (cases buf) (auto simp: recv_parse_def log_parse_start_def Let_def split: prod.splits parse_mtr_result.splits)

text \<open>As long as there are mini-transactions.\<close>

function recv_scan ::
  "recv_env \<Rightarrow> log_t \<Rightarrow> byte list \<Rightarrow> recv_sys_t \<Rightarrow> parse_mtr_result \<times> byte list \<times> recv_sys_t" where
  "recv_scan env lg buf st =
     (case recv_parse env lg buf st of
        (OK, rest, st') \<Rightarrow> recv_scan env lg rest st'
      | r \<Rightarrow> r)"
  by pat_completeness auto
termination
  by (relation "measure (\<lambda>(env, lg, buf, st). length buf)") (auto dest: recv_parse_shorter [OF sym])

declare recv_scan.simps [simp del]

section \<open>Finding what was written\<close>

definition scans :: "byte list \<Rightarrow> bool" where
  "scans l \<longleftrightarrow>
     (\<forall>r n. r \<noteq> [] \<longrightarrow> n + length l < MTR_SIZE_MAX \<longrightarrow> (\<exists>n'. n' \<le> n + length l \<and> find_end (l @ r) n = find_end r n'))"

lemma scans_Nil: "scans []"
  by (auto simp: scans_def)

lemma scans_append:
  assumes "scans k" "scans l"
  shows "scans (k @ l)"
  unfolding scans_def
proof (intro allI impI)
  fix r :: "byte list" and n assume r: "r \<noteq> []" "n + length (k @ l) < MTR_SIZE_MAX"
  then obtain n1 where n1: "n1 \<le> n + length k" "find_end (k @ l @ r) n = find_end (l @ r) n1"
    using assms(1) [unfolded scans_def, rule_format, of "l @ r" n] by auto
  then obtain n2 where "n2 \<le> n1 + length l" "find_end (l @ r) n1 = find_end r n2"
    using assms(2) [unfolded scans_def, rule_format, of r n1] r by auto
  then show "\<exists>n'. n' \<le> n + length (k @ l) \<and> find_end ((k @ l) @ r) n = find_end r n'"
    using n1 by (intro exI [of _ n2]) simp
qed

lemma find_end_short:
  assumes "b AND 0xF = byte_of k" "0 < k" "k < 16" "\<not> b \<le> 1" "n < MTR_SIZE_MAX" "length l = k"
  shows "find_end ((b # l) @ r) n = find_end r (n + k)"
proof -
  have "unat (b AND 0xF) = k" using assms(1,3) by (simp add: unat_byte_of)
  then show ?thesis using assms by (subst find_end.simps) simp
qed

lemma find_end_long:
  assumes "b AND 0xF = 0" "\<not> b \<le> 1" "n < MTR_SIZE_MAX" "k < MTR_SIZE_MAX"
    and "length (mlog_encode_varint k) + length l = k + 15" "r \<noteq> []"
  shows "find_end ((b # mlog_encode_varint k @ l) @ r) n = find_end r (n + (k + 15))"
proof -
  have "k < 2 ^ 32" using assms(4) by (simp add: MTR_SIZE_MAX_def)
  note v = varint_round_trip [OF this, of "l @ r"]
  have r: "0 < length r" "0 < length (mlog_encode_varint k)" using assms(6) length_varint(3) [of k] by auto
  have "drop (k + 15) (mlog_encode_varint k @ l @ r) = r" using assms(5) by (simp flip: assms(5))
  then show ?thesis
    using assms(1-4) v r by (subst find_end.simps) (auto simp: Let_def encode_varint_not_Nil)
qed

lemma logged_form:
  assumes r: "log_record n type p off e" and size: "length p + 21 \<le> n" "n \<le> 2 ^ 16"
  obtains (long) i b l where "header_bytes type idt True (length p) off m @ p = b # mlog_encode_varint i @ l" "b AND 0xF = 0"
      "\<not> b \<le> 1" "i < MTR_SIZE_MAX" "length (mlog_encode_varint i) + length l = i + 15"
    | (short) b l where "header_bytes type idt True (length p) off m @ p = b # l" "b AND 0xF = byte_of (length l)"
      "0 < length l" "length l < 16" "\<not> b \<le> 1"
proof -
  let ?body = "header_body type idt True off m"
  note t = logged_type [OF r]
  have ty: "type \<in> log_types" "type = INIT_PAGE \<or> type = FREE_PAGE \<Longrightarrow> length p = 0" "type \<noteq> 0"
    using t(1,2) by (auto simp: log_types_def record_types)
  have lp: "length p < 2 ^ 18" using size by simp
  have gt: "\<not> b \<le> 1" if "b AND 0x70 = type" for b using byte_le_1 [of b] that ty(3) by auto
  show ?thesis
  proof (cases rule: header_form [OF ty(1) lp t(5) [of idt m] ty(2), case_names none long short])
    case none
    then show ?case by assumption
  next
    case (long i b)
    have len: "length (mlog_encode_varint i) + length (?body @ p) = i + 15"
      using long(5) length_varint(2) [of i] by simp
    have "i < MTR_SIZE_MAX"
      using len length_varint(2) [of i] header_body_length(1) [of type idt True off m] lp by (simp add: MTR_SIZE_MAX_def)
    then show ?thesis using that(1) [of b i "?body @ p"] long(1,2) gt [OF long(6)] len by simp
  next
    case (short b)
    then show ?thesis using that(2) [of b "?body @ p"] gt [OF short(6)] by simp
  qed
qed

lemma scans_record:
  assumes "log_record n type p off e" "length p + 21 \<le> n" "n \<le> 2 ^ 16"
  shows "scans (header_bytes type idt True (length p) off m @ p)"
proof (cases rule: logged_form [OF assms, of idt m, case_names long short])
  case (long i b l)
  show ?thesis
    unfolding scans_def long(1)
  proof (intro allI impI)
    fix r :: "byte list" and k assume "r \<noteq> []" "k + length (b # mlog_encode_varint i @ l) < MTR_SIZE_MAX"
    then show "\<exists>n'. n' \<le> k + length (b # mlog_encode_varint i @ l) \<and> find_end ((b # mlog_encode_varint i @ l) @ r) k = find_end r n'"
      using find_end_long [OF long(2,3) _ long(4,5), of k r] long(5) by (intro exI [of _ "k + (i + 15)"]) simp
  qed
next
  case (short b l)
  show ?thesis
    unfolding scans_def short(1)
  proof (intro allI impI)
    fix r :: "byte list" and k assume "k + length (b # l) < MTR_SIZE_MAX"
    then show "\<exists>n'. n' \<le> k + length (b # l) \<and> find_end ((b # l) @ r) k = find_end r n'"
      using find_end_short [OF short(2-5), of k l r] by (intro exI [of _ "k + length l"]) simp
  qed
qed

text \<open>A buffer that ends within the records.\<close>

definition torn :: "byte list \<Rightarrow> bool" where
  "torn l \<longleftrightarrow> (\<forall>j n. n + length l < MTR_SIZE_MAX \<longrightarrow> fst (find_end (take j l) n) = PREMATURE_EOF)"

lemma find_end_Nil: "find_end [] n = (PREMATURE_EOF, [])"
  by (subst find_end.simps) simp

lemma torn_Nil: "torn []"
  by (simp add: torn_def find_end_Nil)

lemma torn_append:
  assumes "scans k" "torn k" "torn l"
  shows "torn (k @ l)"
  unfolding torn_def
proof (intro allI impI)
  fix j n assume n: "n + length (k @ l) < MTR_SIZE_MAX"
  show "fst (find_end (take j (k @ l)) n) = PREMATURE_EOF"
  proof (cases "take (j - length k) l = []")
    case True
    then have "take j (k @ l) = take j k" by simp
    then show ?thesis using assms(2) n unfolding torn_def by (metis add.assoc add_lessD1 length_append)
  next
    case False
    then have "take j (k @ l) = k @ take (j - length k) l" by simp
    then obtain n' where "n' \<le> n + length k" "find_end (take j (k @ l)) n = find_end (take (j - length k) l) n'"
      using assms(1) n False unfolding scans_def by (metis add.assoc add_lessD1 length_append)
    then show ?thesis using assms(3) n unfolding torn_def by auto
  qed
qed

lemma torn_short:
  assumes "b AND 0xF = byte_of k" "0 < k" "k < 16" "\<not> b \<le> 1" "length l = k"
  shows "torn (b # l)"
  unfolding torn_def
proof (intro allI impI)
  fix j n assume n: "n + length (b # l) < MTR_SIZE_MAX"
  have k: "unat (b AND 0xF) = k" using assms(1,3) by (simp add: unat_byte_of)
  show "fst (find_end (take j (b # l)) n) = PREMATURE_EOF"
  proof (cases j)
    case 0
    then show ?thesis by (simp add: find_end_Nil)
  next
    case (Suc i)
    then show ?thesis using k assms(2,4,5) n by (subst find_end.simps) (simp add: find_end_Nil)
  qed
qed

lemma torn_long:
  assumes "b AND 0xF = 0" "\<not> b \<le> 1" "k < MTR_SIZE_MAX" "length (mlog_encode_varint k) + length l = k + 15"
  shows "torn (b # mlog_encode_varint k @ l)"
  unfolding torn_def
proof (intro allI impI)
  let ?v = "mlog_encode_varint k"
  fix j n assume n: "n + length (b # ?v @ l) < MTR_SIZE_MAX"
  have k: "k < 2 ^ 32" using assms(3) by (simp add: MTR_SIZE_MAX_def)
  show "fst (find_end (take j (b # ?v @ l)) n) = PREMATURE_EOF"
  proof (cases j)
    case 0
    then show ?thesis by (simp add: find_end_Nil)
  next
    case (Suc i)
    let ?l = "take i (?v @ l)"
    have first: "mlog_decode_varint_length (?l ! 0) = length ?v" if "?l \<noteq> []"
    proof -
      have "?l ! 0 = (?v @ l) ! 0" using that by (cases i) (simp_all del: take_append)
      then show ?thesis using varint_round_trip(2) [OF k, of l] by simp
    qed
    have val: "mlog_decode_varint ?l = k" if "length ?v < length ?l"
    proof -
      have "?l = ?v @ take (i - length ?v) l" using that by simp
      then show ?thesis using varint_round_trip(1) [OF k] by simp
    qed
    have "drop (k + 15) ?l = []" using assms(4) by simp
    then show ?thesis
      using Suc assms(1-3) n first val by (subst find_end.simps) (auto simp: Let_def find_end_Nil)
  qed
qed

lemma torn_record:
  assumes "log_record n type p off e" "length p + 21 \<le> n" "n \<le> 2 ^ 16"
  shows "torn (header_bytes type idt True (length p) off m @ p)"
proof (cases rule: logged_form [OF assms, of idt m, case_names long short])
  case (long i b l)
  then show ?thesis using torn_long by simp
next
  case (short b l)
  then show ?thesis using torn_short by simp
qed

text \<open>The log of a mini-transaction is a sequence of records.\<close>

lemma mtr_scans:
  "mtr_good n ids xs (pages, m) \<Longrightarrow> m_logged m \<Longrightarrow>
   \<exists>rec. m_log (snd (fold mtr_step xs (pages, m))) = m_log m @ rec \<and> scans rec \<and> torn rec \<and> (rec \<noteq> [] \<longrightarrow> \<not> rec ! 0 \<le> 1)"
proof (induction xs arbitrary: pages m)
  case Nil
  then show ?case using scans_Nil torn_Nil by auto
next
  case (Cons x xs)
  obtain page1 m1 where run: "run_op (fst x) (snd x) (pages (fst x), m) = (page1, m1)" by fastforce
  have s1: "mtr_step x (pages, m) = (pages(fst x := page1), m1)" using run by (simp add: mtr_step_eq)
  have ok: "op_ok (fst x) (snd x) (pages (fst x))" "op_parse_ok n (snd x)" "length (pages (fst x)) = n" "256 \<le> n" "n < 2 ^ 16"
    using Cons.prems(1) by (simp_all add: op_good_def)
  have "logs_op n (fst x) (snd x = Init_Page) m m1" using op_logs [OF ok Cons.prems(2)] run by simp
  then obtain rec where rec: "m_log m1 = m_log m @ rec" "scans rec" "torn rec" "rec \<noteq> [] \<longrightarrow> \<not> rec ! 0 \<le> 1"
    unfolding logs_op_def
  proof (elim disjE conjE exE)
    assume "m1 = m"
    then show ?thesis using that [of "[]"] scans_Nil torn_Nil by simp
  next
    fix type p off e assume r: "m1 = logs type (fst x) p off e m" "log_record n type p off e" "length p + 21 \<le> n"
    let ?l = "header_bytes type (fst x) True (length p) off m @ p"
    have "?l ! 0 AND 0x70 = type" "type \<noteq> 0"
      using logged_type(6) [OF r(2)] logged_type(1) [OF r(2)] r(3) ok(5) by (auto simp: record_types)
    then have "\<not> ?l ! 0 \<le> 1" using byte_le_1 [of "?l ! 0"] by auto
    then show ?thesis using that [of ?l] r scans_record [OF r(2,3)] torn_record [OF r(2,3)] ok(5) by (simp add: logs_def log_write_eq)
  qed
  have "m_logged m1" "mtr_good n ids xs (pages(fst x := page1), m1)"
    using logged_step [of x pages m] s1 Cons.prems by simp_all
  then obtain rec2 where rec2: "m_log (snd (fold mtr_step xs (pages(fst x := page1), m1))) = m_log m1 @ rec2" "scans rec2"
    "torn rec2" "rec2 \<noteq> [] \<longrightarrow> \<not> rec2 ! 0 \<le> 1" using Cons.IH by blast
  show ?case
    using rec rec2 s1 scans_append [OF rec(2) rec2(2)] torn_append [OF rec(2,3) rec2(3)] by (intro exI [of _ "rec @ rec2"]) (auto simp: nth_append)
qed

text \<open>The checksum is a 32 bit number.\<close>

definition crc_ok :: "log_t \<Rightarrow> bool" where
  "crc_ok lg \<longleftrightarrow> (\<forall>c l. log_crc32c lg c l < 2 ^ 32)"

definition mtr_written :: "mtr_t \<Rightarrow> bool" where
  "mtr_written m \<longleftrightarrow> scans (m_log m) \<and> torn (m_log m) \<and> m_log m \<noteq> [] \<and> \<not> m_log m ! 0 \<le> 1 \<and> length (m_log m) + 5 < MTR_SIZE_MAX"

lemma find_end_marker: "l \<noteq> [] \<Longrightarrow> l ! 0 \<le> 1 \<Longrightarrow> n < MTR_SIZE_MAX \<Longrightarrow> find_end l n = (OK, l)"
  by (subst find_end.simps) simp

lemma sequence_bit_le: "get_sequence_bit lg n \<le> 1"
  by (simp add: get_sequence_bit_def)

lemma finish_writer_eq:
  "finish_writer lg n m =
     (m_log m @ get_sequence_bit lg (length (m_log m) + n) # mach_write_to_4 (log_crc32c lg 0 (m_log m)),
      n + length (m_log m) + 5)"
  by (simp add: finish_writer_def mtr_crc32c_def add.commute)

lemma find_end_written:
  assumes "mtr_written m" "b \<le> 1"
  shows "find_end (m_log m @ b # r) 0 = (OK, b # r)"
proof -
  obtain n where "n \<le> length (m_log m)" "find_end (m_log m @ b # r) 0 = find_end (b # r) n"
    using assms(1) unfolding mtr_written_def scans_def by (metis add_0 add_lessD1 list.distinct(1))
  then show ?thesis using find_end_marker [of "b # r" n] assms by (simp add: mtr_written_def)
qed

lemma log_parse_start_written:
  assumes m: "mtr_written m" and lg: "crc_ok lg" and r: "r \<noteq> []"
  shows "log_parse_start lg n (fst (finish_writer lg n m) @ r) =
    (OK, get_sequence_bit lg (length (m_log m) + n) # mach_write_to_4 (log_crc32c lg 0 (m_log m)) @ r)"
proof -
  let ?b = "get_sequence_bit lg (length (m_log m) + n)" and ?c = "mach_write_to_4 (log_crc32c lg 0 (m_log m))"
  have c: "mach_read_from_4 (?c @ r) = log_crc32c lg 0 (m_log m)" using lg by (simp add: crc_ok_def)
  have len: "length ?c = 4" "0 < length r" using r by (simp_all add: mach_write_to_4_def)
  have "(m_log m @ ?b # ?c @ r) ! 0 = m_log m ! 0" using m by (simp add: nth_append mtr_written_def)
  then show ?thesis
    using m c len find_end_written [OF m sequence_bit_le [of lg "length (m_log m) + n"], of "?c @ r"]
    by (simp add: log_parse_start_def finish_writer_eq mtr_written_def Let_def)
qed

lemma recv_parse_written:
  assumes m: "mtr_written m" "crc_ok lg" "r \<noteq> []"
    and st: "parse_tail env (fst (finish_writer lg (lsn st) m) @ r) (length (m_log m) + 5) st = (OK, st')"
  shows "recv_parse env lg (fst (finish_writer lg (lsn st) m) @ r) st = (OK, r, st')"
proof -
  have "length (mach_write_to_4 x) = 4" for x by (simp add: mach_write_to_4_def)
  then show ?thesis
    using log_parse_start_written [OF m, of "lsn st"] st by (simp add: recv_parse_def finish_writer_eq Let_def)
qed

text \<open>Whatever part of a mini-transaction was written, it is not taken for a complete one.\<close>

lemma log_parse_start_torn:
  assumes m: "mtr_written m"
  shows "fst (log_parse_start lg n (take j (fst (finish_writer lg n m)))) = PREMATURE_EOF"
proof -
  let ?l = "m_log m" and ?b = "get_sequence_bit lg (length (m_log m) + n)"
  let ?c = "mach_write_to_4 (log_crc32c lg 0 (m_log m))" and ?buf = "take j (fst (finish_writer lg n m))"
  have l: "?l \<noteq> []" "\<not> ?l ! 0 \<le> 1" "torn ?l" "length ?l < MTR_SIZE_MAX" using m by (auto simp: mtr_written_def)
  have first: "?buf \<noteq> [] \<Longrightarrow> ?buf ! 0 = ?l ! 0" using l(1) by (cases j) (simp_all add: finish_writer_eq nth_append)
  show ?thesis
  proof (cases "j \<le> length ?l")
    case True
    then have "?buf = take j ?l" by (simp add: finish_writer_eq)
    then have "fst (find_end ?buf 0) = PREMATURE_EOF" using l(3,4) by (simp add: torn_def)
    then show ?thesis using first l(2) by (auto simp: log_parse_start_def split: prod.split)
  next
    case False
    then obtain k where "j - length ?l = Suc k" by (metis diff_is_0_eq not0_implies_Suc)
    then have buf: "?buf = ?l @ ?b # take k ?c" by (simp add: finish_writer_eq)
    have "length (take k ?c) \<le> 4" by (simp add: mach_write_to_4_def)
    then show ?thesis
      using first l(2) find_end_written [OF m sequence_bit_le, of lg "length ?l + n" "take k ?c"] unfolding buf
      by (auto simp: log_parse_start_def Let_def)
  qed
qed

end
