(* ===== verification/Redo_Crash.thy ===== *)
theory Redo_Crash
  imports Redo_Scan
begin

text \<open>
  A history of mini-transactions that are committed (\<open>mtr_t::commit\<close> and \<open>mtr_t::commit_log\<close> in
  \<open>src/storage/innobase/mtr/mtr0mtr.cc\<close>), and the invariant that relates it to the state of
  recovery after the log was read up to the same point.
\<close>

unbundle bit_operations_syntax

section \<open>Committing mini-transactions\<close>

record server =
  srv_lsn :: nat
  srv_pages :: pages
  srv_log :: "byte list"

definition page_lsn :: "byte list \<Rightarrow> nat" where
  "page_lsn page = mach_read_from_8 (drop FIL_PAGE_LSN page)"

definition commit_log :: "nat \<Rightarrow> (page_id_t \<Rightarrow> bool) \<Rightarrow> pages \<Rightarrow> pages" where
  "commit_log commit_lsn modified pages =
     (\<lambda>idt. if modified idt then put FIL_PAGE_LSN (mach_write_to_8 commit_lsn) (pages idt) else pages idt)"

text \<open>A page is marked as modified when a record is written for it.\<close>

definition mtr_commit :: "log_t \<Rightarrow> (page_id_t \<times> page_op) list \<Rightarrow> server \<Rightarrow> server" where
  "mtr_commit lg ops s =
     (let (pages, m) = fold mtr_step ops (srv_pages s, mtr_start);
          modified = (\<lambda>idt. page_log idt ops (srv_pages s, mtr_start) \<noteq> [])
      in if m_log m \<noteq> [] then
           let (l, commit_lsn) = finish_writer lg (srv_lsn s) m
           in s\<lparr>srv_lsn := commit_lsn, srv_pages := commit_log commit_lsn modified pages, srv_log := srv_log s @ l\<rparr>
         else s\<lparr>srv_pages := pages\<rparr>)"

fun hist_good :: "nat \<Rightarrow> page_id_t set \<Rightarrow> log_t \<Rightarrow> (page_id_t \<times> page_op) list list \<Rightarrow> server \<Rightarrow> bool" where
  "hist_good n ids lg [] s \<longleftrightarrow> True"
| "hist_good n ids lg (ops # h) s \<longleftrightarrow>
     mtr_good n ids ops (srv_pages s, mtr_start) \<and>
     length (m_log (snd (fold mtr_step ops (srv_pages s, mtr_start)))) + 5 < MTR_SIZE_MAX \<and>
     hist_good n ids lg h (mtr_commit lg ops s)"

section \<open>The LSN of a page\<close>

lemma length_mach_write_8 [simp]: "length (mach_write_to_8 k) = 8"
  by (simp add: mach_write_to_8_def mach_write_to_4_def)

lemma page_lsn_put: "24 \<le> length page \<Longrightarrow> k < 2 ^ 64 \<Longrightarrow> page_lsn (put FIL_PAGE_LSN (mach_write_to_8 k) page) = k"
  by (simp add: page_lsn_def put_def mach_8_round_trip)

lemma write_end_lsn:
  assumes "32 \<le> length page" "k < 2 ^ 64" "\<not> zipped env"
  shows "page_lsn (write_end_lsn env k page) = k" "same_image page (write_end_lsn env k page)"
proof -
  let ?e = "mach_write_to_8 k"
  have eq: "write_end_lsn env k page = put 16 ?e (put (length page - 8) ?e page)"
    using assms put_commute [of 16 ?e page "length page - 8" ?e] by (simp add: write_end_lsn_def Let_def)
  show "page_lsn (write_end_lsn env k page) = k" unfolding eq using assms by (simp add: page_lsn_put)
  have 1: "same_image page (put (length page - 8) ?e page)"
    using assms(1) by (intro same_image_volatile) (auto simp: volatile_def)
  have 2: "same_image (put (length page - 8) ?e page) (put 16 ?e (put (length page - 8) ?e page))"
    using assms(1) by (intro same_image_volatile) (auto simp: volatile_def)
  show "same_image page (write_end_lsn env k page)" unfolding eq by (rule same_image_trans [OF 1 2])
qed

lemma commit_log_image: "24 \<le> length (pages idt) \<Longrightarrow> same_image (pages idt) (commit_log k ids pages idt)"
  by (auto simp: commit_log_def volatile_def intro!: same_image_volatile)

section \<open>Recovering a page from its snippets\<close>

lemma recover_space_keeps:
  "rs_page (recover_space env sp a s) = rs_page s" "rs_end (recover_space env sp a s) = rs_end s"
  "rs_start (recover_space env sp a s) = rs_start s"
  by (simp_all add: recover_space_def Let_def)

lemma recover_records_run:
  assumes force: "\<not> force_recovery env" and P: "\<And>x. P x \<longleftrightarrow> pl \<le> start_lsn_of x \<and> il \<le> start_lsn_of x"
  shows "\<lbrakk>snips_run env (filter P xs) (rs_page s) st; \<forall>x \<in> set xs. 0 < start_lsn_of x\<rbrakk> \<Longrightarrow>
    \<exists>s'. recover_records env sp pl il xs s = Proceed s' \<and> rs_page s' = st \<and>
      rs_end s' = (if xs = [] then rs_end s else lsn_of (last xs)) \<and> (rs_start s' = 0 \<longleftrightarrow> rs_start s = 0 \<and> filter P xs = [])"
proof (induction xs arbitrary: s)
  case (Cons x xs)
  show ?case
  proof (cases "P x")
    case True
    then obtain st1 where st1: "runs env (recs x) ((rs_page s)\<lparr>applied := APPLIED_NO\<rparr>) st1" "changed st1" "\<not> log_corrupted st1"
      "snips_run env (filter P xs) st1 st"
      using Cons.prems(1) by auto
    define s1 where "s1 = recover_space env sp (applied st1) (s\<lparr>rs_end := lsn_of x, rs_page := st1\<rparr>)"
    have s1: "rs_page s1 = st1" "rs_end s1 = lsn_of x" "rs_start s1 = rs_start s"
      by (simp_all add: s1_def recover_space_keeps)
    define s2 where "s2 = s1\<lparr>rs_start := (if rs_start s1 = 0 then start_lsn_of x else rs_start s1)\<rparr>"
    have r: "recover_record env sp pl il x s = Proceed s2"
    proof -
      have "\<not> start_lsn_of x < pl" "\<not> start_lsn_of x < il" using True P by auto
      moreover have "\<not> ((applied st1 = APPLIED_CORRUPTED \<or> log_corrupted st1) \<and> \<not> force_recovery env)" "applied st1 \<noteq> APPLIED_NO"
        using st1(2,3) by (simp_all add: changed_def)
      ultimately show ?thesis
        unfolding recover_record_def runs_end [OF st1(1)] s2_def s1_def Let_def by (simp only: if_False option.case prod.case)
    qed
    have s2: "rs_page s2 = st1" "rs_end s2 = lsn_of x" "rs_start s2 \<noteq> 0"
      using s1 Cons.prems(2) by (simp_all add: s2_def)
    have "\<exists>s'. recover_records env sp pl il xs s2 = Proceed s' \<and> rs_page s' = st \<and>
      rs_end s' = (if xs = [] then rs_end s2 else lsn_of (last xs)) \<and> (rs_start s' = 0 \<longleftrightarrow> rs_start s2 = 0 \<and> filter P xs = [])"
      by (rule Cons.IH) (use s2(1) st1(4) Cons.prems(2) in simp_all)
    then show ?thesis using r s2 True by (simp split del: if_split split: if_splits)
  next
    case False
    define s1 where "s1 = s\<lparr>rs_end := lsn_of x\<rparr>"
    have s1: "rs_page s1 = rs_page s" "rs_end s1 = lsn_of x" "rs_start s1 = rs_start s" by (simp_all add: s1_def)
    have "start_lsn_of x < pl \<or> start_lsn_of x < il" using False P [of x] by auto
    then have r: "recover_record env sp pl il x s = Proceed s1" by (elim disjE) (simp_all add: recover_record_def s1_def)
    have "\<exists>s'. recover_records env sp pl il xs s1 = Proceed s' \<and> rs_page s' = st \<and>
      rs_end s' = (if xs = [] then rs_end s1 else lsn_of (last xs)) \<and> (rs_start s' = 0 \<longleftrightarrow> rs_start s1 = 0 \<and> filter P xs = [])"
      by (rule Cons.IH) (use s1(1) Cons.prems False in simp_all)
    then show ?thesis using r s1 False by (simp split del: if_split split: if_splits)
  qed
qed simp

text \<open>The two cases of \<open>recv_recover_page\<close>: with what is applied and what the LSN at the end is.\<close>

lemma recv_recover_page_run:
  assumes env: "block_ok env" and p: "\<forall>x \<in> set (rec_log p). 0 < start_lsn_of x \<and> lsn_of x < 2 ^ 64" and page: "32 \<le> length page"
    and rec: "recovers env (filter P (rec_log p)) q page mtr_start"
    and P: "\<And>x. P x \<longleftrightarrow> (if init \<noteq> None then 0 else page_lsn q) \<le> start_lsn_of x \<and> (case init of Some k \<Rightarrow> k | None \<Rightarrow> 0) \<le> start_lsn_of x"
  shows "\<exists>res. recv_recover_page env sp p init False q = Some (Some res) \<and> same_image page (rec_frame res) \<and>
    page_lsn (rec_frame res) = (if filter P (rec_log p) = [] then page_lsn q else lsn_of (last (rec_log p)))"
proof -
  let ?pl = "if init \<noteq> None then 0 else page_lsn q" and ?il = "case init of Some k \<Rightarrow> k | None \<Rightarrow> 0"
  let ?s = "\<lparr>rs_page = recv_start (rec_offset p) q, rs_start = 0, rs_end = 0, rs_free = False, rs_header = None, rs_crypt = None\<rparr>"
  obtain st where st: "snips_run env (filter P (rec_log p)) (recv_start (rec_offset p) q) st" "same_image page (frame st)"
    using rec unfolding recovers_def by blast
  have z: "\<not> zipped env" "\<not> force_recovery env" using env by (simp_all add: block_ok_def)
  obtain s' where s': "recover_records env sp ?pl ?il (rec_log p) ?s = Proceed s'" "rs_page s' = st"
    "rs_end s' = (if rec_log p = [] then 0 else lsn_of (last (rec_log p)))" "rs_start s' = 0 \<longleftrightarrow> filter P (rec_log p) = []"
    using recover_records_run [OF z(2) P, of "rec_log p" ?s st sp] st(1) p by auto
  let ?res = "\<lparr>rec_frame = (if rs_start s' \<noteq> 0 then write_end_lsn env (rs_end s') (frame st) else frame st),
      oldest_modification = rs_start s', set_freed = (rs_start s' = 0 \<and> rs_free s' \<and> init \<noteq> None),
      space_header = rs_header s', space_crypt = rs_crypt s'\<rparr>"
  have res: "recv_recover_page env sp p init False q = Some (Some ?res)"
    using s'(1,2) unfolding recv_recover_page_def Let_def page_lsn_def [symmetric] recv_start_def by simp
  show ?thesis
  proof (cases "filter P (rec_log p) = []")
    case True
    then show ?thesis using res s' st by (auto simp: recv_start_def)
  next
    case False
    then have ne: "rec_log p \<noteq> []" by auto
    then have "lsn_of (last (rec_log p)) < 2 ^ 64" using p by simp
    moreover have "32 \<le> length (frame st)"
      using same_image_length [OF st(2)] page by simp
    ultimately have we: "page_lsn (write_end_lsn env (rs_end s') (frame st)) = rs_end s'"
      "same_image (frame st) (write_end_lsn env (rs_end s') (frame st))"
      using write_end_lsn [OF _ _ z(1)] s'(3) ne by simp_all
    have "rec_frame ?res = write_end_lsn env (rs_end s') (frame st)" using s'(4) False by simp
    then show ?thesis
      using we same_image_trans [OF st(2) we(2)] s'(3) ne False by (intro exI [of _ ?res] conjI) (simp_all only: res if_False)
  qed
qed

lemma recover_page:
  assumes env: "block_ok env" and inv: "page_inv env n (page_lsn q) q st page mtr_start" and n: "length q = n" "32 \<le> length page"
    and st: "\<not> found_corrupt_log st" "\<forall>x \<in> set (page_recs st (block_id env)). 0 < start_lsn_of x \<and> lsn_of x < 2 ^ 64"
    and newest: "page_recs st (block_id env) \<noteq> [] \<Longrightarrow> page_lsn page = lsn_of (last (page_recs st (block_id env)))"
    and same: "page_lsn page = page_lsn q \<or>
      page_recs st (block_id env) \<noteq> [] \<and> page_lsn q \<le> start_lsn_of (last (page_recs st (block_id env)))"
  shows "\<exists>res. recv_recover env sp st q = Some (Some res) \<and> same_image page (rec_frame res) \<and> page_lsn (rec_frame res) = page_lsn page"
proof (cases "recv_pages st (block_id env)")
  case None
  then have "recovers env [] q page mtr_start" using inv by (simp add: page_inv_def skipped_def page_recs_def)
  then have "same_image page q" by (auto simp: recovers_def recv_start_def)
  then show ?thesis using None same by (simp add: recv_recover_def page_recs_def)
next
  case (Some p)
  then have p: "page_recs st (block_id env) = rec_log p" "skipped st (block_id env) = skip_read p"
    by (simp_all add: page_recs_def skipped_def)
  have pr: "\<forall>x \<in> set (rec_log p). 0 < start_lsn_of x \<and> lsn_of x < 2 ^ 64" using st(2) p(1) by simp
  note run = recv_recover_page_run [OF env pr n(2), where sp = sp and q = q]
  show ?thesis
  proof (cases "skip_read p")
    case True
    then obtain k where k: "mlog_init st (block_id env) = Some k" "\<forall>x \<in> set (rec_log p). k \<le> start_lsn_of x" "rec_log p \<noteq> []"
      "recovers env (rec_log p) q page mtr_start"
      using inv p n(1) by (auto simp: page_inv_def Let_def)
    let ?P = "\<lambda>x. 0 \<le> start_lsn_of x \<and> k \<le> start_lsn_of x"
    have f: "filter ?P (rec_log p) = rec_log p" using k(2) by (intro filter_True) simp
    have "\<exists>res. recv_recover_page env sp p (Some k) False q = Some (Some res) \<and> same_image page (rec_frame res) \<and>
        page_lsn (rec_frame res) = (if filter ?P (rec_log p) = [] then page_lsn q else lsn_of (last (rec_log p)))"
      by (rule run) (unfold f, rule k(4), simp)
    moreover have "recv_recover env sp st q = recv_recover_page env sp p (Some k) False q"
      using Some True st(1) k(1) by (simp add: recv_recover_def)
    moreover have "page_lsn page = lsn_of (last (rec_log p))" using newest p(1) k(3) by simp
    ultimately show ?thesis using k(3) unfolding f by auto
  next
    case False
    let ?P = "\<lambda>x. page_lsn q \<le> start_lsn_of x"
    have rec: "recovers env (filter ?P (rec_log p)) q page mtr_start" using inv p False by (simp add: page_inv_def)
    have "\<exists>res. recv_recover_page env sp p None False q = Some (Some res) \<and> same_image page (rec_frame res) \<and>
        page_lsn (rec_frame res) = (if filter ?P (rec_log p) = [] then page_lsn q else lsn_of (last (rec_log p)))"
      by (rule run [OF rec]) simp
    then obtain res where res: "recv_recover_page env sp p None False q = Some (Some res)" "same_image page (rec_frame res)"
      "page_lsn (rec_frame res) = (if filter ?P (rec_log p) = [] then page_lsn q else lsn_of (last (rec_log p)))" by blast
    have "page_lsn (rec_frame res) = page_lsn page"
    proof (cases "filter ?P (rec_log p) = []")
      case True
      then have "\<not> (rec_log p \<noteq> [] \<and> page_lsn q \<le> start_lsn_of (last (rec_log p)))"
        using last_in_set [of "rec_log p"] by (auto simp: filter_empty_conv)
      then show ?thesis using same p res(3) True by auto
    next
      case False
      then have "rec_log p \<noteq> []" by auto
      then show ?thesis using newest p(1) res(3) False by simp
    qed
    moreover have "recv_recover env sp st q = recv_recover_page env sp p None False q"
      using Some False st(1) by (simp add: recv_recover_def)
    ultimately show ?thesis using res(1,2) by auto
  qed
qed

section \<open>Following the server\<close>

text \<open>What holds when the server has committed some mini-transactions and recovery has read just these.\<close>

definition page_sync :: "recv_env \<Rightarrow> nat \<Rightarrow> byte list \<Rightarrow> recv_sys_t \<Rightarrow> page_id_t \<Rightarrow> bool" where
  "page_sync renv n page st idt \<longleftrightarrow>
     id_ok idt \<and> known_space renv st (space idt) \<and> length page = n \<and> page_lsn page \<le> lsn st \<and>
     (page_recs st idt \<noteq> [] \<longrightarrow> page_lsn page = lsn_of (last (page_recs st idt))) \<and>
     (\<forall>x \<in> lsns st idt. 0 < fst x \<and> fst x < page_lsn page \<and> fst x < lsn st \<and> snd x \<le> lsn st)"

definition in_sync :: "recv_env \<Rightarrow> page_id_t set \<Rightarrow> nat \<Rightarrow> server \<Rightarrow> recv_sys_t \<Rightarrow> bool" where
  "in_sync renv ids n s st \<longleftrightarrow>
     lsn st = srv_lsn s \<and> 0 < lsn st \<and> \<not> found_corrupt_log st \<and>
     (\<forall>idt k. mlog_init st idt = Some k \<longrightarrow> k \<le> lsn st) \<and>
     (\<forall>idt. idt \<notin> ids \<longrightarrow> page_recs st idt = []) \<and> (\<forall>idt \<in> ids. page_sync renv n (srv_pages s idt) st idt)"

text \<open>From one such point to a later one, for one page.\<close>

definition hist_rel :: "block_env \<Rightarrow> nat \<Rightarrow> server \<Rightarrow> recv_sys_t \<Rightarrow> server \<Rightarrow> recv_sys_t \<Rightarrow> bool" where
  "hist_rel env n s st s' st' \<longleftrightarrow>
     (let idt = block_id env
      in lsn st \<le> lsn st' \<and>
         (\<forall>n0 q. n0 \<le> lsn st \<longrightarrow> page_inv env n n0 q st (srv_pages s idt) mtr_start \<longrightarrow>
            page_inv env n n0 q st' (srv_pages s' idt) mtr_start) \<and>
         (page_lsn (srv_pages s' idt) = page_lsn (srv_pages s idt) \<and> page_recs st' idt = page_recs st idt \<or>
          page_recs st' idt \<noteq> [] \<and> lsn st \<le> start_lsn_of (last (page_recs st' idt))))"

lemma hist_rel_refl: "hist_rel env n s st s st"
  by (simp add: hist_rel_def)

lemma hist_rel_trans:
  assumes "hist_rel env n s st s1 st1" "hist_rel env n s1 st1 s2 st2"
  shows "hist_rel env n s st s2 st2"
  using assms by (auto simp: hist_rel_def Let_def)

lemma page_sync_recs:
  assumes "page_sync renv n page st idt" "x \<in> set (page_recs st idt)"
  shows "0 < start_lsn_of x" "start_lsn_of x < page_lsn page" "start_lsn_of x < lsn st" "lsn_of x \<le> lsn st"
proof -
  have "(start_lsn_of x, lsn_of x) \<in> lsns st idt" using assms(2) by (simp add: lsns_def)
  then show "0 < start_lsn_of x" "start_lsn_of x < page_lsn page" "start_lsn_of x < lsn st" "lsn_of x \<le> lsn st"
    using assms(1) unfolding page_sync_def by fastforce+
qed

lemma in_sync_start:
  assumes "in_sync renv ids n s st"
  shows "recv_ok renv ids (st\<lparr>start_lsn := lsn st, lsn := k\<rparr>)"
proof -
  have "start_lsn_of x \<noteq> lsn st" if x: "x \<in> set (page_recs st idt)" for x idt
  proof -
    have "idt \<in> ids" using assms x by (auto simp: in_sync_def)
    then have "page_sync renv n (srv_pages s idt) st idt" using assms by (simp add: in_sync_def)
    then show ?thesis using page_sync_recs(3) x by fastforce
  qed
  moreover have "page_recs (st\<lparr>start_lsn := lsn st, lsn := k\<rparr>) idt = page_recs st idt" for idt by (simp add: page_recs_def)
  moreover have "j \<le> lsn st" if "mlog_init st idt = Some j" for idt j
    using assms that unfolding in_sync_def by blast
  moreover have "id_ok idt" "known_space renv (st\<lparr>start_lsn := lsn st, lsn := k\<rparr>) (space idt)" if "idt \<in> ids" for idt
    using assms that by (simp_all add: in_sync_def page_sync_def known_space_def)
  ultimately show ?thesis using assms unfolding recv_ok_def by (simp add: in_sync_def)
qed

text \<open>A mini-transaction that logs nothing changes nothing.\<close>

lemma mtr_unlogged:
  "mtr_good n ids xs (pages, m) \<Longrightarrow> m_logged m \<Longrightarrow> m_log (snd (fold mtr_step xs (pages, m))) = m_log m \<Longrightarrow>
   fst (fold mtr_step xs (pages, m)) = pages"
proof (induction xs arbitrary: pages m)
  case (Cons x xs)
  obtain page1 m1 where run: "run_op (fst x) (snd x) (pages (fst x), m) = (page1, m1)" by fastforce
  have s1: "mtr_step x (pages, m) = (pages(fst x := page1), m1)" using run by (simp add: mtr_step_eq)
  have ok: "op_ok (fst x) (snd x) (pages (fst x))" "reads_ok (length (pages (fst x))) (snd x)"
    using Cons.prems(1) by (simp_all add: op_good_def)
  have on: "m_logged m1" using logged_step [of x pages m] s1 Cons.prems(2) by simp
  have good: "mtr_good n ids [x] (pages, m)" "mtr_good n ids xs (pages(fst x := page1), m1)" using Cons.prems(1) s1 by simp_all
  obtain rec where rec: "m_log m1 = m_log m @ rec" using mtr_scans [OF good(1) Cons.prems(2)] s1 by auto
  obtain rec2 where rec2: "m_log (snd (fold mtr_step xs (pages(fst x := page1), m1))) = m_log m1 @ rec2"
    using mtr_scans [OF good(2) on] by auto
  have "rec = []" "rec2 = []" using rec rec2 Cons.prems(3) s1 by simp_all
  then have "page1 = pages (fst x)" using op_unlogged [OF Cons.prems(2) ok] run rec by simp
  then show ?case using Cons.IH [OF good(2) on] rec2 \<open>rec2 = []\<close> s1 by simp
qed simp

lemma mtr_good_length:
  "mtr_good n ids xs (pages, m) \<Longrightarrow> 256 \<le> n \<Longrightarrow> length (pages idt) = n \<Longrightarrow> length (fst (fold mtr_step xs (pages, m)) idt) = n"
proof (induction xs arbitrary: pages m)
  case (Cons x xs)
  obtain pages1 m1 where s1: "mtr_step x (pages, m) = (pages1, m1)" by fastforce
  have "op_ok (fst x) (snd x) (pages (fst x))" "length (pages (fst x)) = n" using Cons.prems(1) by (simp_all add: op_good_def)
  then have "length (pages1 idt) = n"
    using length_op [of "fst x" "snd x" "pages (fst x)" m] Cons.prems(2,3) s1 by (auto simp: mtr_step_eq)
  then show ?case using Cons.IH [of pages1 m1] Cons.prems s1 by simp
qed simp

text \<open>One mini-transaction, for one page.\<close>

text \<open>An operation logs at most as many bytes as the page has.\<close>

lemma mtr_log_length:
  "mtr_good n ids xs (pages, m) \<Longrightarrow> m_logged m \<Longrightarrow>
   length (m_log (snd (fold mtr_step xs (pages, m)))) \<le> length (m_log m) + length xs * n"
proof (induction xs arbitrary: pages m)
  case (Cons x xs)
  obtain page1 m1 where run: "run_op (fst x) (snd x) (pages (fst x), m) = (page1, m1)" by fastforce
  have s1: "mtr_step x (pages, m) = (pages(fst x := page1), m1)" using run by (simp add: mtr_step_eq)
  have ok: "op_ok (fst x) (snd x) (pages (fst x))" "op_parse_ok n (snd x)" "length (pages (fst x)) = n" "256 \<le> n" "n < 2 ^ 16"
    using Cons.prems(1) by (simp_all add: op_good_def)
  have "logs_op n (fst x) (snd x = Init_Page) m m1" using op_logs [OF ok Cons.prems(2)] run by simp
  then have "length (m_log m1) \<le> length (m_log m) + n"
    unfolding logs_op_def
  proof (elim disjE conjE exE)
    fix type p off e assume r: "m1 = logs type (fst x) p off e m" "length p + 21 \<le> n"
    show ?thesis using r header_bytes_length [of type "fst x" True "length p" off m] by (simp add: logs_def log_write_eq)
  qed simp
  moreover have "m_logged m1" "mtr_good n ids xs (pages(fst x := page1), m1)"
    using logged_step [of x pages m] s1 Cons.prems by simp_all
  ultimately show ?case using Cons.IH [of "pages(fst x := page1)" m1] s1 by (simp del: fun_upd_apply)
qed simp

lemma page_sync_commit:
  assumes sync: "page_sync renv n page st idt" and env: "block_id env = idt" and st: "st0 = st\<lparr>start_lsn := lsn st, lsn := k\<rparr>" "0 < lsn st" "lsn st < k"
    and rel: "page_rel env n st0 st' page page1 mtr_start m t" and st': "known_space renv st' (space idt)" "k < 2 ^ 64"
    and page: "length page1 = n" "256 \<le> n" "page' = (if t then put FIL_PAGE_LSN (mach_write_to_8 k) page1 else page1)"
  shows "page_sync renv n page' st' idt"
proof -
  have lsns0: "lsns st0 idt = lsns st idt" "page_recs st0 idt = page_recs st idt" "recv_pages st0 idt = recv_pages st idt"
    by (simp_all add: st(1) lsns_def page_recs_def)
  have st'lsn: "lsn st' = k" using rel by (simp add: page_rel_def st(1))
  have id: "id_ok idt" using sync by (simp add: page_sync_def)
  show ?thesis
  proof (cases t)
    case True
    have p': "page_lsn page' = k" "length page' = n" using page True st'(2) by (simp_all add: page_lsn_put)
    have t: "page_recs st' idt \<noteq> []" "lsn_of (last (page_recs st' idt)) = k" "lsns st' idt \<subseteq> insert (lsn st, k) (lsns st idt)"
      using rel True env lsns0(1) by (simp_all add: page_rel_def st(1))
    have "0 < fst x \<and> fst x < k \<and> snd x \<le> k" if x: "x \<in> lsns st' idt" for x
    proof (cases "x \<in> lsns st idt")
      case True
      then have "0 < fst x \<and> fst x < lsn st \<and> snd x \<le> lsn st" using sync by (simp add: page_sync_def)
      then show ?thesis using st(3) by simp
    next
      case False
      then have "x = (lsn st, k)" using t(3) x by blast
      then show ?thesis using st(2,3) by simp
    qed
    then show ?thesis unfolding page_sync_def p' st'lsn using id st'(1) t by blast
  next
    case False
    have same: "page' = page" "page_recs st' idt = page_recs st idt" "lsns st' idt = lsns st idt"
      using rel False env page(3) lsns0(3) by (simp_all add: page_rel_def page_recs_def lsns_def)
    have p: "length page = n" "page_lsn page \<le> lsn st" "page_recs st idt \<noteq> [] \<longrightarrow> page_lsn page = lsn_of (last (page_recs st idt))"
      "\<And>x. x \<in> lsns st idt \<Longrightarrow> 0 < fst x \<and> fst x < page_lsn page \<and> fst x < lsn st \<and> snd x \<le> lsn st"
      using sync by (simp_all add: page_sync_def)
    have "0 < fst x \<and> fst x < page_lsn page \<and> fst x < k \<and> snd x \<le> k" if "x \<in> lsns st idt" for x
      using p(4) [OF that] st(3) by linarith
    then show ?thesis unfolding page_sync_def same st'lsn using id st'(1) p(1-3) st(3) by auto
  qed
qed

lemma hist_rel_commit:
  assumes env: "block_id env = idt" and st: "st0 = st\<lparr>start_lsn := lsn st, lsn := k\<rparr>" "lsn st < k"
    and rel: "page_rel env n st0 st' (srv_pages s idt) page1 mtr_start m t"
    and page: "256 \<le> length page1" "srv_pages s' idt = (if t then put FIL_PAGE_LSN (mach_write_to_8 k) page1 else page1)"
  shows "hist_rel env n s st s' st'"
proof -
  have img: "same_image page1 (srv_pages s' idt)"
    using page by (auto simp: volatile_def intro!: same_image_volatile)
  have "page_inv env n n0 q st' (srv_pages s' idt) mtr_start" if n0: "n0 \<le> lsn st" "page_inv env n n0 q st (srv_pages s idt) mtr_start" for n0 q
  proof -
    have "page_inv env n n0 q st0 (srv_pages s idt) mtr_start"
      using n0(2) page_inv_same [of st0 env st] by (simp add: st(1))
    then have "page_inv env n n0 q st' page1 m" using rel n0(1) by (simp add: page_rel_def st(1))
    then show ?thesis
      by (rule page_inv_recovers) (use recovers_start recovers_image img in blast)
  qed
  moreover have "lsn st' = k" using rel by (simp add: page_rel_def st(1))
  moreover have "page_lsn (srv_pages s' idt) = page_lsn (srv_pages s idt) \<and> page_recs st' idt = page_recs st idt \<or>
    page_recs st' idt \<noteq> [] \<and> lsn st \<le> start_lsn_of (last (page_recs st' idt))"
    using rel page(2) env by (cases t) (simp_all add: page_rel_def st(1) page_recs_def)
  ultimately show ?thesis using st(2) env by (simp add: hist_rel_def)
qed

text \<open>A block for a page, to instantiate what holds for each block.\<close>

definition plain_block :: "page_id_t \<Rightarrow> block_env" where
  "plain_block idt = \<lparr>block_id = idt, zipped = False, force_recovery = False, encryption_offset = 0, my_crc32c = (\<lambda>_ _. 0)\<rparr>"

lemma commit_written:
  assumes "mtr_good n ids ops (pages, mtr_start)" "fold mtr_step ops (pages, mtr_start) = (pages1, m)" "m_log m \<noteq> []"
    "length (m_log m) + 5 < MTR_SIZE_MAX"
  shows "mtr_written m"
proof -
  have "m_logged mtr_start" by (simp add: mtr_start_def)
  then obtain rec where "m_log m = m_log mtr_start @ rec" "scans rec" "torn rec" "rec \<noteq> [] \<longrightarrow> \<not> rec ! 0 \<le> 1"
    using mtr_scans [OF assms(1)] assms(2) by auto
  then show ?thesis using assms(3,4) by (simp add: mtr_written_def mtr_start_def)
qed

lemma commit_parse:
  assumes renv: "\<not> if_exists renv" "srv_page_size renv = n" and lg: "crc_ok lg"
    and sync: "in_sync renv ids n s st" and good: "mtr_good n ids ops (srv_pages s, mtr_start)"
    and m: "fold mtr_step ops (srv_pages s, mtr_start) = (pages1, m)" "m_log m \<noteq> []" "length (m_log m) + 5 < MTR_SIZE_MAX"
    and r: "r \<noteq> []" and st0: "st0 = st\<lparr>start_lsn := lsn st, lsn := lsn st + (length (m_log m) + 5)\<rparr>"
  shows "\<exists>st'. recv_parse renv lg (fst (finish_writer lg (srv_lsn s) m) @ r) st = (OK, r, st') \<and> recv_ok renv ids st' \<and>
    (\<forall>idt. idt \<notin> ids \<longrightarrow> recv_pages st' idt = recv_pages st idt) \<and>
    (\<forall>env. block_ok env \<longrightarrow>
       page_rel env n st0 st' (srv_pages s (block_id env)) (pages1 (block_id env)) mtr_start m
         (page_log (block_id env) ops (srv_pages s, mtr_start) \<noteq> []))"
proof -
  let ?v = "\<lparr>space_id = 0, page_nr = 0, last_ofs = 0, got_page_op = False\<rparr>"
  let ?l = "fst (finish_writer lg (srv_lsn s) m)"
  let ?r = "get_sequence_bit lg (length (m_log m) + srv_lsn s) # mach_write_to_4 (log_crc32c lg 0 (m_log m)) @ r"
  have lsn: "lsn st = srv_lsn s" using sync by (simp add: in_sync_def)
  have start: "recv_ok renv ids st0" "parse_sync mtr_start ?v" "m_logged mtr_start"
    using in_sync_start [OF sync] by (simp_all add: st0 parse_sync_def mtr_start_def)
  have w: "mtr_written m" by (rule commit_written [OF good m])
  obtain rec' where rec': "m_log m = m_log mtr_start @ rec'"
    "\<exists>v' st'. parse_records renv (rec' @ ?r) ?v st0 = parse_records renv ?r v' st' \<and> recv_ok renv ids st' \<and>
       (\<forall>idt. idt \<notin> ids \<longrightarrow> recv_pages st' idt = recv_pages st0 idt) \<and>
       (\<forall>env. block_ok env \<longrightarrow>
          page_rel env n st0 st' (srv_pages s (block_id env)) (pages1 (block_id env)) mtr_start m
            (page_log (block_id env) ops (srv_pages s, mtr_start) \<noteq> []))"
    using parse_mtr [OF renv start good] unfolding m(1) fst_conv snd_conv by blast
  have "rec' = m_log m" using rec'(1) by (simp add: mtr_start_def)
  then obtain v' st' where st': "parse_records renv (m_log m @ ?r) ?v st0 = parse_records renv ?r v' st'" "recv_ok renv ids st'"
      "\<forall>idt. idt \<notin> ids \<longrightarrow> recv_pages st' idt = recv_pages st0 idt"
      "\<forall>env. block_ok env \<longrightarrow> page_rel env n st0 st' (srv_pages s (block_id env)) (pages1 (block_id env)) mtr_start m
         (page_log (block_id env) ops (srv_pages s, mtr_start) \<noteq> [])"
    using rec'(2) by blast
  have "parse_records renv ?r v' st' = (OK, st')" using sequence_bit_le by (subst parse_records.simps) simp
  then have "parse_tail renv (?l @ r) (length (m_log m) + 5) st = (OK, st')"
    using st'(1) by (simp add: parse_tail_def finish_writer_eq st0)
  then have "recv_parse renv lg (?l @ r) st = (OK, r, st')"
    using recv_parse_written [OF w lg r, of renv st st'] by (simp add: lsn)
  moreover have "recv_pages st0 = recv_pages st" by (simp add: st0)
  ultimately show ?thesis using st'(2-4) by auto
qed

lemma commit_step:
  assumes renv: "\<not> if_exists renv" "srv_page_size renv = n" "256 \<le> n" and lg: "crc_ok lg"
    and sync: "in_sync renv ids n s st" and good: "mtr_good n ids ops (srv_pages s, mtr_start)"
    and m: "fold mtr_step ops (srv_pages s, mtr_start) = (pages1, m)" "m_log m \<noteq> []" "length (m_log m) + 5 < MTR_SIZE_MAX"
    and s': "s' = mtr_commit lg ops s" "srv_lsn s' < 2 ^ 64" and r: "r \<noteq> []"
  shows "\<exists>st'. recv_parse renv lg (fst (finish_writer lg (srv_lsn s) m) @ r) st = (OK, r, st') \<and> in_sync renv ids n s' st' \<and>
    (\<forall>env. block_ok env \<longrightarrow> block_id env \<in> ids \<longrightarrow> hist_rel env n s st s' st')"
proof -
  define k where "k = lsn st + (length (m_log m) + 5)"
  define st0 where "st0 = st\<lparr>start_lsn := lsn st, lsn := k\<rparr>"
  let ?t = "\<lambda>idt. page_log idt ops (srv_pages s, mtr_start) \<noteq> []"
  have base: "lsn st = srv_lsn s" "0 < lsn st" "lsn st < k" using sync by (simp_all add: in_sync_def k_def)
  have srv: "srv_lsn s' = k" "srv_pages s' = commit_log k ?t pages1"
    using m(2) by (simp_all add: s'(1) mtr_commit_def m(1) finish_writer_eq base(1) k_def add.assoc)
  obtain st' where st': "recv_parse renv lg (fst (finish_writer lg (srv_lsn s) m) @ r) st = (OK, r, st')" "recv_ok renv ids st'"
      "\<And>idt. idt \<notin> ids \<Longrightarrow> recv_pages st' idt = recv_pages st idt"
      "\<And>env. block_ok env \<Longrightarrow> page_rel env n st0 st' (srv_pages s (block_id env)) (pages1 (block_id env)) mtr_start m (?t (block_id env))"
    using commit_parse [OF renv(1,2) lg sync good m r st0_def [unfolded k_def]] by blast
  have page: "srv_pages s' idt = (if ?t idt then put FIL_PAGE_LSN (mach_write_to_8 k) (pages1 idt) else pages1 idt)"
    "page_sync renv n (srv_pages s idt) st idt" "length (pages1 idt) = n" "block_ok (plain_block idt)" if "idt \<in> ids" for idt
  proof -
    show "srv_pages s' idt = (if ?t idt then put FIL_PAGE_LSN (mach_write_to_8 k) (pages1 idt) else pages1 idt)"
      by (simp add: srv(2) commit_log_def)
    show ps: "page_sync renv n (srv_pages s idt) st idt" using sync that by (simp add: in_sync_def)
    show "length (pages1 idt) = n" using mtr_good_length [OF good renv(3)] ps m(1) by (simp add: page_sync_def)
    show "block_ok (plain_block idt)" using ps by (simp add: block_ok_def plain_block_def page_sync_def)
  qed
  have "page_sync renv n (srv_pages s' idt) st' idt" if "idt \<in> ids" for idt
  proof (rule page_sync_commit [OF page(2) [OF that] _ st0_def base(2,3) _ _ _ page(3) [OF that] renv(3) page(1) [OF that]])
    show "page_rel (plain_block idt) n st0 st' (srv_pages s idt) (pages1 idt) mtr_start m (?t idt)" "block_id (plain_block idt) = idt"
      using st'(4) [OF page(4) [OF that]] by (simp_all add: plain_block_def)
    show "known_space renv st' (space idt)" using st'(2) that by (simp add: recv_ok_def)
    show "k < 2 ^ 64" using s'(2) srv(1) by simp
  qed
  moreover have "lsn st' = k" "start_lsn st' = lsn st"
    using st'(4) [of "plain_block \<lparr>space = 0, page_no = 0\<rparr>"]
    by (simp_all add: block_ok_def plain_block_def id_ok_def MLOG_DECODE_ERROR_def page_rel_def st0_def)
  moreover have "page_recs st' idt = []" if "idt \<notin> ids" for idt
    using st'(3) [OF that] sync that by (simp add: in_sync_def page_recs_def)
  moreover have "j \<le> start_lsn st'" if "mlog_init st' idt = Some j" for idt j using st'(2) that unfolding recv_ok_def by blast
  moreover have "\<not> found_corrupt_log st'" using st'(2) by (simp add: recv_ok_def)
  ultimately have "in_sync renv ids n s' st'" using srv(1) base(2,3) unfolding in_sync_def by fastforce
  moreover have "hist_rel env n s st s' st'" if "block_ok env" "block_id env \<in> ids" for env
    using hist_rel_commit [OF refl st0_def base(3) st'(4) [OF that(1)] _ page(1) [OF that(2)]] page(3) [OF that(2)] renv(3) by simp
  ultimately show ?thesis using st'(1) by blast
qed

section \<open>A history\<close>

lemma commit_lsn_mono: "srv_lsn s \<le> srv_lsn (mtr_commit lg ops s)"
  by (simp add: mtr_commit_def finish_writer_eq case_prod_beta Let_def)

lemma hist_lsn_mono: "srv_lsn s \<le> srv_lsn (fold (mtr_commit lg) h s)"
proof (induction h arbitrary: s)
  case (Cons ops h)
  show ?case using order_trans [OF commit_lsn_mono [of s lg ops] Cons.IH [of "mtr_commit lg ops s"]] by simp
qed simp

lemma hist_lsn_bound: "hist_good n ids lg h s \<Longrightarrow> srv_lsn (fold (mtr_commit lg) h s) \<le> srv_lsn s + length h * MTR_SIZE_MAX"
proof (induction h arbitrary: s)
  case (Cons ops h)
  then have "srv_lsn (mtr_commit lg ops s) \<le> srv_lsn s + MTR_SIZE_MAX"
    by (simp add: mtr_commit_def finish_writer_eq case_prod_beta Let_def)
  then show ?case using Cons.IH [of "mtr_commit lg ops s"] Cons.prems by simp
qed simp

lemma hist_good_append: "hist_good n ids lg (h1 @ h2) s \<longleftrightarrow> hist_good n ids lg h1 s \<and> hist_good n ids lg h2 (fold (mtr_commit lg) h1 s)"
  by (induction h1 arbitrary: s) auto

lemma commit_unlogged:
  assumes "mtr_good n ids ops (srv_pages s, mtr_start)" "m_log (snd (fold mtr_step ops (srv_pages s, mtr_start))) = []"
  shows "mtr_commit lg ops s = s"
proof -
  have "fst (fold mtr_step ops (srv_pages s, mtr_start)) = srv_pages s"
    using mtr_unlogged [OF assms(1)] assms(2) by (simp add: mtr_start_def)
  then show ?thesis using assms(2) by (simp add: mtr_commit_def case_prod_beta)
qed

lemma commit_logged:
  assumes "fold mtr_step ops (srv_pages s, mtr_start) = (pages1, m)" "m_log m \<noteq> []"
  shows "srv_log (mtr_commit lg ops s) = srv_log s @ fst (finish_writer lg (srv_lsn s) m)"
  using assms by (simp add: mtr_commit_def case_prod_beta Let_def)

lemma hist_log: "\<exists>l. srv_log (fold (mtr_commit lg) h s) = srv_log s @ l"
proof (induction h arbitrary: s)
  case (Cons ops h)
  have "\<exists>l. srv_log (mtr_commit lg ops s) = srv_log s @ l" by (simp add: mtr_commit_def case_prod_beta Let_def)
  then show ?case using Cons.IH [of "mtr_commit lg ops s"] by auto
qed simp

lemma hist_follows:
  assumes renv: "\<not> if_exists renv" "srv_page_size renv = n" "256 \<le> n" and lg: "crc_ok lg" and r: "r \<noteq> []"
  shows "\<lbrakk>in_sync renv ids n s st; hist_good n ids lg h s; s' = fold (mtr_commit lg) h s; srv_lsn s' < 2 ^ 64;
      srv_log s' = srv_log s @ l\<rbrakk> \<Longrightarrow>
    \<exists>st'. recv_scan renv lg (l @ r) st = recv_scan renv lg r st' \<and> in_sync renv ids n s' st' \<and>
      (\<forall>env. block_ok env \<longrightarrow> block_id env \<in> ids \<longrightarrow> hist_rel env n s st s' st')"
proof (induction h arbitrary: s st l)
  case Nil
  then show ?case using hist_rel_refl by (intro exI [of _ st]) simp
next
  case (Cons ops h)
  let ?s1 = "mtr_commit lg ops s"
  obtain pages1 m where m: "fold mtr_step ops (srv_pages s, mtr_start) = (pages1, m)" by fastforce
  have good: "mtr_good n ids ops (srv_pages s, mtr_start)" "length (m_log m) + 5 < MTR_SIZE_MAX" "hist_good n ids lg h ?s1"
    using Cons.prems(2) m by simp_all
  have s': "s' = fold (mtr_commit lg) h ?s1" using Cons.prems(3) by simp
  show ?case
  proof (cases "m_log m = []")
    case True
    then have "?s1 = s" using commit_unlogged [OF good(1)] m by simp
    then show ?thesis using Cons.IH [OF Cons.prems(1) _ _ Cons.prems(4,5)] good(3) s' by simp
  next
    case False
    let ?l = "fst (finish_writer lg (srv_lsn s) m)"
    have small: "srv_lsn ?s1 < 2 ^ 64" using hist_lsn_mono [of ?s1 lg h] Cons.prems(4) s' by simp
    obtain l2 where l2: "srv_log s' = srv_log ?s1 @ l2" using hist_log [of lg h ?s1] s' by auto
    then have l: "l = ?l @ l2" using Cons.prems(5) commit_logged [OF m False] by simp
    obtain st1 where st1: "recv_parse renv lg (?l @ l2 @ r) st = (OK, l2 @ r, st1)" "in_sync renv ids n ?s1 st1"
        "\<forall>env. block_ok env \<longrightarrow> block_id env \<in> ids \<longrightarrow> hist_rel env n s st ?s1 st1"
      using commit_step [OF renv lg Cons.prems(1) good(1) m False good(2) refl small, of "l2 @ r"] r by auto
    obtain st2 where st2: "recv_scan renv lg (l2 @ r) st1 = recv_scan renv lg r st2" "in_sync renv ids n s' st2"
        "\<forall>env. block_ok env \<longrightarrow> block_id env \<in> ids \<longrightarrow> hist_rel env n ?s1 st1 s' st2"
      using Cons.IH [OF st1(2) good(3) s' Cons.prems(4) l2] by blast
    have "recv_scan renv lg (l @ r) st = recv_scan renv lg r st2"
      unfolding l by (subst recv_scan.simps) (simp add: st1(1) st2(1))
    then show ?thesis using st2(2) st1(3) st2(3) hist_rel_trans by blast
  qed
qed

text \<open>What holds between mini-transactions; \<open>lsn0\<close> is the LSN of the start of the log.\<close>

definition server_ok :: "page_id_t set \<Rightarrow> nat \<Rightarrow> nat \<Rightarrow> server \<Rightarrow> bool" where
  "server_ok ids n lsn0 s \<longleftrightarrow>
     srv_lsn s = lsn0 + length (srv_log s) \<and> (\<forall>idt \<in> ids. length (srv_pages s idt) = n \<and> page_lsn (srv_pages s idt) \<le> srv_lsn s)"

lemma mtr_keeps_others: "mtr_good n ids xs (pages, m) \<Longrightarrow> idt \<notin> ids \<Longrightarrow> fst (fold mtr_step xs (pages, m)) idt = pages idt"
proof (induction xs arbitrary: pages m)
  case (Cons x xs)
  obtain pages1 m1 where s1: "mtr_step x (pages, m) = (pages1, m1)" by fastforce
  have "pages1 idt = pages idt" using s1 Cons.prems by (auto simp: mtr_step_eq)
  then show ?case using Cons.IH [of pages1 m1] Cons.prems s1 by simp
qed simp

lemma page_log_others: "mtr_good n ids xs s \<Longrightarrow> idt \<notin> ids \<Longrightarrow> page_log idt xs s = []"
  by (induction xs arbitrary: s) auto

lemma page_unlogged:
  "mtr_good n ids xs (pages, m) \<Longrightarrow> m_logged m \<Longrightarrow> page_log idt xs (pages, m) = [] \<Longrightarrow>
   fst (fold mtr_step xs (pages, m)) idt = pages idt"
proof (induction xs arbitrary: pages m)
  case (Cons x xs)
  obtain pages1 m1 where s1: "mtr_step x (pages, m) = (pages1, m1)" by fastforce
  have good: "mtr_good n ids [x] (pages, m)" "mtr_good n ids xs (pages1, m1)" using Cons.prems(1) s1 by simp_all
  have on: "m_logged m1" using logged_step [of x pages m] s1 Cons.prems(2) by simp
  obtain rec where rec: "m_log m1 = m_log m @ rec" using mtr_scans [OF good(1) Cons.prems(2)] s1 by auto
  have "pages1 idt = pages idt"
  proof (cases "fst x = idt")
    case True
    then have "rec = []" using Cons.prems(3) s1 rec by simp
    then show ?thesis using mtr_unlogged [OF good(1) Cons.prems(2)] s1 rec by simp
  next
    case False
    then show ?thesis using s1 by (auto simp: mtr_step_eq)
  qed
  then show ?case using Cons.IH [OF good(2) on] Cons.prems(3) s1 by simp
qed simp

lemma commit_server_ok:
  assumes ok: "server_ok ids n lsn0 s" and good: "mtr_good n ids ops (srv_pages s, mtr_start)" and n: "256 \<le> n"
    and lsn: "srv_lsn (mtr_commit lg ops s) < 2 ^ 64"
  shows "server_ok ids n lsn0 (mtr_commit lg ops s)" "idt \<notin> ids \<Longrightarrow> srv_pages (mtr_commit lg ops s) idt = srv_pages s idt"
proof -
  obtain pages1 m where m: "fold mtr_step ops (srv_pages s, mtr_start) = (pages1, m)" by fastforce
  let ?t = "\<lambda>idt. page_log idt ops (srv_pages s, mtr_start) \<noteq> []" and ?k = "srv_lsn (mtr_commit lg ops s)"
  have pages: "srv_pages (mtr_commit lg ops s) idt =
      (if m_log m \<noteq> [] \<and> ?t idt then put FIL_PAGE_LSN (mach_write_to_8 ?k) (pages1 idt) else pages1 idt)" for idt
    by (simp add: mtr_commit_def m commit_log_def case_prod_beta Let_def)
  have same: "pages1 idt = srv_pages s idt" if "\<not> (m_log m \<noteq> [] \<and> ?t idt)" for idt
    using that page_unlogged [OF good, of idt] mtr_unlogged [OF good] m by (auto simp: mtr_start_def)
  have page: "length (srv_pages (mtr_commit lg ops s) idt) = n \<and> page_lsn (srv_pages (mtr_commit lg ops s) idt) \<le> ?k" if "idt \<in> ids" for idt
  proof (cases "m_log m \<noteq> [] \<and> ?t idt")
    case True
    have "length (pages1 idt) = n" using mtr_good_length [OF good n] ok that m by (simp add: server_ok_def)
    then show ?thesis using True pages [of idt] page_lsn_put [OF _ lsn, of "pages1 idt"] n by simp
  next
    case False
    then have "srv_pages (mtr_commit lg ops s) idt = srv_pages s idt" using pages [of idt] same [OF False] by auto
    then show ?thesis using ok that commit_lsn_mono [of s lg ops] by (auto simp: server_ok_def intro: order_trans)
  qed
  moreover have "?k = lsn0 + length (srv_log (mtr_commit lg ops s))"
    using ok by (simp add: server_ok_def mtr_commit_def finish_writer_eq case_prod_beta Let_def mach_write_to_4_def)
  ultimately show "server_ok ids n lsn0 (mtr_commit lg ops s)" by (simp add: server_ok_def)
  show "srv_pages (mtr_commit lg ops s) idt = srv_pages s idt" if "idt \<notin> ids"
    using mtr_keeps_others [OF good that] page_log_others [OF good that] pages [of idt] m by simp
qed

section \<open>A crash\<close>

text \<open>Recovery starts at a checkpoint, with nothing stored and all modified pages on disk.\<close>

definition at_checkpoint :: "recv_env \<Rightarrow> page_id_t set \<Rightarrow> nat \<Rightarrow> server \<Rightarrow> recv_sys_t \<Rightarrow> bool" where
  "at_checkpoint renv ids n s st \<longleftrightarrow>
     lsn st = srv_lsn s \<and> 0 < srv_lsn s \<and> \<not> found_corrupt_log st \<and> recv_pages st = (\<lambda>_. None) \<and> mlog_init st = (\<lambda>_. None) \<and>
     (\<forall>idt \<in> ids. id_ok idt \<and> known_space renv st (space idt) \<and> length (srv_pages s idt) = n \<and> page_lsn (srv_pages s idt) \<le> srv_lsn s)"

lemma at_checkpoint_sync:
  assumes "at_checkpoint renv ids n s st"
  shows "in_sync renv ids n s st" "page_inv env n 0 (srv_pages s (block_id env)) st (srv_pages s (block_id env)) mtr_start"
proof -
  have "page_recs st idt = []" "\<not> skipped st idt" for idt
    using assms by (simp_all add: at_checkpoint_def page_recs_def skipped_def)
  then show "in_sync renv ids n s st" "page_inv env n 0 (srv_pages s (block_id env)) st (srv_pages s (block_id env)) mtr_start"
    using assms by (simp_all add: at_checkpoint_def in_sync_def page_sync_def lsns_def page_inv_def recovers_base)
qed

text \<open>An image that was written to disk: it carries the LSN of the page, and may differ in its checksum and trailer.\<close>

definition flushed :: "byte list \<Rightarrow> byte list \<Rightarrow> bool" where
  "flushed page q \<longleftrightarrow> same_image page q \<and> page_lsn q = page_lsn page"

lemma flushed_inv:
  assumes inv: "page_inv env n n0 q0 st page mtr_start" and sync: "page_sync renv n page st (block_id env)" and q: "flushed page q"
  shows "page_inv env n (page_lsn q) q st page mtr_start"
proof (cases "skipped st (block_id env)")
  case True
  then show ?thesis using inv by (simp add: page_inv_def)
next
  case False
  have "filter (\<lambda>s. page_lsn q \<le> start_lsn_of s) (page_recs st (block_id env)) = []"
    using page_sync_recs(2) [OF sync] q by (fastforce simp: flushed_def filter_empty_conv)
  then show ?thesis using False q recovers_base same_image_sym by (simp add: page_inv_def flushed_def)
qed

lemma flushed_recovers:
  assumes env: "block_ok env" "block_id env \<in> ids" and n: "256 \<le> n"
    and s1: "in_sync renv ids n s1 st1" "page_inv env n 0 q0 st1 (srv_pages s1 (block_id env)) mtr_start"
    and q: "flushed (srv_pages s1 (block_id env)) q"
    and s2: "in_sync renv ids n s2 st2" "hist_rel env n s1 st1 s2 st2" "srv_lsn s2 < 2 ^ 64"
  shows "\<exists>res. recv_recover env sp st2 q = Some (Some res) \<and> flushed (srv_pages s2 (block_id env)) (rec_frame res)"
proof -
  let ?idt = "block_id env"
  have ps: "page_sync renv n (srv_pages s1 ?idt) st1 ?idt" "page_sync renv n (srv_pages s2 ?idt) st2 ?idt" "lsn st2 = srv_lsn s2"
    using s1(1) s2(1) env(2) by (auto simp: in_sync_def)
  have len: "length (srv_pages s1 ?idt) = n" "length (srv_pages s2 ?idt) = n" "page_lsn (srv_pages s1 ?idt) \<le> lsn st1"
    using ps by (simp_all add: page_sync_def)
  have lsn: "page_lsn q = page_lsn (srv_pages s1 ?idt)" "length q = n"
    using q len(1) same_image_length by (auto simp: flushed_def)
  have inv: "page_inv env n (page_lsn q) q st2 (srv_pages s2 ?idt) mtr_start"
    using flushed_inv [OF s1(2) ps(1) q] s2(2) lsn(1) len(3) by (simp add: hist_rel_def Let_def)
  have recs: "\<forall>x \<in> set (page_recs st2 ?idt). 0 < start_lsn_of x \<and> lsn_of x < 2 ^ 64"
    using page_sync_recs(1,4) [OF ps(2)] ps(3) s2(3) by fastforce
  have newest: "page_recs st2 ?idt \<noteq> [] \<Longrightarrow> page_lsn (srv_pages s2 ?idt) = lsn_of (last (page_recs st2 ?idt))"
    using ps(2) by (simp add: page_sync_def)
  have same: "page_lsn (srv_pages s2 ?idt) = page_lsn q \<or>
      page_recs st2 ?idt \<noteq> [] \<and> page_lsn q \<le> start_lsn_of (last (page_recs st2 ?idt))"
    using s2(2) lsn(1) len(3) by (auto simp: hist_rel_def Let_def)
  have "\<not> found_corrupt_log st2" "32 \<le> length (srv_pages s2 ?idt)" using s2(1) len(2) n by (simp_all add: in_sync_def)
  then show ?thesis using recover_page [OF env(1) inv lsn(2) _ _ recs newest same] by (auto simp: flushed_def)
qed

section \<open>A torn write of the log\<close>

text \<open>What was read from \<open>k\<close> bytes of the log of the history \<open>h\<close> are its first mini-transactions, as many as end before.\<close>

definition read_up_to :: "log_t \<Rightarrow> server \<Rightarrow> nat \<Rightarrow> (page_id_t \<times> page_op) list list \<Rightarrow> (page_id_t \<times> page_op) list list \<Rightarrow> bool" where
  "read_up_to lg s k h h' \<longleftrightarrow>
     (\<exists>h''. h = h' @ h'' \<and> (h'' \<noteq> [] \<longrightarrow> length (srv_log s) + k \<le> length (srv_log (fold (mtr_commit lg) (h' @ [hd h'']) s))))"

lemma read_up_to_Cons:
  assumes "read_up_to lg (mtr_commit lg ops s) k' h h'" "length (srv_log (mtr_commit lg ops s)) + k' = length (srv_log s) + k"
  shows "read_up_to lg s k (ops # h) (ops # h')"
  using assms by (auto simp: read_up_to_def)

lemma torn_step:
  assumes "mtr_written m"
  shows "recv_scan renv lg (take k (fst (finish_writer lg (lsn st) m))) st = (PREMATURE_EOF, take k (fst (finish_writer lg (lsn st) m)), st)"
  using log_parse_start_torn [OF assms, of lg "lsn st" k]
  by (subst recv_scan.simps) (auto simp: recv_parse_def split: prod.splits)

definition torn_read ::
  "recv_env \<Rightarrow> log_t \<Rightarrow> page_id_t set \<Rightarrow> nat \<Rightarrow> server \<Rightarrow> recv_sys_t \<Rightarrow> byte list \<Rightarrow> nat \<Rightarrow> (page_id_t \<times> page_op) list list \<Rightarrow> bool" where
  "torn_read renv lg ids n s st l k h \<longleftrightarrow>
     (\<exists>h' rest st'. recv_scan renv lg (take k l) st = (PREMATURE_EOF, rest, st') \<and> read_up_to lg s k h h' \<and>
        in_sync renv ids n (fold (mtr_commit lg) h' s) st' \<and>
        (\<forall>env. block_ok env \<longrightarrow> block_id env \<in> ids \<longrightarrow> hist_rel env n s st (fold (mtr_commit lg) h' s) st'))"

lemma torn_read_here:
  assumes "in_sync renv ids n s st" "recv_scan renv lg (take k l) st = (PREMATURE_EOF, rest, st)" "read_up_to lg s k h []"
  shows "torn_read renv lg ids n s st l k h"
  unfolding torn_read_def using assms hist_rel_refl by (intro exI [of _ "[]"] exI [of _ rest] exI [of _ st]) simp

lemma torn_read_Cons:
  assumes rel: "\<forall>env. block_ok env \<longrightarrow> block_id env \<in> ids \<longrightarrow> hist_rel env n s st (mtr_commit lg ops s) st1"
    and t: "torn_read renv lg ids n (mtr_commit lg ops s) st1 l1 k1 h"
    and scan: "recv_scan renv lg (take k l) st = recv_scan renv lg (take k1 l1) st1"
    and len: "length (srv_log (mtr_commit lg ops s)) + k1 = length (srv_log s) + k"
  shows "torn_read renv lg ids n s st l k (ops # h)"
proof -
  let ?s1 = "mtr_commit lg ops s"
  obtain h' rest st' where h': "recv_scan renv lg (take k1 l1) st1 = (PREMATURE_EOF, rest, st')" "read_up_to lg ?s1 k1 h h'"
      "in_sync renv ids n (fold (mtr_commit lg) h' ?s1) st'"
      "\<forall>env. block_ok env \<longrightarrow> block_id env \<in> ids \<longrightarrow> hist_rel env n ?s1 st1 (fold (mtr_commit lg) h' ?s1) st'"
    using t unfolding torn_read_def by blast
  have "read_up_to lg s k (ops # h) (ops # h')" by (rule read_up_to_Cons [OF h'(2) len])
  then show ?thesis
    unfolding torn_read_def using h' rel scan hist_rel_trans
    by (intro exI [of _ "ops # h'"] exI [of _ rest] exI [of _ st']) (simp, blast)
qed

lemma hist_torn:
  assumes renv: "\<not> if_exists renv" "srv_page_size renv = n" "256 \<le> n" and lg: "crc_ok lg"
  shows "\<lbrakk>in_sync renv ids n s st; hist_good n ids lg h s; s' = fold (mtr_commit lg) h s; srv_lsn s' < 2 ^ 64;
      srv_log s' = srv_log s @ l; k \<le> length l\<rbrakk> \<Longrightarrow> torn_read renv lg ids n s st l k h"
proof (induction h arbitrary: s st l k)
  case Nil
  have "recv_scan renv lg [] st = (PREMATURE_EOF, [], st)"
    by (subst recv_scan.simps) (simp add: recv_parse_def log_parse_start_def)
  then show ?case using Nil by (intro torn_read_here) (simp_all add: read_up_to_def)
next
  case (Cons ops h)
  let ?s1 = "mtr_commit lg ops s"
  obtain pages1 m where m: "fold mtr_step ops (srv_pages s, mtr_start) = (pages1, m)" by fastforce
  have good: "mtr_good n ids ops (srv_pages s, mtr_start)" "length (m_log m) + 5 < MTR_SIZE_MAX" "hist_good n ids lg h ?s1"
    using Cons.prems(2) m by simp_all
  have s': "s' = fold (mtr_commit lg) h ?s1" "lsn st = srv_lsn s" "srv_lsn ?s1 < 2 ^ 64"
    using Cons.prems(1,3,4) hist_lsn_mono [of ?s1 lg h] by (simp_all add: in_sync_def)
  let ?l = "fst (finish_writer lg (srv_lsn s) m)"
  consider "m_log m = []" | "m_log m \<noteq> []" "k \<le> length ?l" | "m_log m \<noteq> []" "length ?l < k" by linarith
  then show ?case
  proof cases
    case 1
    then have s1: "?s1 = s" using commit_unlogged [OF good(1)] m by simp
    have "torn_read renv lg ids n s st l k h"
      by (rule Cons.IH [OF Cons.prems(1) good(3) [unfolded s1] s'(1) [unfolded s1] Cons.prems(4-6)])
    then show ?thesis by (intro torn_read_Cons [of ids n s st lg ops st renv l k h]) (simp_all add: s1 hist_rel_refl)
  next
    case 2
    obtain l2 where "srv_log s' = srv_log ?s1 @ l2" using hist_log [of lg h ?s1] s'(1) by auto
    then have "l = ?l @ l2" "srv_log ?s1 = srv_log s @ ?l" using Cons.prems(5) commit_logged [OF m 2(1)] by simp_all
    then show ?thesis
      using torn_step [OF commit_written [OF good(1) m 2(1) good(2)], of renv lg k st] s'(2) 2(2) Cons.prems(1)
      by (intro torn_read_here) (simp_all add: read_up_to_def)
  next
    case 3
    obtain l2 where l2: "srv_log s' = srv_log ?s1 @ l2" using hist_log [of lg h ?s1] s'(1) by auto
    then have l: "l = ?l @ l2" "srv_log ?s1 = srv_log s @ ?l" using Cons.prems(5) commit_logged [OF m 3(1)] by simp_all
    let ?k = "k - length ?l"
    have r: "take ?k l2 \<noteq> []" "take k l = ?l @ take ?k l2" "?k \<le> length l2" using 3(2) Cons.prems(6) l(1) by auto
    obtain st1 where st1: "recv_parse renv lg (take k l) st = (OK, take ?k l2, st1)" "in_sync renv ids n ?s1 st1"
        "\<forall>env. block_ok env \<longrightarrow> block_id env \<in> ids \<longrightarrow> hist_rel env n s st ?s1 st1"
      using commit_step [OF renv lg Cons.prems(1) good(1) m 3(1) good(2) refl s'(3) r(1)] r(2) by auto
    have "recv_scan renv lg (take k l) st = recv_scan renv lg (take ?k l2) st1" by (subst recv_scan.simps) (simp add: st1(1))
    then show ?thesis
      using torn_read_Cons [OF st1(3) Cons.IH [OF st1(2) good(3) s'(1) Cons.prems(4) l2 r(3)]] l(2) 3(2) by simp
  qed
qed

end
