(* ===== verification/Page_Checksum.thy ===== *)
theory Page_Checksum
  imports Redo_Crash
begin

text \<open>
  The checksums of pages in data files: what is stored when a page is written
  (\<open>buf_flush_init_for_writing\<close> in \<open>src/storage/innobase/buf/buf0flu.cc\<close>), and the check when
  it is read (\<open>buf_page_is_corrupted\<close> in \<open>src/storage/innobase/buf/buf0buf.cc\<close>), in
  the format that covers the whole page (full_crc32), in the older one, and for compressed pages.
\<close>

unbundle bit_operations_syntax

section \<open>Checksums\<close>

datatype srv_checksum_algorithm_t = CRC32 | STRICT_CRC32 | FULL_CRC32 | STRICT_FULL_CRC32

record checksum_env =
  cs_page_size :: nat
  cs_algorithm :: srv_checksum_algorithm_t
  cs_flushed_lsn :: nat
  cs_force_recovery :: nat
  cs_crc32c :: "nat \<Rightarrow> byte list \<Rightarrow> nat"
  cs_adler32 :: "nat \<Rightarrow> byte list \<Rightarrow> nat"

definition strict_algorithm :: "srv_checksum_algorithm_t \<Rightarrow> bool" where
  "strict_algorithm a \<longleftrightarrow> a = STRICT_CRC32 \<or> a = STRICT_FULL_CRC32"

definition BUF_NO_CHECKSUM_MAGIC :: nat where "BUF_NO_CHECKSUM_MAGIC = 0xDEADBEEF"

definition buf_calc_page_crc32 :: "checksum_env \<Rightarrow> byte list \<Rightarrow> nat" where
  "buf_calc_page_crc32 env page =
     cs_crc32c env 0 (take (26 - 4) (drop 4 page)) XOR
     cs_crc32c env 0 (take (cs_page_size env - (38 + 8)) (drop 38 page))"

text \<open>The hash function of older versions, in 64 bits.\<close>

definition ut_fold_ulint_pair :: "nat \<Rightarrow> nat \<Rightarrow> nat" where
  "ut_fold_ulint_pair n1 n2 =
     (((push_bit 8 (n1 XOR n2 XOR 1653893711) + n1) mod 2 ^ 64 XOR 1463735687) + n2) mod 2 ^ 64"

definition ut_fold_binary :: "byte list \<Rightarrow> nat" where
  "ut_fold_binary str = fold (\<lambda>b a. ut_fold_ulint_pair a (unat b)) str 0"

definition buf_calc_page_new_checksum :: "checksum_env \<Rightarrow> byte list \<Rightarrow> nat" where
  "buf_calc_page_new_checksum env page =
     (ut_fold_binary (take (26 - 4) (drop 4 page)) +
      ut_fold_binary (take (cs_page_size env - 38 - 8) (drop 38 page))) mod 2 ^ 32"

definition buf_calc_page_old_checksum :: "byte list \<Rightarrow> nat" where
  "buf_calc_page_old_checksum page = ut_fold_binary (take 26 page) mod 2 ^ 32"

definition page_zip_calc_checksum :: "checksum_env \<Rightarrow> byte list \<Rightarrow> nat \<Rightarrow> bool \<Rightarrow> nat" where
  "page_zip_calc_checksum env s psize use_adler =
     (if \<not> use_adler
      then cs_crc32c env 0 (take (16 - 4) (drop 4 s)) XOR cs_crc32c env 0 (take 2 (drop FIL_PAGE_TYPE s)) XOR
           cs_crc32c env 0 (take (psize - 34) (drop 34 s))
      else let adler = cs_adler32 env 0 (take (16 - 4) (drop 4 s));
               adler = cs_adler32 env adler (take 2 (drop FIL_PAGE_TYPE s))
           in cs_adler32 env adler (take (psize - 34) (drop 34 s)) mod 2 ^ 32)"

section \<open>Reading\<close>

text \<open>A check that would read outside of the page has no result.\<close>

datatype buf_page_is_corrupted_reason = CORRUPTED_FUTURE_LSN | NOT_CORRUPTED | CORRUPTED_OTHER

definition fil_page_get_type :: "byte list \<Rightarrow> nat" where
  "fil_page_get_type page = mach_read_from_2 (drop FIL_PAGE_TYPE page)"

definition full_crc32 :: "nat \<Rightarrow> bool" where
  "full_crc32 flags \<longleftrightarrow> flags AND push_bit 4 1 \<noteq> 0"

definition zip_size :: "nat \<Rightarrow> nat" where
  "zip_size flags =
     (if full_crc32 flags then 0
      else let zip_ssize = drop_bit 1 (flags AND push_bit 1 0xF)
           in if zip_ssize \<noteq> 0 then push_bit zip_ssize (drop_bit 1 1024) else 0)"

definition has_page_compression :: "nat \<Rightarrow> bool" where
  "has_page_compression flags \<longleftrightarrow> flags AND push_bit 16 1 \<noteq> 0"

text \<open>The size, and whether the page is compressed or corrupted.\<close>

definition buf_page_full_crc32_size :: "nat \<Rightarrow> byte list \<Rightarrow> nat \<times> bool \<times> bool" where
  "buf_page_full_crc32_size page_size buf =
     (let t = fil_page_get_type buf
      in if t AND push_bit 15 1 = 0 then (page_size, False, False)
         else let t = push_bit 8 (t - push_bit 15 1)
              in if t < page_size then (t, True, False) else (page_size, False, True))"

definition buf_page_is_checksum_valid_crc32 :: "checksum_env \<Rightarrow> byte list \<Rightarrow> nat \<Rightarrow> nat \<Rightarrow> bool" where
  "buf_page_is_checksum_valid_crc32 env read_buf checksum_field1 checksum_field2 \<longleftrightarrow>
     checksum_field1 = checksum_field2 \<and> checksum_field1 = buf_calc_page_crc32 env read_buf"

definition buf_page_check_lsn :: "checksum_env \<Rightarrow> bool \<Rightarrow> byte list \<Rightarrow> bool" where
  "buf_page_check_lsn env check_lsn read_buf \<longleftrightarrow>
     check_lsn \<and> \<not> (cs_flushed_lsn env = 12288 \<and> cs_force_recovery env = 6) \<and>
     cs_flushed_lsn env < page_lsn read_buf \<and> cs_force_recovery env = 0"

definition buf_is_zeroes :: "byte list \<Rightarrow> bool" where
  "buf_is_zeroes buf \<longleftrightarrow> list_all (\<lambda>b. b = 0) buf"

definition page_zip_verify_checksum :: "checksum_env \<Rightarrow> byte list \<Rightarrow> nat \<Rightarrow> bool" where
  "page_zip_verify_checksum env data psize =
     (if buf_is_zeroes (take psize data) then True
      else let stored = mach_read_from_4 data
           in if stored = page_zip_calc_checksum env data psize False then True
              else if strict_algorithm (cs_algorithm env) then False
              else if stored = BUF_NO_CHECKSUM_MAGIC then True
              else stored = page_zip_calc_checksum env data psize True)"

definition check_lsn_result :: "checksum_env \<Rightarrow> bool \<Rightarrow> byte list \<Rightarrow> buf_page_is_corrupted_reason" where
  "check_lsn_result env check_lsn read_buf =
     (if buf_page_check_lsn env check_lsn read_buf then CORRUPTED_FUTURE_LSN else NOT_CORRUPTED)"

definition full_crc32_corrupted :: "checksum_env \<Rightarrow> bool \<Rightarrow> byte list \<Rightarrow> buf_page_is_corrupted_reason option" where
  "full_crc32_corrupted env check_lsn read_buf =
     (case buf_page_full_crc32_size (cs_page_size env) read_buf of (psize, compressed, corrupted) \<Rightarrow>
        if corrupted then Some CORRUPTED_OTHER
        else let end_ofs = (psize + 2 ^ 32 - 4) mod 2 ^ 32
             in if end_ofs + 4 > length read_buf then None
                else let crc32 = mach_read_from_4 (drop end_ofs read_buf)
                     in if crc32 = 0 \<and> psize = cs_page_size env \<and> buf_is_zeroes (take psize read_buf) then Some NOT_CORRUPTED
                        else if crc32 \<noteq> cs_crc32c env 0 (take end_ofs read_buf) then Some CORRUPTED_OTHER
                        else if \<not> compressed \<and> mach_read_from_4 read_buf = 0 \<and>
                                take 4 (drop 20 read_buf) \<noteq> take 4 (drop (end_ofs - 4) read_buf) then Some CORRUPTED_OTHER
                        else Some (check_lsn_result env check_lsn read_buf))"

text \<open>All bytes are zero, except for the eight from \<open>FIL_PAGE_FILE_FLUSH_LSN_OR_KEY_VERSION\<close> on.\<close>

definition all_zeroes :: "nat \<Rightarrow> byte list \<Rightarrow> bool" where
  "all_zeroes psize page \<longleftrightarrow> buf_is_zeroes (take 26 page) \<and> buf_is_zeroes (take (psize - 34) (drop 34 page))"

definition old_checksums_match :: "checksum_env \<Rightarrow> byte list \<Rightarrow> nat \<Rightarrow> nat \<Rightarrow> bool" where
  "old_checksums_match env read_buf f1 f2 =
     (let crc32 = buf_calc_page_crc32 env read_buf
      in if f2 \<noteq> mach_read_from_4 (drop FIL_PAGE_LSN read_buf) \<and> f2 \<noteq> BUF_NO_CHECKSUM_MAGIC \<and>
            (f1 \<noteq> crc32 \<or> f2 \<noteq> crc32) \<and> f2 \<noteq> buf_calc_page_old_checksum read_buf then False
         else if f1 = 0 \<or> f1 = BUF_NO_CHECKSUM_MAGIC then True
         else \<not> ((f1 \<noteq> crc32 \<or> f2 \<noteq> crc32) \<and> f1 \<noteq> buf_calc_page_new_checksum env read_buf))"

definition buf_page_is_corrupted :: "checksum_env \<Rightarrow> bool \<Rightarrow> byte list \<Rightarrow> nat \<Rightarrow> buf_page_is_corrupted_reason option" where
  "buf_page_is_corrupted env check_lsn read_buf fsp_flags =
     (if full_crc32 fsp_flags then full_crc32_corrupted env check_lsn read_buf
      else let zsize = zip_size fsp_flags; page_type = fil_page_get_type read_buf; n = cs_page_size env
           in if (page_type = 34354 \<or> page_type = 37401) \<and> has_page_compression fsp_flags
              then Some (check_lsn_result env check_lsn read_buf)
              else if zsize = 0 \<and> take 4 (drop 20 read_buf) \<noteq> take 4 (drop (n - 8 + 4) read_buf) then Some CORRUPTED_OTHER
              else if zsize \<noteq> 0 then
                if page_zip_verify_checksum env read_buf zsize then Some (check_lsn_result env check_lsn read_buf)
                else Some CORRUPTED_OTHER
              else let f1 = mach_read_from_4 read_buf; f2 = mach_read_from_4 (drop (n - 8) read_buf)
                   in if f1 = 0 \<and> f2 = 0 \<and> all_zeroes n read_buf then Some NOT_CORRUPTED
                      else if strict_algorithm (cs_algorithm env) then
                        if buf_page_is_checksum_valid_crc32 env read_buf f1 f2
                        then Some (check_lsn_result env check_lsn read_buf) else Some CORRUPTED_OTHER
                      else if f1 = BUF_NO_CHECKSUM_MAGIC \<and> f2 = BUF_NO_CHECKSUM_MAGIC
                      then Some (check_lsn_result env check_lsn read_buf)
                      else if old_checksums_match env read_buf f1 f2 then Some (check_lsn_result env check_lsn read_buf)
                      else Some CORRUPTED_OTHER)"

section \<open>Writing\<close>

definition buf_flush_update_zip_checksum :: "checksum_env \<Rightarrow> byte list \<Rightarrow> nat \<Rightarrow> byte list" where
  "buf_flush_update_zip_checksum env page psize = put 0 (mach_write_to_4 (page_zip_calc_checksum env page psize False)) page"

definition buf_flush_assign_full_crc32_checksum :: "checksum_env \<Rightarrow> byte list \<Rightarrow> byte list" where
  "buf_flush_assign_full_crc32_checksum env page =
     (let payload = cs_page_size env - 4 in put payload (mach_write_to_4 (cs_crc32c env 0 (take payload page))) page)"

text \<open>The type that a page has to have, for pages of 16 KiB.\<close>

definition reset_type :: "page_id_t \<Rightarrow> nat \<Rightarrow> nat" where
  "reset_type idt page_type =
     (if page_no idt mod 16384 = 0 then if page_no idt = 0 then 8 else 9
      else if page_no idt mod 16384 = 1 then 5
      else if page_no idt mod 16384 = 5 \<and> space idt = 0 \<and> page_no idt = 5 then 7
      else if page_type \<in> {17855, 18, 17854, 2, 3, 4, 0, 6, 7, 10, 11, 12} then page_type
      else 13)"

text \<open>\<open>block\<close> is the identifier of the page, unless the buffer pool is bypassed; for a compressed page see \<open>buf_flush_zip\<close>.\<close>

definition buf_flush_init_for_writing :: "checksum_env \<Rightarrow> page_id_t option \<Rightarrow> bool \<Rightarrow> byte list \<Rightarrow> byte list" where
  "buf_flush_init_for_writing env block use_full_checksum page =
     (let n = cs_page_size env
      in if use_full_checksum then
           buf_flush_assign_full_crc32_checksum env (put (n - 8) (take 4 (drop (FIL_PAGE_LSN + 4) page)) page)
         else let page = put (n - 8) (take 8 (drop FIL_PAGE_LSN page)) page;
                  page_type = fil_page_get_type page;
                  page = (case block of
                            Some idt \<Rightarrow>
                              if n = 16384 \<and> page_type \<noteq> reset_type idt page_type
                              then put FIL_PAGE_TYPE (mach_write_to_2 (reset_type idt page_type)) page else page
                          | None \<Rightarrow> page);
                  checksum = buf_calc_page_crc32 env page
              in put (n - 8) (mach_write_to_4 checksum) (put 0 (mach_write_to_4 checksum) page))"

text \<open>For a compressed page with the uncompressed frame \<open>page\<close>; any other type aborts the server.\<close>

definition buf_flush_zip :: "checksum_env \<Rightarrow> nat \<Rightarrow> byte list \<Rightarrow> byte list \<Rightarrow> byte list option" where
  "buf_flush_zip env psize page zip_data =
     (let t = fil_page_get_type page
      in if t \<in> {0, 3, 5, 8, 9} then Some (buf_flush_update_zip_checksum env (take psize page @ drop psize zip_data) psize)
         else if t \<in> {11, 12, 17855, 17854} then Some (buf_flush_update_zip_checksum env zip_data psize)
         else None)"

section \<open>What was written is accepted\<close>

definition sums_ok :: "checksum_env \<Rightarrow> bool" where
  "sums_ok env \<longleftrightarrow> (\<forall>c l. cs_crc32c env c l < 2 ^ 32) \<and> 256 \<le> cs_page_size env \<and> cs_page_size env \<le> 2 ^ 16"

lemma xor_less_32: "a < 2 ^ 32 \<Longrightarrow> b < 2 ^ 32 \<Longrightarrow> a XOR b < (2 ^ 32 :: nat)"
proof -
  assume "a < 2 ^ 32" "b < 2 ^ 32"
  then have "take_bit 32 (a XOR b) = a XOR b" by (simp only: take_bit_xor take_bit_nat_eq_self)
  then show ?thesis using take_bit_nat_less_exp [of 32 "a XOR b"] by simp
qed

lemma length_write_4 [simp]: "length (mach_write_to_4 k) = 4"
  by (simp add: mach_write_to_4_def)

lemma read_4_cong: "take 4 a = take 4 b \<Longrightarrow> 4 \<le> length a \<Longrightarrow> 4 \<le> length b \<Longrightarrow> mach_read_from_4 a = mach_read_from_4 b"
  by (simp add: mach_read_4)

lemma read_put_4: "ofs + 4 \<le> length page \<Longrightarrow> k < 2 ^ 32 \<Longrightarrow> mach_read_from_4 (drop ofs (put ofs (mach_write_to_4 k) page)) = k"
  using drop_put [of ofs page "mach_write_to_4 k"] by (simp add: put_def)

lemma page_lsn_cong:
  assumes "take 8 (drop 16 a) = take 8 (drop 16 b)" "24 \<le> length a" "24 \<le> length b"
  shows "page_lsn a = page_lsn b"
proof -
  have 1: "take 4 (drop 16 a) = take 4 (drop 16 b)"
    using arg_cong [where f = "take 4", OF assms(1)] by simp
  have 2: "take 4 (drop 20 a) = take 4 (drop 20 b)"
    using arg_cong [where f = "drop 4", OF assms(1)] by (simp add: drop_take)
  show ?thesis using assms(2,3) read_4_cong [OF 1] read_4_cong [OF 2] by (simp add: page_lsn_def mach_read_from_8_def)
qed

lemma wrap_minus_4:
  assumes "4 \<le> k" "k < 2 ^ 32"
  shows "(k + 2 ^ 32 - 4) mod 2 ^ 32 = (k - 4 :: nat)"
proof -
  have "k + 2 ^ 32 - 4 = (k - 4) + 2 ^ 32" using assms(1) by simp
  then show ?thesis using assms(2) by (simp only: mod_add_self2) simp
qed

lemma page_type_cong:
  "take 2 (drop 24 a) = take 2 (drop 24 b) \<Longrightarrow> 26 \<le> length a \<Longrightarrow> 26 \<le> length b \<Longrightarrow> fil_page_get_type a = fil_page_get_type b"
  unfolding fil_page_get_type_def FIL_PAGE_TYPE_def by (rule mach_read_2_cong) simp_all

lemma zero_page_lsn: "buf_is_zeroes page \<Longrightarrow> 24 \<le> length page \<Longrightarrow> page_lsn page = 0"
proof -
  assume z: "buf_is_zeroes page" and len: "24 \<le> length page"
  have "take 4 (drop a page) = replicate 4 0" if "a + 4 \<le> length page" for a
    using z that by (intro nth_equalityI) (auto simp: buf_is_zeroes_def list_all_length)
  then have "mach_read_from_4 (drop a page) = mach_read_from_4 (replicate 4 0)" if "a + 4 \<le> length page" for a
    using that by (intro read_4_cong) simp_all
  moreover have "replicate 4 (0 :: byte) = [0, 0, 0, 0]" by (simp add: numeral_eq_Suc)
  then have "mach_read_from_4 (replicate 4 0) = 0" by (simp add: mach_read_from_4_def)
  ultimately show ?thesis using len by (simp add: page_lsn_def mach_read_from_8_def)
qed

lemma flush_full:
  assumes env: "sums_ok env" "length page = cs_page_size env" "fil_page_get_type page AND push_bit 15 1 = 0"
    and p_def: "p = buf_flush_init_for_writing env block True page"
  shows "full_crc32_corrupted env c p = Some (check_lsn_result env c page)" "flushed page p"
proof -
  let ?n = "cs_page_size env"
  define p1 where "p1 = put (?n - 8) (take 4 (drop 20 page)) page"
  define crc where "crc = cs_crc32c env 0 (take (?n - 4) p1)"
  have n: "256 \<le> ?n" "?n \<le> 2 ^ 16" "crc < 2 ^ 32" using env(1) by (simp_all add: sums_ok_def crc_def)
  have p: "p = put (?n - 4) (mach_write_to_4 crc) p1"
    by (simp add: p_def buf_flush_init_for_writing_def buf_flush_assign_full_crc32_checksum_def Let_def p1_def crc_def)
  have len: "length p1 = ?n" "length p = ?n" using n env(2) by (simp_all add: p p1_def)
  have area: "take k (drop a p) = take k (drop a page)" if "a + k + 8 \<le> ?n" for a k
  proof -
    have "take k (drop a p) = take k (drop a p1)" unfolding p by (rule area_put) (use that n len in simp_all)
    also have "\<dots> = take k (drop a page)" unfolding p1_def by (rule area_put) (use that n env(2) in auto)
    finally show ?thesis .
  qed
  have type: "fil_page_get_type p = fil_page_get_type page"
    by (rule page_type_cong) (use area [of 24 2] n len env(2) in simp_all)
  have lsn: "page_lsn p = page_lsn page" by (rule page_lsn_cong) (use area [of 16 8] n len env(2) in simp_all)
  have sz: "buf_page_full_crc32_size ?n p = (?n, False, False)" using env(3) type by (simp add: buf_page_full_crc32_size_def)
  have ofs: "(?n + 2 ^ 32 - 4) mod 2 ^ 32 = ?n - 4" by (rule wrap_minus_4) (use n in simp_all)
  have stored: "mach_read_from_4 (drop (?n - 4) p) = crc" unfolding p using read_put_4 n len by simp
  have calc: "cs_crc32c env 0 (take (?n - 4) p) = crc" using n len by (simp add: p put_def crc_def)
  have tail: "take 4 (drop (?n - 8) p) = take 4 (drop 20 page)"
    using n len env(2) area_put [of "?n - 8" 4 p1 "?n - 4" "mach_write_to_4 crc"] drop_put [of "?n - 8" page "take 4 (drop 20 page)"]
    by (simp add: p p1_def)
  have zero: "page_lsn page = 0" if "buf_is_zeroes (take ?n p)"
    using zero_page_lsn [of p] that len n lsn by simp
  show "full_crc32_corrupted env c p = Some (check_lsn_result env c page)"
    unfolding full_crc32_corrupted_def sz prod.case Let_def ofs stored calc
    using n len tail area [of 20 4] zero lsn by (simp add: check_lsn_result_def buf_page_check_lsn_def)
  have "same_image page p1" "same_image p1 p"
    using n len env(2) unfolding p p1_def by (auto simp: volatile_def intro!: same_image_volatile)
  then show "flushed page p" using lsn same_image_trans by (auto simp: flushed_def)
qed

lemma flush_old:
  assumes env: "sums_ok env" "length page = cs_page_size env" and flags: "\<not> full_crc32 flags" "zip_size flags = 0"
    and p_def: "p = buf_flush_init_for_writing env block False page"
  shows "buf_page_is_corrupted env c p flags = Some (check_lsn_result env c page)"
    "(\<And>idt. block = Some idt \<Longrightarrow> cs_page_size env = 16384 \<Longrightarrow> reset_type idt (fil_page_get_type page) = fil_page_get_type page) \<Longrightarrow>
     flushed page p"
proof -
  let ?n = "cs_page_size env" and ?lsn = "take 8 (drop 16 page)"
  define p1 where "p1 = put (?n - 8) ?lsn page"
  define p2 where "p2 = (case block of
      Some idt \<Rightarrow> if ?n = 16384 \<and> fil_page_get_type p1 \<noteq> reset_type idt (fil_page_get_type p1)
        then put FIL_PAGE_TYPE (mach_write_to_2 (reset_type idt (fil_page_get_type p1))) p1 else p1
    | None \<Rightarrow> p1)"
  define crc where "crc = buf_calc_page_crc32 env p2"
  define p3 where "p3 = put 0 (mach_write_to_4 crc) p2"
  have n: "256 \<le> ?n" "?n \<le> 2 ^ 16" "crc < 2 ^ 32"
    using env(1) xor_less_32 by (simp_all add: sums_ok_def crc_def buf_calc_page_crc32_def)
  have p: "p = put (?n - 8) (mach_write_to_4 crc) p3"
    unfolding p_def buf_flush_init_for_writing_def Let_def p3_def crc_def p2_def p1_def by (simp only: if_False)
  have len: "length p1 = ?n" "length p2 = ?n" "length p3 = ?n" "length p = ?n"
    using n env(2) by (simp_all add: p p1_def p2_def p3_def FIL_PAGE_TYPE_def split: option.split)
  have p2: "take k (drop a p2) = take k (drop a p1)" if "a + k \<le> 24 \<or> 26 \<le> a" "a + k \<le> ?n" for a k
    using that len(1) n by (auto simp: p2_def area_put FIL_PAGE_TYPE_def split: option.split)
  have p1: "take k (drop a p1) = take k (drop a page)" if "a + k + 8 \<le> ?n" for a k
    unfolding p1_def by (rule area_put) (use that n env(2) in auto)
  have p3: "take k (drop a p) = take k (drop a p2)" if "4 \<le> a" "a + k + 8 \<le> ?n \<or> ?n \<le> a + 4" "a + k \<le> ?n" for a k
  proof -
    have "take k (drop a p) = take k (drop a p3)" unfolding p by (rule area_put) (use that n len in auto)
    also have "\<dots> = take k (drop a p2)" unfolding p3_def by (rule area_put) (use that n len in auto)
    finally show ?thesis .
  qed
  have lsn: "page_lsn p = page_lsn page"
    by (rule page_lsn_cong) (use p3 [of 16 8] p2 [of 16 8] p1 [of 16 8] n len env(2) in simp_all)
  have f1: "mach_read_from_4 p = crc"
  proof -
    have "take 4 (drop 0 p) = take 4 (drop 0 p3)" unfolding p by (rule area_put) (use n len in auto)
    then have "mach_read_from_4 p = mach_read_from_4 p3" using n len by (intro read_4_cong) simp_all
    then show ?thesis using read_put_4 [of 0 p2 crc] n len by (simp add: p3_def)
  qed
  have f2: "mach_read_from_4 (drop (?n - 8) p) = crc" unfolding p by (rule read_put_4) (use n len in simp_all)
  have calc: "buf_calc_page_crc32 env p = crc" using p3 [of 4 22] p3 [of 38 "?n - 46"] n by (simp add: buf_calc_page_crc32_def crc_def)
  have tail: "take 4 (drop 20 p) = take 4 (drop (?n - 4) p)"
  proof -
    have "take 4 (drop (?n - 4) p) = take 4 (drop (?n - 4) p1)" using p3 [of "?n - 4" 4] p2 [of "?n - 4" 4] n by simp
    also have "\<dots> = drop 4 ?lsn"
      using arg_cong [where f = "drop 4", OF drop_put [of "?n - 8" page ?lsn]] n env(2) by (simp add: p1_def drop_take add.commute)
    also have "\<dots> = take 4 (drop 20 p)" using p3 [of 20 4] p2 [of 20 4] p1 [of 20 4] n by (simp add: drop_take)
    finally show ?thesis ..
  qed
  have zero: "page_lsn page = 0" if "all_zeroes ?n p"
    using zero_page_lsn [of "take 26 p"] that page_lsn_cong [of "take 26 p" p] lsn n len by (simp add: all_zeroes_def drop_take)
  show "buf_page_is_corrupted env c p flags = Some (check_lsn_result env c page)"
    using flags zero lsn n tail unfolding buf_page_is_corrupted_def Let_def f1 f2
    by (simp add: calc buf_page_is_checksum_valid_crc32_def old_checksums_match_def check_lsn_result_def buf_page_check_lsn_def)
  show "flushed page p" if t: "\<And>idt. block = Some idt \<Longrightarrow> ?n = 16384 \<Longrightarrow> reset_type idt (fil_page_get_type page) = fil_page_get_type page"
  proof -
    have "fil_page_get_type p1 = fil_page_get_type page"
      by (rule page_type_cong) (use p1 [of 24 2] n len env(2) in simp_all)
    then have "p2 = p1" using t by (auto simp: p2_def split: option.split)
    moreover have "same_image page p1" "same_image p2 p3" "same_image p3 p"
      using n len env(2) unfolding p p1_def p3_def by (auto simp: volatile_def intro!: same_image_volatile)
    ultimately show ?thesis using lsn same_image_trans by (metis flushed_def)
  qed
qed

lemma zip_verify:
  assumes "\<And>c l. cs_crc32c env c l < 2 ^ 32" "34 < k" "k \<le> length s"
  shows "page_zip_verify_checksum env (buf_flush_update_zip_checksum env s k) k"
proof -
  define z where "z = put 0 (mach_write_to_4 (page_zip_calc_checksum env s k False)) s"
  have area: "take j (drop a z) = take j (drop a s)" if "4 \<le> a" "a + j \<le> length s" for a j
    unfolding z_def by (rule area_put) (use that assms(2,3) in auto)
  have "page_zip_calc_checksum env s k False < 2 ^ 32" using assms(1) xor_less_32 by (simp add: page_zip_calc_checksum_def)
  then have "mach_read_from_4 z = page_zip_calc_checksum env s k False"
    using read_put_4 [of 0 s] assms(2,3) by (simp add: z_def)
  moreover have "page_zip_calc_checksum env z k False = page_zip_calc_checksum env s k False"
    using area [of 4 12] area [of 24 2] area [of 34 "k - 34"] assms(2,3) by (simp add: page_zip_calc_checksum_def FIL_PAGE_TYPE_def)
  ultimately show ?thesis by (simp add: page_zip_verify_checksum_def buf_flush_update_zip_checksum_def z_def [symmetric])
qed

text \<open>The only page for which the check has no result is one whose type says that it is compressed to nothing.\<close>

lemma full_crc32_undefined:
  assumes "length page = cs_page_size env" "256 \<le> cs_page_size env" "cs_page_size env \<le> 2 ^ 16"
  shows "full_crc32_corrupted env c page = None \<longleftrightarrow> fil_page_get_type page = push_bit 15 1"
proof -
  let ?t = "fil_page_get_type page" and ?n = "cs_page_size env"
  have t: "?t < 2 ^ 16" using assms mach_read_2_less [of "drop 24 page"] by (simp add: fil_page_get_type_def FIL_PAGE_TYPE_def)
  have bit: "?t AND push_bit 15 1 = 0 \<longleftrightarrow> ?t < 2 ^ 15"
  proof -
    have "?t div 2 ^ 15 < 2" using t by (simp add: div_less_iff_less_mult)
    then have "bit ?t 15 \<longleftrightarrow> \<not> ?t < 2 ^ 15" by (cases "?t div 2 ^ 15 = 0") (auto simp: bit_iff_odd div_eq_0_iff)
    then show ?thesis by (simp add: push_bit_eq_mult and_exp_eq_0_iff_not_bit [where n = 15, simplified])
  qed
  define k where "k = push_bit 8 (?t - push_bit 15 1)"
  have k: "k < 256 \<longleftrightarrow> ?t \<le> 2 ^ 15" "k = 0 \<longleftrightarrow> ?t \<le> 2 ^ 15" by (auto simp: k_def push_bit_eq_mult)
  have at: "full_crc32_corrupted env c page = None \<longleftrightarrow> (j + 2 ^ 32 - 4) mod 2 ^ 32 + 4 > ?n"
    if "buf_page_full_crc32_size ?n page = (j, b, False)" for j b
    using assms(1) by (simp add: full_crc32_corrupted_def that Let_def)
  consider "?t < 2 ^ 15" | "?t = 2 ^ 15" | "2 ^ 15 < ?t" "k < ?n" | "2 ^ 15 < ?t" "\<not> k < ?n" by linarith
  then show ?thesis
  proof cases
    case 1
    then show ?thesis using at [of ?n False] bit assms wrap_minus_4 [of ?n] by (simp add: buf_page_full_crc32_size_def Let_def push_bit_eq_mult)
  next
    case 2
    then show ?thesis using at [of 0 True] bit assms by (simp add: buf_page_full_crc32_size_def Let_def push_bit_eq_mult)
  next
    case 3
    then have "buf_page_full_crc32_size ?n page = (k, True, False)" using bit by (simp add: buf_page_full_crc32_size_def Let_def k_def)
    then show ?thesis using at [of k True] 3 k assms wrap_minus_4 [of k] by (simp add: push_bit_eq_mult)
  next
    case 4
    then have "buf_page_full_crc32_size ?n page = (?n, False, True)" using bit by (simp add: buf_page_full_crc32_size_def Let_def k_def)
    then show ?thesis using 4(1) by (simp add: full_crc32_corrupted_def push_bit_eq_mult)
  qed
qed

end
