(* ===== verification/Redo_Properties.thy ===== *)
theory Redo_Properties
  imports Redo_Parse
begin

text \<open>
  The properties of the redo log: that recovery computes the pages that a mini-transaction
  left, the record format, and the behaviour on malformed records, each with an instance that shows that its
  hypotheses can hold.
\<close>

unbundle bit_operations_syntax

section \<open>Examples\<close>

definition example_page :: "nat \<Rightarrow> page_id_t" where
  "example_page n = \<lparr>space = 1, page_no = n\<rparr>"

definition example_env :: "page_id_t \<Rightarrow> block_env" where
  "example_env idt = \<lparr>block_id = idt, zipped = False, force_recovery = False, encryption_offset = 0,
     my_crc32c = (\<lambda>crc b. crc)\<rparr>"

definition example_ops :: "(page_id_t \<times> page_op) list" where
  "example_ops =
     [(example_page 5, Init_Page), (example_page 6, Memset 40 10 7), (example_page 5, Write 4 NORMAL 100 5),
      (example_page 5, Memmove 120 100 20), (example_page 6, Create_Page True),
      (example_page 5, Memset_Str 3 200 [1, 2])]"

definition example_mtr :: mtr_t where
  "example_mtr = \<lparr>m_log = [], m_last = Some (example_page 5), m_last_offset = 90, m_logged = True\<rparr>"

text \<open>Except for undo records and records of index pages, only the size of the page matters.\<close>

fun sized_op :: "page_op \<Rightarrow> bool" where
  "sized_op (Add_Undo data) \<longleftrightarrow> False"
| "sized_op (Insert_Rec cur hdr data fextra fdata) \<longleftrightarrow> False"
| "sized_op (Delete_Rec ix current extra_size data_size) \<longleftrightarrow> False"
| "sized_op _ \<longleftrightarrow> True"

lemma op_ok_size:
  "length page = length page' \<Longrightarrow> sized_op op \<Longrightarrow> op_ok idt op page \<longleftrightarrow> op_ok idt op page'"
  by (cases op) auto

lemma mtr_ok_size:
  assumes "256 \<le> length page"
  shows "(\<And>idt. length (fst s idt) = length page) \<Longrightarrow>
    (\<And>idt op. (idt, op) \<in> set xs \<Longrightarrow> op_ok idt op page \<and> sized_op op) \<Longrightarrow> mtr_ok xs s"
proof (induction xs arbitrary: s)
  case (Cons x xs)
  have ok: "op_ok (fst x) (snd x) (fst s (fst x))"
    using Cons.prems(2) [of "fst x" "snd x"] op_ok_size [OF Cons.prems(1), of "snd x"] by simp
  then have "length (fst (mtr_step x s) idt) = length page" for idt
    using length_op [OF ok] Cons.prems(1) assms by (simp add: mtr_step_eq)
  moreover have "op_ok idt op page \<and> sized_op op" if "(idt, op) \<in> set xs" for idt op
    using Cons.prems(2) [of idt op] that by simp
  ultimately have "mtr_ok xs (mtr_step x s)" by (rule Cons.IH)
  then show ?case using ok by simp
qed simp

lemma example_ops_ok:
  "pages_ok (\<lambda>_. replicate 256 0) (insert (example_page 5) (fst ` set example_ops))"
  "mtr_ok example_ops (\<lambda>_. replicate 256 0, mtr_start)"
proof -
  show "mtr_ok example_ops (\<lambda>_. replicate 256 0, mtr_start)"
    by (rule mtr_ok_size [of "replicate 256 0"]) (auto simp: example_ops_def example_page_def)
qed (simp add: pages_ok_def page_ok_def example_ops_def example_page_def)

section \<open>Properties\<close>





text \<open>C29. The variable length integers of the log: what was encoded is decoded, whatever follows it, its length is known from the first
  byte, and is at most 5 bytes.\<close>

theorem redo_varint_round_trip:
  assumes "n < 2 ^ 32"
  shows "mlog_decode_varint (mlog_encode_varint n @ r) = n \<and>
    mlog_decode_varint_length ((mlog_encode_varint n @ r) ! 0) = length (mlog_encode_varint n) \<and>
    length (mlog_encode_varint n) \<in> {1..5}"
  using varint_round_trip [OF assms] length_varint(2,3) by simp

theorem redo_varint_round_trip_witness:
  "mlog_decode_varint (mlog_encode_varint 70000 @ [1]) = 70000 \<and>
   mlog_decode_varint_length ((mlog_encode_varint 70000 @ [1]) ! 0) = length (mlog_encode_varint 70000) \<and>
   length (mlog_encode_varint 70000) \<in> {1..5}"
  by (rule redo_varint_round_trip) simp

text \<open>C30. The length in the first bytes of a record delimits it: after any record type, with any page identifier, offset
  and payload, the parser finds the end of the record at the end of its payload.\<close>

theorem redo_record_framing:
  assumes "type \<in> log_types" "0 < length p" "length p < 2 ^ 18" "type \<noteq> INIT_PAGE" "type \<noteq> FREE_PAGE"
  shows "\<exists>h. m_log (log_write type idt bpage (length p) offset m) = m_log m @ h \<and> h \<noteq> [] \<and> h ! 0 AND 0x70 = type \<and>
    (\<forall>r. case parse_length (h @ p @ r) of (l, rlen) \<Rightarrow> drop rlen l = r)"
proof (rule exI [of _ "header_bytes type idt bpage (length p) offset m"], intro conjI allI)
  note h = header_parse [OF assms(1,3) disjI1 [OF assms(2)], of idt bpage offset m]
  show "case parse_length (header_bytes type idt bpage (length p) offset m @ p @ r) of (l, rlen) \<Rightarrow> drop rlen l = r" for r
    using h(1) [of "p @ r"] assms(4,5) by simp
qed (use header_parse(2) [OF assms(1,3) disjI1 [OF assms(2)]] assms(4,5) in
  \<open>simp_all add: log_write_eq header_bytes_def Let_def\<close>)

theorem redo_record_framing_witness:
  "\<exists>h. m_log (log_write WRITE (example_page 5) True 3 100 example_mtr) = m_log example_mtr @ h \<and> h \<noteq> [] \<and>
    h ! 0 AND 0x70 = WRITE \<and> (\<forall>r. case parse_length (h @ [1, 2, 3] @ r) of (l, rlen) \<Rightarrow> drop rlen l = r)"
  using redo_record_framing [of WRITE "[1, 2, 3]" "example_page 5" True 100 example_mtr]
  by (simp add: log_types_def record_types numeral_3_eq_3)

text \<open>C31. A write of an integer that is not forced leaves the integer on the page and every other byte as it was; it
  reports whether the page was changed, and appends to the log exactly if so.\<close>

theorem mtr_write_effect:
  assumes "l \<in> {1, 2, 4, 8}" "ptr + l \<le> length page" "w \<noteq> FORCED" "m_logged m"
  shows "case mtr_write l w idt ptr val (page, m) of (changed, page', m') \<Rightarrow>
    take l (drop ptr page') = int_bytes l val \<and> length page' = length page \<and>
    (\<forall>i < length page. i < ptr \<or> ptr + l \<le> i \<longrightarrow> page' ! i = page ! i) \<and>
    (changed \<longleftrightarrow> page' \<noteq> page) \<and> (changed \<longleftrightarrow> length (m_log m) < length (m_log m')) \<and> (\<not> changed \<longrightarrow> m' = m)"
proof -
  let ?b = "int_bytes l val"
  have l: "length ?b = l" by (rule length_int_bytes [OF assms(1)])
  have area: "take l (drop ptr (put ptr ?b page)) = ?b" "length (put ptr ?b page) = length page"
    using drop_put [of ptr page ?b] l assms(2) by simp_all
  have other: "\<forall>i < length page. i < ptr \<or> ptr + l \<le> i \<longrightarrow> put ptr ?b page ! i = page ! i"
    using l assms(2) by (auto simp: nth_put)
  show ?thesis
  proof (cases "same_prefix (drop ptr page) ?b = l")
    case True
    then have "put ptr ?b page = page" using put_same l by simp
    then show ?thesis using True assms(3,4) area by (simp add: mtr_write_def)
  next
    case False
    then have "put ptr ?b page \<noteq> page"
      using area(1) same_prefix_same [of ?b "drop ptr page"] l by auto
    then show ?thesis
      using False assms(3,4) area other by (simp add: mtr_write_def Let_def memcpy_low_longer)
  qed
qed

theorem mtr_write_effect_witness:
  "case mtr_write 2 NORMAL (example_page 5) 10 513 (replicate 16 0, example_mtr) of (changed, page', m') \<Rightarrow>
    take 2 (drop 10 page') = int_bytes 2 513 \<and> length page' = 16 \<and>
    (changed \<longleftrightarrow> page' \<noteq> replicate 16 0) \<and> (changed \<longleftrightarrow> length (m_log example_mtr) < length (m_log m'))"
  using mtr_write_effect [where l = 2 and ptr = 10 and page = "replicate 16 0" and w = NORMAL and m = example_mtr and
      idt = "example_page 5" and val = 513]
  by (auto simp: example_mtr_def case_prod_beta)

text \<open>C32. A MEMMOVE record whose source lies before the start of the page by less than its length passes the check, which is
  computed modulo 2 to the 32, and makes recovery copy bytes from outside of the page.\<close>

theorem redo_memmove_wraps:
  assumes "last_offset st \<le> k" "k + 1 - last_offset st < len" "length (frame st) \<le> 2 ^ 16"
    and "last_offset st + len \<le> length (frame st)" "k < 2 ^ 17"
  shows "apply_memmove env (mlog_encode_varint (2 * k + 1) @ r) (length (mlog_encode_varint (2 * k + 1))) len st = Undefined"
proof -
  define s where "s = (last_offset st + 2 ^ 32 - k - 1) mod 2 ^ 32"
  have k: "2 * k + 1 < 2 ^ 32" "2 * k + 1 < MIN_4BYTE" using assms(5) by (simp_all add: min_bytes)
  have s: "s = 2 ^ 32 - (k + 1 - last_offset st)" using assms(1,5) by (simp add: s_def)
  then have sum: "s + len = (len - (k + 1 - last_offset st)) + 2 ^ 32" using assms(2,5) by simp
  have "(s + len) mod 2 ^ 32 = len - (k + 1 - last_offset st)" unfolding sum using assms(3,4) by simp
  then have small: "(s + len) mod 2 ^ 32 \<le> length (frame st)" using assms(4) by simp
  have big: "8 \<le> s" "\<not> s + len \<le> length (frame st)" using assms(3,5) s sum by simp_all
  have odd: "(2 * k + 1) AND 1 \<noteq> 0" "drop_bit 1 (2 * k + 1) = k" by (simp_all add: and_one_eq drop_bit_eq_div)
  have len: "length (mlog_encode_varint (2 * k + 1)) \<le> 3" using length_varint(1) [OF k(2)] by (simp add: varint_size_def)
  show ?thesis
    unfolding apply_memmove_def Let_def varint_round_trip [OF k(1)] if_P [OF odd(1)] odd(2) s_def [symmetric]
    using len small big by simp
qed

theorem redo_memmove_wraps_witness:
  "apply_memmove (example_env (example_page 5)) (mlog_encode_varint 25 @ []) (length (mlog_encode_varint 25)) 10
     (recv_start 8 (replicate 256 0)) = Undefined"
  using redo_memmove_wraps [of "recv_start 8 (replicate 256 0)" 12 10 "example_env (example_page 5)" "[]"]
  by (simp add: recv_start_def)

text \<open>C33. A MEMSET record with a string of at least two bytes has a defined effect only if the
  length of the area is a multiple of that of the string; then the area is filled with copies of the string.\<close>

theorem redo_memset_multiple:
  assumes "length str \<noteq> 1" "0 < len" "last_offset st + len \<le> length (frame st)"
  shows "apply_memset (str @ r) (length str) len st =
    (if str \<noteq> [] \<and> length str dvd len
     then next_after_applying_write len
            (st\<lparr>frame := put (last_offset st) (concat (replicate (len div length str) str)) (frame st)\<rparr>)
     else Undefined)"
proof (cases "str \<noteq> [] \<and> length str dvd len")
  case True
  then obtain k where k: "len = k * length str" by (metis dvd_def mult.commute)
  then have "last_offset st + k * length str \<le> length (frame st)" using assms(3) by simp
  from memset_repeat_ok [OF _ this, of 0] show ?thesis
    using True assms(1) k by (simp add: apply_memset_def put_def)
next
  case False
  then have "\<not> length str dvd len - 0" using assms(2) by (cases str) auto
  from memset_repeat_not_multiple [OF _ this] show ?thesis using False assms(1) by (auto simp: apply_memset_def)
qed

theorem redo_memset_multiple_witness:
  "apply_memset ([1, 2] @ []) 2 5 (recv_start 8 (replicate 256 0)) = Undefined \<and>
   apply_memset ([1, 2] @ []) 2 4 (recv_start 8 (replicate 256 0)) \<noteq> Undefined"
  using redo_memset_multiple [of "[1, 2]" 5 "recv_start 8 (replicate 256 0)" "[]"]
    redo_memset_multiple [of "[1, 2]" 4 "recv_start 8 (replicate 256 0)" "[]"]
  by (simp add: recv_start_def next_after_applying_write_def next_after_applying_def numeral_2_eq_2 [symmetric])

text \<open>C34. The variant of \<open>mtr_t::memset\<close> that changes the page and logs a repeated string writes the string to the page only once,
  although it logs all copies: recovery computes a different page.\<close>

theorem mtr_memset_str_diverges:
  assumes "str \<noteq> []" "2 \<le> k" "ofs + k * length str \<le> length page"
    and "take (length str) (drop (ofs + length str) page) \<noteq> str"
  shows "snd (mtr_memset_str idt ofs (k * length str) str (page, m)) = snd (run_op idt (Memset_Str k ofs str) (page, m)) \<and>
    fst (mtr_memset_str idt ofs (k * length str) str (page, m)) = put ofs str page \<and>
    fst (run_op idt (Memset_Str k ofs str) (page, m)) \<noteq> put ofs str page"
proof -
  let ?n = "length str"
  have k: "k * ?n = ?n + (?n + (k - 2) * ?n)" using assms(2)
    by (metis add.assoc add_mult_distrib le_add_diff_inverse mult_2)
  have pos: "0 < k * ?n" using assms(1,2) by simp
  have "mtr_memset_str idt ofs (k * ?n) str (page, m) = (put ofs str page, log_memset_str idt ofs (k * ?n) str m)"
    using pos by (simp add: mtr_memset_str_def memset_str_loop.simps [of ofs "k * ?n" str 0] memset_str_once put_def)
  moreover have "put ofs (concat (replicate k str)) page \<noteq> put ofs str page"
  proof
    assume eq: "put ofs (concat (replicate k str)) page = put ofs str page"
    obtain j where "k = Suc (Suc j)" using assms(2) by (metis add_2_eq_Suc le_Suc_ex)
    then have c: "concat (replicate k str) = str @ str @ concat (replicate j str)" by simp
    have "take ?n (drop (ofs + ?n) (put ofs str page)) = take ?n (drop (ofs + ?n) page)"
      using assms(3) k by (intro area_put) auto
    moreover have "take ?n (drop (ofs + ?n) (put ofs (concat (replicate k str)) page)) = str"
      using assms(3) k unfolding c by (simp add: put_def)
    ultimately show False using assms(4) eq by simp
  qed
  ultimately show ?thesis by simp
qed

theorem mtr_memset_str_diverges_witness:
  "fst (mtr_memset_str (example_page 5) 8 4 [1, 2] (replicate 256 0, example_mtr)) = put 8 [1, 2] (replicate 256 0) \<and>
   fst (run_op (example_page 5) (Memset_Str 2 8 [1, 2]) (replicate 256 0, example_mtr)) \<noteq> put 8 [1, 2] (replicate 256 0)"
  using mtr_memset_str_diverges [of "[1, 2]" 2 8 "replicate 256 0" "example_page 5" example_mtr] by simp

end
