(* ===== verification/Recovery_Properties.thy ===== *)
theory Recovery_Properties
  imports Page_Checksum Redo_Properties
begin

text \<open>
  The properties of crash recovery as a whole, from the mini-transactions that are committed through
  the bytes of the log to the pages that are recovered, each with an instance that shows that its hypotheses can hold.
\<close>

unbundle bit_operations_syntax

section \<open>An example\<close>

definition example_recv_env :: recv_env where
  "example_recv_env =
     \<lparr>srv_page_size = 256, srv_force_recovery = False, srv_undo_space_id_start = 0, srv_undo_tablespaces_open = 0,
      next_checkpoint_lsn = 0, if_exists = False, space_exists = (\<lambda>_. True), skip_files = False,
      append_fits = (\<lambda>_ _ _. False), fil_name_process = (\<lambda>_ _ _ st. st)\<rparr>"

definition example_recv_sys :: recv_sys_t where
  "example_recv_sys =
     \<lparr>start_lsn = 0, lsn = 12288, file_checkpoint = 0, found_corrupt_log = False, found_corrupt_fs = False,
      recv_spaces = (\<lambda>_. None), recv_pages = (\<lambda>_. None), mlog_init = (\<lambda>_. None), recv_sizes = [],
      truncated_undo_spaces = (\<lambda>_. \<lparr>trunc_lsn = 0, trunc_pages = 0\<rparr>), renamed_spaces = (\<lambda>_. None)\<rparr>"

definition example_log :: log_t where
  "example_log = \<lparr>first_lsn = 12288, log_capacity = 1048576, log_crc32c = (\<lambda>c l. length l mod 2 ^ 32)\<rparr>"

definition example_server :: server where
  "example_server = \<lparr>srv_lsn = 12288, srv_pages = (\<lambda>_. replicate 256 0), srv_log = []\<rparr>"

definition system_page :: "nat \<Rightarrow> page_id_t" where
  "system_page n = \<lparr>space = 0, page_no = n\<rparr>"

definition example_history :: "(page_id_t \<times> page_op) list list" where
  "example_history =
     [[(system_page 5, Memset 40 10 7), (system_page 6, Memset 60 9 1)],
      [(system_page 5, Write 4 NORMAL 100 5)]]"

lemma mtr_good_size:
  assumes "256 \<le> n"
  shows "(\<And>idt. length (fst s idt) = n) \<Longrightarrow>
    (\<And>idt op. (idt, op) \<in> set xs \<Longrightarrow> idt \<in> ids \<and> op_good n idt op (replicate n 0) \<and> sized_op op) \<Longrightarrow>
    mtr_good n ids xs s"
proof (induction xs arbitrary: s)
  case (Cons x xs)
  have x: "fst x \<in> ids" "op_good n (fst x) (snd x) (replicate n 0)" "sized_op (snd x)"
    using Cons.prems(2) [of "fst x" "snd x"] by simp_all
  have len: "length (fst s (fst x)) = length (replicate n (0 :: byte))" using Cons.prems(1) by simp
  have ok: "op_good n (fst x) (snd x) (fst s (fst x))"
    using x(2) op_ok_size [OF len x(3)] Cons.prems(1) by (simp add: op_good_def)
  then have "length (fst (mtr_step x s) idt) = n" for idt
    using length_op [of "fst x" "snd x" "fst s (fst x)" "snd s"] Cons.prems(1) assms by (simp add: mtr_step_eq op_good_def)
  moreover have "idt \<in> ids \<and> op_good n idt op (replicate n 0) \<and> sized_op op" if "(idt, op) \<in> set xs" for idt op
    using Cons.prems(2) [of idt op] that by simp
  ultimately have "mtr_good n ids xs (mtr_step x s)" by (rule Cons.IH)
  then show ?case using ok x(1) by simp
qed simp

lemma hist_good_size:
  assumes "256 \<le> n"
  shows "(\<And>idt. length (srv_pages s idt) = n) \<Longrightarrow>
    (\<And>ops idt op. ops \<in> set h \<Longrightarrow> length ops * n + 5 < MTR_SIZE_MAX \<and>
       ((idt, op) \<in> set ops \<longrightarrow> idt \<in> ids \<and> op_good n idt op (replicate n 0) \<and> sized_op op)) \<Longrightarrow>
    hist_good n ids lg h s"
proof (induction h arbitrary: s)
  case (Cons ops h)
  have "idt \<in> ids \<and> op_good n idt op (replicate n 0) \<and> sized_op op" if "(idt, op) \<in> set ops" for idt op
    using Cons.prems(2) [of ops idt op] that by simp
  then have good: "mtr_good n ids ops (srv_pages s, mtr_start)" using Cons.prems(1) by (intro mtr_good_size [OF assms]) simp_all
  have "length (m_log (snd (fold mtr_step ops (srv_pages s, mtr_start)))) + 5 < MTR_SIZE_MAX"
    using mtr_log_length [OF good] Cons.prems(2) [of ops "system_page 0" Init_Page] by (simp add: mtr_start_def)
  moreover have len: "length (srv_pages (mtr_commit lg ops s) idt) = n" for idt
    using mtr_good_length [OF good assms] Cons.prems(1) assms
    by (simp add: mtr_commit_def commit_log_def case_prod_beta Let_def)
  moreover have "hist_good n ids lg h (mtr_commit lg ops s)" by (rule Cons.IH [OF len]) (rule Cons.prems(2), simp)
  ultimately show ?case using good by simp
qed simp

lemma example_hist:
  "hist_good 256 {system_page 5, system_page 6} example_log example_history example_server"
  "srv_lsn (fold (mtr_commit example_log) example_history example_server) < 2 ^ 64"
proof -
  show good: "hist_good 256 {system_page 5, system_page 6} example_log example_history example_server"
    by (rule hist_good_size)
      (auto simp: example_server_def example_history_def MTR_SIZE_MAX_def op_good_def stable_def system_page_def)
  show "srv_lsn (fold (mtr_commit example_log) example_history example_server) < 2 ^ 64"
    using hist_lsn_bound [OF good] by (simp add: example_server_def example_history_def MTR_SIZE_MAX_def)
qed

lemma example_start:
  "at_checkpoint example_recv_env {system_page 5, system_page 6} 256 example_server example_recv_sys"
  "crc_ok example_log" "block_ok (example_env (system_page 5))" "block_id (example_env (system_page 5)) = system_page 5"
  "\<not> if_exists example_recv_env" "srv_page_size example_recv_env = 256"
  by (simp_all add: at_checkpoint_def example_server_def example_recv_sys_def example_recv_env_def system_page_def crc_ok_def
      example_log_def id_ok_def known_space_def page_lsn_def MLOG_DECODE_ERROR_def block_ok_def example_env_def mach_read_from_8_def
      mach_read_from_4_def)

lemma example_log_grows: "srv_log (fold (mtr_commit example_log) example_history example_server) \<noteq> []"
proof -
  have m: "fold mtr_step [(system_page 5, Memset 40 10 7), (system_page 6, Memset 60 9 1)] (srv_pages example_server, mtr_start) =
      ((srv_pages example_server)(system_page 5 := put 40 (replicate 10 7) (replicate 256 0),
         system_page 6 := put 60 (replicate 9 1) (replicate 256 0)),
       log_memset (system_page 6) 60 9 1 (log_memset (system_page 5) 40 10 7 mtr_start))"
    by (simp add: mtr_step_eq mtr_memset_def example_server_def system_page_def)
  have "m_log (log_memset (system_page 6) 60 9 1 (log_memset (system_page 5) 40 10 7 mtr_start)) \<noteq> []"
    by (simp add: log_memset_def mtr_start_def Let_def)
  from commit_logged [OF m this, of example_log] show ?thesis
    using hist_log [of example_log "tl example_history" "mtr_commit example_log (hd example_history) example_server"]
    by (auto simp: example_history_def finish_writer_eq)
qed

definition refused_ops :: "(page_id_t \<times> page_op) list" where
  "refused_ops = [(system_page 5, Memset 100 100 0), (system_page 5, Memmove 200 20 50)]"

lemma one_byte_varint: "i < 128 \<Longrightarrow> mlog_encode_varint i = [byte_of i]"
  by (simp add: mlog_encode_varint_def min_bytes)

lemma small_decode: "b < 128 \<Longrightarrow> mlog_decode_varint_length b = 1 \<and> mlog_decode_varint (b # l) = unat b"
proof -
  assume "b < 128"
  then have "unat b < 128" by (simp add: word_less_nat_alt)
  then show ?thesis using varint_round_trip(1,2) [of "unat b" l] one_byte_varint [of "unat b"] by simp
qed

lemma refused_distance:
  "mlog_encode_varint 359 = [0x80, 0xE7]" "mlog_decode_varint_length 0x80 = 2" "mlog_decode_varint (0x80 # 0xE7 # l) = 359"
proof -
  show e: "mlog_encode_varint 359 = [0x80, 0xE7]" by (simp add: mlog_encode_varint_def min_bytes Let_def)
  show "mlog_decode_varint_length 0x80 = 2" "mlog_decode_varint (0x80 # 0xE7 # l) = 359"
    using varint_round_trip(1,2) [of 359 l] e by simp_all
qed

text \<open>The two records: first a fill of 100 bytes at 100 of page 5, then a move of 50 bytes, at once after it, from 180 bytes before.\<close>

definition refused_mid :: mtr_t where
  "refused_mid = \<lparr>m_log = [0x45, 0, 5, 100, 100, 0], m_last = Some (system_page 5), m_last_offset = 200, m_logged = True\<rparr>"

lemma refused_fill: "log_memset (system_page 5) 100 100 0 mtr_start = refused_mid"
proof -
  have rel: "\<not> rel_page MEMSET (system_page 5) True 100 mtr_start" by (simp add: rel_page_def mtr_start_def same_page_as_def)
  then have h: "header_bytes MEMSET (system_page 5) True 2 100 mtr_start = [0x45, 0, 5, 100]"
    by (simp add: header_bytes_def header_body_def id_bytes_def one_byte_varint system_page_def record_types Let_def)
  have "log_write MEMSET (system_page 5) True 2 100 mtr_start =
      \<lparr>m_log = [0x45, 0, 5, 100], m_last = Some (system_page 5), m_last_offset = 0, m_logged = True\<rparr>"
    unfolding log_write_eq h by (simp add: rel) (simp add: mtr_start_def)
  then show ?thesis
    by (simp add: log_memset_def varint_size_def min_bytes numeral_2_eq_2 [symmetric] one_byte_varint refused_mid_def)
      (simp add: mtr_start_def)
qed

lemma refused_move:
  "m_log (log_memmove (system_page 5) 200 20 50 refused_mid) = [0x45, 0, 5, 100, 100, 0] @ [0xD4, 0, 50, 0x80, 0xE7]"
proof -
  have rel: "rel_page MEMMOVE (system_page 5) True 200 refused_mid"
    by (simp add: refused_mid_def rel_page_def same_page_as_def record_types)
  have "header_body MEMMOVE (system_page 5) True 200 refused_mid = [0]"
    by (simp add: header_body_def rel) (simp add: refused_mid_def one_byte_varint)
  then have "header_bytes MEMMOVE (system_page 5) True 3 200 refused_mid = [0xD4, 0]"
    by (simp add: header_bytes_def rel) (simp add: record_types)
  then show ?thesis
    by (simp add: log_memmove_def log_write_eq one_byte_varint varint_size_def min_bytes rel refused_distance(1) numeral_3_eq_3 [symmetric])
      (simp add: refused_mid_def)
qed

lemma refused_parse_fill:
  "\<exists>st'. parse_record example_recv_env ([0x45, 0, 5, 100, 100, 0] @ r) v st =
    Continue \<lparr>space_id = 0, page_nr = 5, last_ofs = 101, got_page_op = True\<rparr> st'"
  by (simp add: parse_record_def parse_length_def record_types RESERVED_def Let_def)
    (simp add: parse_id_record_def small_decode Let_def MLOG_DECODE_ERROR_def parse_with_id_def parse_page_record_def record_types
      RESERVED_def parse_write_def check_offset_record_def ext_varint_def store_record_def example_recv_env_def)

lemma refused_parse_move:
  "\<exists>st'. parse_record example_recv_env ([0xD4, 0, 50, 0x80, 0xE7] @ r)
     \<lparr>space_id = 0, page_nr = 5, last_ofs = 101, got_page_op = True\<rparr> st = Result GOT_EOF st' \<and> found_corrupt_log st'"
  by (simp add: parse_record_def parse_length_def record_types RESERVED_def Let_def)
    (simp add: parse_page_record_def record_types Let_def RESERVED_def parse_write_def check_offset_record_def ext_varint_def
      small_decode refused_distance(2,3) example_recv_env_def parse_record_corrupted_def log_record_corrupted_def set_corrupt_log_def)

lemma refused_parse:
  "\<exists>st'. parse_records example_recv_env ([0x45, 0, 5, 100, 100, 0] @ [0xD4, 0, 50, 0x80, 0xE7] @ r) v st = (GOT_EOF, st') \<and>
    found_corrupt_log st'"
proof -
  let ?v = "\<lparr>space_id = 0, page_nr = 5, last_ofs = 101, got_page_op = True\<rparr>"
  obtain st1 where st1: "parse_record example_recv_env ([0x45, 0, 5, 100, 100, 0] @ [0xD4, 0, 50, 0x80, 0xE7] @ r) v st = Continue ?v st1"
    using refused_parse_fill by blast
  obtain st2 where st2: "parse_record example_recv_env ([0xD4, 0, 50, 0x80, 0xE7] @ r) ?v st1 = Result GOT_EOF st2" "found_corrupt_log st2"
    using refused_parse_move by blast
  have "parse_length ([0x45, 0, 5, 100, 100, 0] @ [0xD4, 0, 50, 0x80, 0xE7] @ r) =
      ([0, 5, 100, 100, 0] @ [0xD4, 0, 50, 0x80, 0xE7] @ r, 5)" by (simp add: parse_length_def)
  then have "parse_records example_recv_env ([0x45, 0, 5, 100, 100, 0] @ [0xD4, 0, 50, 0x80, 0xE7] @ r) v st =
      parse_records example_recv_env ([0xD4, 0, 50, 0x80, 0xE7] @ r) ?v st1"
    by (subst parse_records.simps) (use st1 in \<open>simp add: word_le_nat_alt\<close>)
  also have "\<dots> = (GOT_EOF, st2)" by (subst parse_records.simps) (use st2 in \<open>simp add: word_le_nat_alt\<close>)
  finally show ?thesis using st2(2) by simp
qed

definition example_sums :: checksum_env where
  "example_sums = \<lparr>cs_page_size = 256, cs_algorithm = STRICT_CRC32, cs_flushed_lsn = 12288, cs_force_recovery = 0,
     cs_crc32c = (\<lambda>c l. (c + length l) mod 2 ^ 32), cs_adler32 = (\<lambda>c l. c)\<rparr>"

lemma example_sums_ok: "sums_ok example_sums" "cs_page_size example_sums = 256"
  by (simp_all add: sums_ok_def example_sums_def)

section \<open>Properties\<close>





text \<open>C35. Between mini-transactions the server is well formed: the LSN counts the bytes of the log, and every page
  keeps its size and carries an LSN that has been reached. Committing keeps this, and leaves pages alone that
  the mini-transaction does not write to.\<close>

theorem commit_well_formed:
  assumes "server_ok ids n lsn0 s" "mtr_good n ids ops (srv_pages s, mtr_start)" "256 \<le> n" "srv_lsn (mtr_commit lg ops s) < 2 ^ 64"
  shows "server_ok ids n lsn0 (mtr_commit lg ops s) \<and>
    (idt \<notin> ids \<longrightarrow> srv_pages (mtr_commit lg ops s) idt = srv_pages s idt)"
  using commit_server_ok [OF assms] by blast

theorem commit_well_formed_witness:
  "server_ok {system_page 5, system_page 6} 256 12288 (mtr_commit example_log (hd example_history) example_server) \<and>
   srv_pages (mtr_commit example_log (hd example_history) example_server) (system_page 7) = replicate 256 0"
proof -
  have ok: "server_ok {system_page 5, system_page 6} 256 12288 example_server"
    by (simp add: server_ok_def example_server_def page_lsn_def mach_read_from_8_def mach_read_from_4_def)
  have good: "mtr_good 256 {system_page 5, system_page 6} (hd example_history) (srv_pages example_server, mtr_start)"
    using example_hist(1) by (simp add: example_history_def)
  have "srv_lsn (mtr_commit example_log (hd example_history) example_server) < 2 ^ 64"
    using hist_lsn_mono [of "mtr_commit example_log (hd example_history) example_server" example_log "tl example_history"] example_hist(2)
    by (simp add: example_history_def)
  from commit_well_formed [OF ok good _ this, of "system_page 7"] show ?thesis
    by (simp add: example_server_def system_page_def)
qed



text \<open>C37. A log that was written according to the assertions of the operations can be taken for corrupted: after the record of
  a fill, the parser advances its offset by the bytes that remain of the record instead of the length of the area, and computes
  from it that a following move of bytes of the same page reads outside of the page.\<close>

theorem valid_log_refused:
  assumes "length (pages (system_page 5)) = 256"
  shows "mtr_ok refused_ops (pages, mtr_start) \<and>
    (case parse_tail example_recv_env (m_log (snd (fold mtr_step refused_ops (pages, mtr_start))) @ [1, 0, 0, 0, 0]) 16 example_recv_sys
     of (r, st) \<Rightarrow> r = GOT_EOF \<and> found_corrupt_log st)"
proof -
  have m: "m_log (snd (fold mtr_step refused_ops (pages, mtr_start))) = [0x45, 0, 5, 100, 100, 0] @ [0xD4, 0, 50, 0x80, 0xE7]"
    using refused_move by (simp add: refused_ops_def mtr_step_eq mtr_memset_def refused_fill)
  have "mtr_ok refused_ops (pages, mtr_start)"
    using assms by (simp add: refused_ops_def mtr_step_eq mtr_memset_def)
  then show ?thesis
    unfolding m parse_tail_def append_assoc
    using refused_parse [of "[1, 0, 0, 0, 0]" "\<lparr>space_id = 0, page_nr = 0, last_ofs = 0, got_page_op = False\<rparr>"
        "example_recv_sys\<lparr>start_lsn := lsn example_recv_sys, lsn := lsn example_recv_sys + 16\<rparr>"] by (elim exE conjE) simp
qed

theorem valid_log_refused_witness:
  "case parse_tail example_recv_env
     (m_log (snd (fold mtr_step refused_ops (\<lambda>_. replicate 256 0, mtr_start))) @ [1, 0, 0, 0, 0]) 16 example_recv_sys
   of (r, st) \<Rightarrow> r = GOT_EOF \<and> found_corrupt_log st"
  using valid_log_refused [of "\<lambda>_. replicate 256 0"] by simp

text \<open>C38. What was written can be read: when a page that was prepared for writing is read again, the check finds no corruption,
  whatever the checksum algorithm, unless the LSN of the page is checked and in the future. In both formats the image is one that
  recovery can start from, provided that the page type is a known one. The checksum of a compressed page is accepted, too.\<close>

theorem page_write_read:
  assumes "sums_ok env" "length page = cs_page_size env" "full_crc32 flags = use_full" "zip_size flags = 0"
    and "use_full \<longrightarrow> fil_page_get_type page AND push_bit 15 1 = 0"
    and "p = buf_flush_init_for_writing env block use_full page"
  shows "buf_page_is_corrupted env check_lsn p flags =
      Some (if buf_page_check_lsn env check_lsn page then CORRUPTED_FUTURE_LSN else NOT_CORRUPTED) \<and>
    (use_full \<or> (\<forall>idt. block = Some idt \<and> cs_page_size env = 16384 \<longrightarrow>
         reset_type idt (fil_page_get_type page) = fil_page_get_type page) \<longrightarrow> flushed page p) \<and>
    (34 < k \<and> k \<le> length zip_data \<and> buf_flush_zip env k page zip_data = Some z \<longrightarrow> k \<le> length page \<longrightarrow>
       page_zip_verify_checksum env z k)"
proof (intro conjI impI)
  show "buf_page_is_corrupted env check_lsn p flags =
      Some (if buf_page_check_lsn env check_lsn page then CORRUPTED_FUTURE_LSN else NOT_CORRUPTED)"
    using flush_full(1) [OF assms(1,2)] flush_old(1) [OF assms(1,2)] assms(3-6)
    by (cases use_full) (simp_all add: buf_page_is_corrupted_def check_lsn_result_def)
  show "flushed page p" if "use_full \<or> (\<forall>idt. block = Some idt \<and> cs_page_size env = 16384 \<longrightarrow>
      reset_type idt (fil_page_get_type page) = fil_page_get_type page)"
    using flush_full(2) [OF assms(1,2)] flush_old(2) [OF assms(1,2) _ assms(4)] assms(3,5,6) that by (cases use_full) auto
  assume z: "34 < k \<and> k \<le> length zip_data \<and> buf_flush_zip env k page zip_data = Some z" "k \<le> length page"
  have "cs_crc32c env c l < 2 ^ 32" for c l using assms(1) by (simp add: sums_ok_def)
  then show "page_zip_verify_checksum env z k"
    using z zip_verify [of env k "take k page @ drop k zip_data"] zip_verify [of env k zip_data]
    by (auto simp: buf_flush_zip_def Let_def split: if_splits)
qed

theorem page_write_read_witness:
  "buf_page_is_corrupted example_sums True (buf_flush_init_for_writing example_sums None True (replicate 256 0)) 16 = Some NOT_CORRUPTED \<and>
   flushed (replicate 256 0) (buf_flush_init_for_writing example_sums None True (replicate 256 0))"
proof -
  have "fil_page_get_type (replicate 256 0) = 0" by (simp add: fil_page_get_type_def FIL_PAGE_TYPE_def mach_read_from_2_def)
  moreover have "page_lsn (replicate 256 0) = 0" by (rule zero_page_lsn) (simp_all add: buf_is_zeroes_def list_all_length)
  ultimately show ?thesis
    using page_write_read [where env = example_sums and page = "replicate 256 0" and flags = 16 and use_full = True and block = None
        and check_lsn = True, OF example_sums_ok(1) _ _ _ _ refl]
    by (simp add: example_sums_ok(2) full_crc32_def zip_size_def push_bit_eq_mult buf_page_check_lsn_def)
qed

text \<open>C39. The check of a page in the format that covers the whole page reads outside of the page exactly if the page type on disk
  is 0x8000, which says that the page was compressed to 0 bytes; the position of the checksum is then computed modulo 2 to the 32.\<close>

theorem page_check_out_of_bounds:
  assumes "length page = cs_page_size env" "256 \<le> cs_page_size env" "cs_page_size env \<le> 2 ^ 16" "full_crc32 flags"
  shows "buf_page_is_corrupted env check_lsn page flags = None \<longleftrightarrow> fil_page_get_type page = 0x8000"
  using full_crc32_undefined [OF assms(1-3)] assms(4) by (simp add: buf_page_is_corrupted_def push_bit_eq_mult)

theorem page_check_out_of_bounds_witness:
  "buf_page_is_corrupted example_sums True (put 24 [0x80, 0] (replicate 256 0)) 16 = None"
proof -
  have "fil_page_get_type (put 24 [0x80, 0] (replicate 256 0)) = 0x8000"
    by (simp add: fil_page_get_type_def FIL_PAGE_TYPE_def put_def mach_read_from_2_def push_bit_eq_mult)
  then show ?thesis
    using page_check_out_of_bounds [of "put 24 [0x80, 0] (replicate 256 0)" example_sums 16 True]
    by (simp add: example_sums_ok(2) full_crc32_def push_bit_eq_mult)
qed

end
