(* ===== verification/Spec2Isabelle.thy ===== *)
theory Spec2Isabelle
  imports MDL_Properties Queue_Properties Index_Properties Recovery_Properties
begin

text \<open>
  A verification of parts of the MariaDB server: the metadata lock manager, the priority queue and
  the timers of the runtime library, and the redo log of the InnoDB storage engine. All file names
  below are relative to \<open>src/\<close>.

  \<^bold>\<open>The program.\<close> A server thread that runs a statement first takes metadata locks on the names it
  uses; they keep other threads from dropping or altering the objects (\<open>sql/mdl.cc\<close>). Timeouts of
  statements are kept in a queue that a timer thread serves (\<open>mysys/thr_timer.c\<close>, a client of
  \<open>mysys/queues.c\<close>). The storage engine changes pages in mini-transactions, and appends to a log what is needed to
  repeat the changes after a crash (\<open>storage/innobase/include/mtr0log.h\<close>, \<open>mtr/mtr0mtr.cc\<close>), in
  the integer formats of \<open>include/mach0data.inl\<close>. After a crash, the log is read from the last checkpoint on, its records are
  collected by page, and applied to the pages when these are read (\<open>log/log0recv.cc\<close>).

  \<^bold>\<open>Shared theories.\<close> \<open>Prelude\<close> has the machine integers of the C sources, the collections of facts
  and the generic lemmas; \<open>Bytes\<close> has byte strings as numbers.

  \<^bold>\<open>Metadata locks.\<close>
  \<^item> \<open>MDL_Types\<close>: the lock types and the six compatibility matrices, as bitmaps of 16 bits. The locale
    \<open>mdl_strategy\<close> is the contract of \<open>MDL_lock_strategy\<close> that the scheduler relies on; it is
    interpreted for the scoped, the object and the backup strategy.
  \<^item> \<open>MDL_Lock\<close>: one \<open>MDL_lock\<close>, with its queues, bitmaps and 32 bit counters, the grant test,
    \<open>reschedule_waiters\<close> with the limits on hogging locks, and the wait slots.
  \<^item> \<open>MDL_Key\<close>: the bytes of an \<open>MDL_key\<close>, and that they determine namespace, database and name.
  \<^item> \<open>MDL_System\<close>: the lock map and the contexts; one definition per critical section of each
    operation of \<open>MDL_context\<close>.
  \<^item> \<open>MDL_Steps\<close>: executions, as an inductive relation on states in which any context may take the next step,
    and the invariant that all steps preserve.
  \<^item> \<open>MDL_Deadlock\<close>: the deadlock detector on one state. The search is bounded by
    the depth limit of the code, so that its recursion needs no fuel; the loop of \<open>find_deadlock\<close> may run forever as far as its
    definition goes, and is proved to end.
  \<^item> \<open>MDL_Properties\<close>: mutual exclusion, no lost wake-up, ownership, that cycles are found and
    broken and which victim is chosen, exactness of the grant test, savepoints, keys; and three defects of the code.

  \<^bold>\<open>Queues and timers.\<close>
  \<^item> \<open>Queues\<close>: every operation on the heap of \<open>mysys/queues.c\<close>, on an array from index 1, with the
    positions that elements may carry. The locale \<open>queue_compare\<close> is the contract of the compare
    function of the caller, and \<open>prio_queue\<close> that of a queue of which the first element is a least one.
  \<^item> \<open>Timers\<close>: the timer service as a client; the compare function of timers is an instance of
    \<open>queue_compare\<close>. The steps of the threads interleave at the sections guarded by \<open>LOCK_timer\<close>.
  \<^item> \<open>Queue_Properties\<close>: the heap implements a sorted multiset, insertion, removal, replacement and
    repair keep the invariant; timers are called in time, in order, and all of them; and what happens to the dummy timer in 2038.

  \<^bold>\<open>Redo log.\<close>
  \<^item> \<open>Mach_Data\<close>: the integer formats, as byte lists; unsigned numbers are natural numbers with the
    reductions modulo powers of 2 written out. Round trips, and that stored signed integers compare as byte strings.
  \<^item> \<open>Redo_Log\<close>: the records that the methods of \<open>mtr_t\<close> append to the log, and the decoding of integers and lengths.
    The page that a method changes is a byte list. The buffers that the log consists of are one byte list.
  \<^item> \<open>Redo_Pages\<close>: the changes of whole pages that are logged by name.
  \<^item> \<open>Index_Page\<close>: the accessors of the records and of the directory of an index page, and the functions of \<open>page0cur.cc\<close> that insert
    and delete records at recovery. Reads and writes are checked: the result is None for one outside of the page.
  \<^item> \<open>Redo_Apply\<close>: \<open>log_phys_t::apply\<close>. Reads and writes outside of the page and loops without end
    are the value \<open>Undefined\<close>. The loop over the records is proved to end, because each record
    is shorter than the rest of the log.
  \<^item> \<open>Index_Write\<close>: inserting and deleting records of index pages in a mini-transaction (\<open>page_cur_insert_rec_low\<close> and
    \<open>page_cur_delete_rec\<close> of \<open>page/page0cur.cc\<close>), with the search for space and for the owner, the comparison with the
    preceding record and the log records. The sizes of records, which the code computes from the data dictionary, are arguments.
  \<^item> \<open>Page_Writes\<close>: pages after sequences of writes to disjoint areas, and what the accessors read there.
  \<^item> \<open>Index_Insert\<close>, \<open>Index_Replay\<close>, \<open>Index_Delete\<close>: the page after an insertion and after a deletion as such a sequence, that the function which
    applies the log record performs the same writes, and that it splits and balances the directory as the writer does. This is for
    the formats COMPACT and DYNAMIC. The conditions are \<open>insert_ok\<close> and \<open>delete_ok\<close>: the header, directory and records of the page that
    are looked at are where they must be, at most eight records are passed on the way to the owner, the space of the new record is free,
    and (\<open>header_scan\<close> and the last part of \<open>insert_ok\<close>) the new record is not compared with bytes that the insertion has changed,
    which the code does not make sure of.
  \<^item> \<open>Redo_Mtr\<close>: sequences of operations of a mini-transaction on several pages, and the simulation of each operation
    by applying its records.
  \<^item> \<open>Index_Properties\<close>: what the insertion of a record changes, and that recovery computes the same page; and three valid
    pages on which it does not. They are computed by rewriting, with code equations that treat eight elements of a list at a time.
  \<^item> \<open>Redo_Properties\<close>: recovery computes the pages that a mini-transaction left,
    for any operations on any pages in any order; recovery stays in the page except for
    malformed records of the types MEMSET and MEMMOVE and of index pages; the record format.

  \<^bold>\<open>Crash recovery.\<close>
  \<^item> \<open>Redo_Parse\<close>: \<open>recv_sys_t::parse_tail\<close>, the parser of the records of one mini-transaction, with all its checks,
    and the maps from pages to records and from tablespaces to what is known of them.
  \<^item> \<open>Redo_Recover\<close>: \<open>recv_recover_page\<close>, which applies the records of a page that are newer than the page.
    Two images of a page are the same up to checksum, LSN and trailer, which the log does not cover (\<open>same_image\<close>).
  \<^item> \<open>Redo_Follow\<close>: the invariant between a page and the records that were collected for it, and that parsing the
    log of a mini-transaction preserves it.
  \<^item> \<open>Redo_Scan\<close>: the end marker and checksum of a mini-transaction in the log (\<open>mtr_t::finish_writer\<close>), finding and checking them
    (\<open>log_parse_start\<close>), and the loop over the log, which ends because each mini-transaction has a positive length.
  \<^item> \<open>Redo_Crash\<close>: committing mini-transactions with their LSNs, histories of them, and the simulation of a history by reading its log.
  \<^item> \<open>Page_Checksum\<close>: the checksums with which pages are written to data files (\<open>buf/buf0flu.cc\<close>), and the check when they are read
    (\<open>buf/buf0buf.cc\<close>). A check that would read outside of the page has the result None.
  \<^item> \<open>Recovery_Properties\<close>: after a crash every page is recovered as the committed mini-transactions left it,
    from any image of it that was written in the meantime; a torn write of the log loses whole mini-transactions only; what is
    true between mini-transactions; that a page which was written is accepted when it is read, and can be the image recovery starts from; a valid log that is taken for corrupted, and
    a page for which the check reads outside of it. The operations of a history must
    satisfy \<open>op_good\<close>: the assertions of the operations, that they do not depend on bytes that the log does not cover, and for
    moves of bytes that the source is after the target, which excludes that defect. Inserting and deleting records is
    part of mini-transactions, but not of these histories.

  \<^bold>\<open>Assumptions.\<close> Parameters stand for what is not in these files or not modelled: the clock, memory
  allocation, callbacks and compare functions; the CRC-32C and Adler-32 functions; the registration of file names
  (\<open>fil_name_process\<close>) and the allocation of memory for records at recovery. Code under a mutex is one step.

  \<^bold>\<open>Not modelled.\<close> In these components: \<open>MDL_context::acquire_locks\<close>, the
  lock-free hash behind the lock map, instrumentation and the code of Galera builds; \<open>delete_queue\<close>;
  floating point formats; inserting and deleting records of compressed pages; that recovery repeats insertions and deletions in the format REDUNDANT is not proved; the latches and buffers of a mini-transaction, writing log records on files; at recovery, encrypted logs, log
  buffers that wrap around, the modes of the parser that do not store records, running out of memory and the recovery in
  several batches, and the decompression of compressed pages; checkpoints and log files. Of the rest of the server: parser,
  optimizer and executor, replication, the network protocol, the storage engines other than the parts above. They are
  class hierarchies and input and output without a small contract of their own, or have not been reached.
\<close>

end
